(* ===== verification/Prelude.thy ===== *)
theory Prelude
  imports Main "HOL-Library.Word"
begin

text \<open>
  What every theory of the development shares: addresses and cell memories, the outcomes
  of a C function that need not return (a failed \<open>assert\<close>, a loop that never ends,
  undefined signed overflow), the C integer widths, and a few list and arithmetic lemmas.

  Addresses are unbounded integers, \<open>NULL\<close> is 0, and pointer arithmetic is exact: the
  sources only do it inside one C object, where it cannot wrap.  A pointer-sized cell is
  read and written as a whole at its own address; the model says nothing about accesses
  that overlap a cell partially, and the layout hypotheses of the theorems exclude them.
\<close>

section \<open>Addresses, memories and outcomes\<close>

type_synonym addr = int
type_synonym mem = "addr \<Rightarrow> int"
type_synonym byte = "8 word"
type_synonym bmem = "addr \<Rightarrow> byte"

text \<open>Why a C function does not return a value.  \<open>Wrong_object\<close>: it goes on with memory that is mapped but is
  no object of the type it is used as; what it finds there is not modelled.\<close>

datatype crash = Assert_failed | No_return | Signed_overflow | Bad_access | Wrong_object

type_synonym 'a run = "crash + 'a"

fun bind_run :: "'a run \<Rightarrow> ('a \<Rightarrow> 'b run) \<Rightarrow> 'b run" where
  "bind_run (Inl e) f = Inl e"
| "bind_run (Inr x) f = f x"

definition assert_run :: "bool \<Rightarrow> 'a run \<Rightarrow> 'a run" where
  "assert_run b k = (if b then k else Inl Assert_failed)"

definition of_option :: "'a option \<Rightarrow> 'a run" where
  "of_option x = (case x of None \<Rightarrow> Inl No_return | Some y \<Rightarrow> Inr y)"

text \<open>The return codes of \<open>common.h\<close>.\<close>

definition HIXO_OK :: int where "HIXO_OK = 0"
definition HIXO_ERROR :: int where "HIXO_ERROR = -1"

text \<open>The C integer types of an LP64 machine: \<open>int\<close> has 32 bits, \<open>intptr_t\<close> and
  \<open>ssize_t\<close> have 64.  \<open>c_int\<close> is the conversion of a wider integer to \<open>int\<close>.\<close>

definition INTEGER_MAX :: int where "INTEGER_MAX = 2 ^ 63 - 1"
definition INTEGER_MIN :: int where "INTEGER_MIN = - (2 ^ 63)"

definition is_intptr :: "int \<Rightarrow> bool" where
  "is_intptr x \<longleftrightarrow> INTEGER_MIN \<le> x \<and> x \<le> INTEGER_MAX"

definition intptr_run :: "int \<Rightarrow> int run" where
  "intptr_run x = (if is_intptr x then Inr x else Inl Signed_overflow)"

definition c_int :: "int \<Rightarrow> int" where
  "c_int x = signed_take_bit 31 x"

named_theorems run_simps
named_theorems layout_simps

lemmas [run_simps] = assert_run_def of_option_def HIXO_OK_def HIXO_ERROR_def

lemma bind_run_assoc [simp]:
  "bind_run (bind_run m f) g = bind_run m (\<lambda>x. bind_run (f x) g)"
  by (cases m) simp_all

lemma bind_run_Inr_iff:
  "bind_run m f = Inr y \<longleftrightarrow> (\<exists>x. m = Inr x \<and> f x = Inr y)"
  by (cases m) auto

lemma c_int_small [simp]: "0 \<le> x \<Longrightarrow> x < 2 ^ 31 \<Longrightarrow> c_int x = x"
  by (simp add: c_int_def signed_take_bit_int_eq_self)

section \<open>Lists\<close>

lemma remove1_append_notin: "x \<notin> set xs \<Longrightarrow> remove1 x (xs @ ys) = xs @ remove1 x ys"
  by (induction xs) auto

lemma list_snoc_cases:
  obtains "xs = []" | ys y where "xs = ys @ [y]"
  by (cases xs rule: rev_cases) auto

lemma inj_scaled: "0 < (k::int) \<Longrightarrow> inj (\<lambda>i. s + i * k)"
  by (auto simp: inj_def)

lemma foldl_invariant:
  assumes "P 0 s" and "\<And>i s. i < n \<Longrightarrow> P i s \<Longrightarrow> P (Suc i) (f s i)"
  shows "P n (foldl f s [0..<n])"
  using assms by (induction n) auto

section \<open>Tag bits on aligned pointers\<close>

text \<open>The program keeps a flag in bit 0 of a pointer to an aligned object
  (\<open>p | 1\<close>, \<open>p & 1\<close>, \<open>p & ~1\<close>).\<close>

unbundle bit_operations_syntax

lemma even_or_one: "even (p::int) \<Longrightarrow> p OR 1 = p + 1"
  by (auto simp: or_one_eq)

lemma and_not_one: "(p::int) AND NOT 1 = 2 * (p div 2)"
proof -
  have "p AND NOT 1 = unset_bit 0 p"
    by (simp add: unset_bit_eq_and_not)
  then show ?thesis by (simp add: unset_bit_0)
qed

lemma untag_tagged: "even (p::int) \<Longrightarrow> (p OR 1) AND NOT 1 = p"
  by (simp only: even_or_one and_not_one) (auto elim!: evenE)

lemma odd_tagged: "even (p::int) \<Longrightarrow> odd (p OR 1)"
  by (simp add: even_or_one)

lemma tagged_ne: "even (p::int) \<Longrightarrow> p OR 1 \<noteq> p"
  by (simp add: even_or_one)

section \<open>Sets of numbered bits\<close>

text \<open>What the users of a store of bits rely on: raw memory (\<open>slub.c\<close>) and the bitmaps of \<open>bitmap.h\<close>
  provide it.\<close>

locale bit_store =
  fixes inv :: "'s \<Rightarrow> bool" and in_range :: "'s \<Rightarrow> 'k \<Rightarrow> bool"
    and set_bit_at :: "'s \<Rightarrow> 'k \<Rightarrow> 's" and test_bit_at :: "'s \<Rightarrow> 'k \<Rightarrow> bool"
  assumes set_inv: "inv s \<Longrightarrow> in_range s k \<Longrightarrow> inv (set_bit_at s k)"
    and set_range: "inv s \<Longrightarrow> in_range s k \<Longrightarrow> in_range (set_bit_at s k) l \<longleftrightarrow> in_range s l"
    and test_set: "inv s \<Longrightarrow> in_range s k \<Longrightarrow> in_range s l \<Longrightarrow>
      test_bit_at (set_bit_at s k) l \<longleftrightarrow> l = k \<or> test_bit_at s l"
begin

lemma set_all:
  "inv s \<Longrightarrow> (\<forall>k \<in> set ks. in_range s k) \<Longrightarrow> in_range s l \<Longrightarrow>
     inv (foldl set_bit_at s ks) \<and> (in_range (foldl set_bit_at s ks) l)
     \<and> (test_bit_at (foldl set_bit_at s ks) l \<longleftrightarrow> l \<in> set ks \<or> test_bit_at s l)"
proof (induction ks arbitrary: s)
  case (Cons k ks)
  then have k: "in_range s k" by simp
  have "inv (set_bit_at s k)" "\<forall>j \<in> set ks. in_range (set_bit_at s k) j" "in_range (set_bit_at s k) l"
    using Cons.prems set_inv [OF Cons.prems(1) k] set_range [OF Cons.prems(1) k] by simp_all
  from Cons.IH [OF this] show ?case
    using test_set [OF Cons.prems(1) k Cons.prems(3)] by auto
qed simp

end

end
