(* ===== verification/MemBits.thy ===== *)
theory MemBits
  imports Prelude
begin

text \<open>
  The bit operations on raw memory at the head of \<open>src/slub.c\<close>: \<open>mem_shift_left\<close>,
  \<open>mem_is_filled\<close>, \<open>mem_set_bit\<close> and \<open>mem_detect_bit\<close>.  Memory is a function from addresses to
  bytes.  Plain \<open>char\<close> is signed (x86): \<open>(~0) == c\<close> holds exactly for the byte 255.  Loop
  counters and lengths that the assertions make non-negative are natural numbers.

  \<open>mbit b p k\<close> is bit number \<open>k\<close> of the memory that starts at \<open>p\<close>, least significant bit of
  the first byte first.
\<close>

unbundle bit_operations_syntax

section \<open>The code\<close>

definition bmem_set :: "bmem \<Rightarrow> addr \<Rightarrow> byte \<Rightarrow> nat \<Rightarrow> bmem" where
  "bmem_set b p v n = (\<lambda>a. if p \<le> a \<and> a < p + int n then v else b a)"

text \<open>The first loop of \<open>mem_shift_left\<close>: whole bytes, from the top down.\<close>

fun shift_bytes :: "bmem \<Rightarrow> addr \<Rightarrow> nat \<Rightarrow> nat \<Rightarrow> bmem" where
  "shift_bytes b base empty_bytes 0 = b"
| "shift_bytes b base empty_bytes (Suc i) =
     shift_bytes (b(base + int (i + empty_bytes) := b (base + int i))) base empty_bytes i"

text \<open>The second loop: the remaining bits, from the top down to \<open>empty_bytes + 1\<close>.\<close>

fun shift_bits :: "bmem \<Rightarrow> addr \<Rightarrow> nat \<Rightarrow> nat \<Rightarrow> nat \<Rightarrow> bmem" where
  "shift_bits b base empty_bytes part_bits 0 = b"
| "shift_bits b base empty_bytes part_bits (Suc i) =
     (if Suc i > empty_bytes then
        let b1 = b(base + int (Suc i) := push_bit part_bits (b (base + int (Suc i))));
            b2 = b1(base + int (Suc i) :=
                   b1 (base + int (Suc i)) OR drop_bit (8 - part_bits) (b1 (base + int i)))
        in shift_bits b2 base empty_bytes part_bits i
      else b)"

definition mem_shift_left :: "bmem \<Rightarrow> addr \<Rightarrow> int \<Rightarrow> int \<Rightarrow> bmem run" where
  "mem_shift_left b p len n =
     assert_run (p \<noteq> 0) (assert_run (len > 0) (assert_run (n > 0)
       (let empty_bytes = nat n div 8;
            part_bits = nat n mod 8
        in if n \<ge> len * 8 then Inr (bmem_set b p 0 (nat len))
           else
             let b1 = (if empty_bytes > 0
                       then bmem_set (shift_bytes b p empty_bytes (nat len - empty_bytes)) p 0 empty_bytes
                       else b);
                 b2 = shift_bits b1 p empty_bytes part_bits (nat len - 1)
             in Inr (b2(p + int empty_bytes := push_bit part_bits (b2 (p + int empty_bytes)))))))"

text \<open>An \<open>intptr_t\<close> read from memory, little endian.\<close>

definition read_intptr :: "bmem \<Rightarrow> addr \<Rightarrow> 64 word" where
  "read_intptr b p = foldr (\<lambda>i w. push_bit (8 * i) (ucast (b (p + int i))) OR w) [0..<8] 0"

definition mem_is_filled :: "bmem \<Rightarrow> addr \<Rightarrow> int \<Rightarrow> bool run" where
  "mem_is_filled b p len =
     assert_run (p \<noteq> 0) (assert_run (len > 0)
       (let nints = nat len div 8;
            nbytes = nat len mod 8
        in if \<exists>i \<in> set [0..<nints]. read_intptr b (p + 8 * int i) \<noteq> -1 then Inr False
           else
             let tmpbyte = p + 8 * int nints
             in Inr (\<not> (\<exists>i \<in> set [0..<nbytes]. b (tmpbyte + int i) \<noteq> 255))))"

definition mem_set_bit :: "bmem \<Rightarrow> addr \<Rightarrow> nat \<Rightarrow> int \<Rightarrow> bool \<Rightarrow> bmem run" where
  "mem_set_bit b p len n value =
     assert_run (p \<noteq> 0) (assert_run (n \<ge> 0) (assert_run (n < int len * 8)
       (let nbytes = nat n div 8;
            part_bits = nat n mod 8
        in if value
           then Inr (b(p + int nbytes := b (p + int nbytes) OR push_bit part_bits 1))
           else Inr (b(p + int nbytes := b (p + int nbytes) AND NOT (push_bit part_bits 1))))))"

text \<open>A \<open>for\<close> loop over \<open>0 \<le> i < n\<close> that leaves at the first \<open>i\<close> with a property.\<close>

definition first_below :: "(nat \<Rightarrow> bool) \<Rightarrow> nat \<Rightarrow> nat option" where
  "first_below P n = List.find P [0..<n]"

fun detect_bytes :: "bmem \<Rightarrow> addr \<Rightarrow> bool \<Rightarrow> nat list \<Rightarrow> int" where
  "detect_bytes b p zero [] = -1"
| "detect_bytes b p zero (i # is) =
     (let c = b (p + int i)
      in if zero then
           (if c = 255 then detect_bytes b p zero is
            else case first_below (\<lambda>j. \<not> bit c j) 8 of
                   Some j \<Rightarrow> int (i * 8 + j)
                 | None \<Rightarrow> detect_bytes b p zero is)
         else
           (if c = 0 then detect_bytes b p zero is
            else case first_below (\<lambda>j. bit c j) 8 of
                   Some j \<Rightarrow> int (i * 8 + j)
                 | None \<Rightarrow> detect_bytes b p zero is))"

definition mem_detect_bit :: "bmem \<Rightarrow> addr \<Rightarrow> int \<Rightarrow> bool \<Rightarrow> int run" where
  "mem_detect_bit b p len zero =
     assert_run (p \<noteq> 0) (assert_run (len > 0)
       (Inr (detect_bytes b p zero [0..<nat len])))"

section \<open>Bits of memory\<close>

definition mbit :: "bmem \<Rightarrow> addr \<Rightarrow> nat \<Rightarrow> bool" where
  "mbit b p k = bit (b (p + int (k div 8))) (k mod 8)"

lemma first_below_Some:
  "first_below P n = Some i \<longleftrightarrow> i < n \<and> P i \<and> (\<forall>j<i. \<not> P j)"
  by (auto simp: first_below_def find_Some_iff)

lemma first_below_None: "first_below P n = None \<longleftrightarrow> (\<forall>i<n. \<not> P i)"
  by (auto simp: first_below_def find_None_iff)

lemma byte_eqI: "(\<And>j. j < 8 \<Longrightarrow> bit (x::byte) j = bit y j) \<Longrightarrow> x = y"
  by (rule bit_word_eqI) simp

lemma bit_byte_255: "bit (255::byte) j \<longleftrightarrow> j < 8"
proof -
  have "(255::byte) = mask 8" by (simp add: mask_eq_exp_minus_1)
  then show ?thesis by (simp only: bit_mask_iff) auto
qed

lemma byte_full_iff: "(c::byte) = 255 \<longleftrightarrow> (\<forall>j<8. bit c j)"
proof
  show "c = 255 \<Longrightarrow> \<forall>j<8. bit c j" by (simp only: bit_byte_255) simp
  assume full: "\<forall>j<8. bit c j"
  show "c = 255"
  proof (rule byte_eqI)
    fix j :: nat assume "j < 8"
    then show "bit c j = bit (255::byte) j" using full by (simp only: bit_byte_255)
  qed
qed

lemma byte_zero_iff: "(c::byte) = 0 \<longleftrightarrow> (\<forall>j<8. \<not> bit c j)"
  by (auto intro: byte_eqI)

lemma mbit_byte: "j < 8 \<Longrightarrow> mbit b p (8 * i + j) = bit (b (p + int i)) j"
  by (simp add: mbit_def)

section \<open>Shifting\<close>

lemma shift_bytes_apply:
  "shift_bytes b base e n a =
     (if base + int e \<le> a \<and> a < base + int (n + e) then b (a - int e) else b a)"
  by (induction n arbitrary: b) auto

lemma shift_bits_apply:
  "shift_bits b base e part n a =
     (if base + int e < a \<and> a \<le> base + int n
      then push_bit part (b a) OR drop_bit (8 - part) (b (a - 1)) else b a)"
  by (induction n arbitrary: b) (auto simp: Let_def)

lemma mem_shift_left_bytes:
  assumes "p \<noteq> 0" and "0 < n" and "n < len * 8" and "nat n div 8 = e" and "nat n mod 8 = part"
  obtains b' where "mem_shift_left b p len n = Inr b'"
    and "\<And>a. a < p \<or> p + len \<le> a \<Longrightarrow> b' a = b a"
    and "\<And>j. j < e \<Longrightarrow> b' (p + int j) = 0"
    and "b' (p + int e) = push_bit part (b p)"
    and "\<And>j. e < j \<Longrightarrow> int j < len \<Longrightarrow> b' (p + int j) =
           push_bit part (b (p + int (j - e))) OR drop_bit (8 - part) (b (p + int (j - e - 1)))"
proof -
  let ?b1 = "\<lambda>a. if p \<le> a \<and> a < p + int e then 0
                 else if p + int e \<le> a \<and> a < p + len then b (a - int e) else b a"
  let ?b2 = "shift_bits ?b1 p e part (nat len - 1)"
  let ?b3 = "?b2(p + int e := push_bit part (?b2 (p + int e)))"
  have e: "int e < len" using assms by auto
  have "(if e > 0 then bmem_set (shift_bytes b p e (nat len - e)) p 0 e else b) = ?b1"
    using e by (intro ext) (simp add: bmem_set_def shift_bytes_apply)
  then have "mem_shift_left b p len n = Inr ?b3"
    using assms e by (simp add: mem_shift_left_def assert_run_def Let_def)
  then show ?thesis
  proof (rule that)
    fix a :: int assume "a < p \<or> p + len \<le> a"
    then show "?b3 a = b a" using e by (auto simp: shift_bits_apply)
  next
    fix j assume "j < e"
    then show "?b3 (p + int j) = 0" by (simp add: shift_bits_apply)
  next
    show "?b3 (p + int e) = push_bit part (b p)" using e by (simp add: shift_bits_apply)
  next
    fix j assume j: "e < j" "int j < len"
    moreover from j have "p + int j - 1 - int e = p + int (j - e - 1)"
      "p + int j - int e = p + int (j - e)"
      by auto
    ultimately show "?b3 (p + int j) =
        push_bit part (b (p + int (j - e))) OR drop_bit (8 - part) (b (p + int (j - e - 1)))"
      by (simp only: shift_bits_apply fun_upd_apply) auto
  qed
qed

lemma mem_shift_left_mbit:
  assumes "p \<noteq> 0" and "0 < len" and "0 < n"
  obtains b' where "mem_shift_left b p len n = Inr b'"
    and "\<And>a. a < p \<or> p + len \<le> a \<Longrightarrow> b' a = b a"
    and "\<And>k. int k < 8 * len \<Longrightarrow> mbit b' p k \<longleftrightarrow> nat n \<le> k \<and> mbit b p (k - nat n)"
proof (cases "n < len * 8")
  case False
  with assms have "mem_shift_left b p len n = Inr (bmem_set b p 0 (nat len))"
    by (simp add: mem_shift_left_def assert_run_def)
  then show ?thesis
  proof (rule that)
    fix k :: nat assume "int k < 8 * len"
    with False show "mbit (bmem_set b p 0 (nat len)) p k \<longleftrightarrow> nat n \<le> k \<and> mbit b p (k - nat n)"
      by (auto simp: mbit_def bmem_set_def)
  qed (use assms in \<open>auto simp: bmem_set_def\<close>)
next
  case True
  define e part where "e = nat n div 8" and "part = nat n mod 8"
  have n: "nat n = 8 * e + part" and part: "part < 8" by (simp_all add: e_def part_def)
  obtain b' where run: "mem_shift_left b p len n = Inr b'"
    and out: "\<And>a. a < p \<or> p + len \<le> a \<Longrightarrow> b' a = b a"
    and low: "\<And>j. j < e \<Longrightarrow> b' (p + int j) = 0"
    and mid: "b' (p + int e) = push_bit part (b p)"
    and high: "\<And>j. e < j \<Longrightarrow> int j < len \<Longrightarrow> b' (p + int j) =
           push_bit part (b (p + int (j - e))) OR drop_bit (8 - part) (b (p + int (j - e - 1)))"
    by (rule mem_shift_left_bytes [where b = b, OF assms(1,3) True e_def [symmetric] part_def [symmetric]])
      (rule that, assumption+)
  show ?thesis
  proof (rule that [OF run out])
    fix k :: nat assume k: "int k < 8 * len"
    define j i where "j = k div 8" and "i = k mod 8"
    have ki: "k = 8 * j + i" and i: "i < 8" by (simp_all add: j_def i_def)
    have lhs: "mbit b' p k = bit (b' (p + int j)) i" by (simp add: mbit_def j_def i_def)
    consider "j < e" | "j = e" | "e < j" by linarith
    then show "mbit b' p k \<longleftrightarrow> nat n \<le> k \<and> mbit b p (k - nat n)"
    proof cases
      case 1
      with i ki n have "k < nat n" by linarith
      with 1 show ?thesis by (simp add: lhs low)
    next
      case 2
      have "mbit b p (k - nat n) = bit (b p) (i - part)"
        using 2 ki n i mbit_byte [of "i - part" b p 0] by simp
      moreover have "nat n \<le> k \<longleftrightarrow> part \<le> i" using 2 ki n by auto
      ultimately show ?thesis using i by (simp add: lhs 2 mid bit_push_bit_iff)
    next
      case 3
      have jlen: "int j < len" using k ki by linarith
      show ?thesis
      proof (cases "part \<le> i")
        case True
        then have eq: "k - nat n = 8 * (j - e) + (i - part)" and "nat n \<le> k" using 3 ki n by auto
        moreover have "mbit b p (k - nat n) = bit (b (p + int (j - e))) (i - part)"
          unfolding eq by (rule mbit_byte) (use i in simp)
        moreover have "\<not> bit (drop_bit (8 - part) (b (p + int (j - e - 1)))) i"
          using True by (auto simp: bit_drop_bit_eq dest: bit_imp_le_length)
        ultimately show ?thesis
          using 3 i True jlen
          by (simp add: lhs high bit_or_iff bit_push_bit_iff)
      next
        case False
        then have eq: "k - nat n = 8 * (j - e - 1) + (i + 8 - part)" and "nat n \<le> k"
          and "i + 8 - part < 8"
          using 3 ki n part by auto
        moreover have "mbit b p (k - nat n) = bit (b (p + int (j - e - 1))) (i + 8 - part)"
          unfolding eq by (rule mbit_byte) fact
        ultimately show ?thesis
          using 3 i False jlen part
          by (simp add: lhs high bit_or_iff bit_push_bit_iff bit_drop_bit_eq add.commute)
      qed
    qed
  qed
qed

section \<open>Setting, testing and searching\<close>

definition bit_at :: "addr \<Rightarrow> nat \<Rightarrow> addr \<times> nat" where
  "bit_at p k = (p + int (k div 8), k mod 8)"

lemma bit_at_same: "bit_at p j = bit_at p k \<longleftrightarrow> j = k"
  by (auto simp: bit_at_def) (metis div_mult_mod_eq)

lemma bit_set_bits: "bit (c OR push_bit n 1 :: byte) j \<longleftrightarrow> bit c j \<or> (j = n \<and> n < 8)"
  by (auto simp: bit_or_iff bit_exp_iff dest: bit_imp_le_length)

lemma bit_clear_bits: "bit (c AND NOT (push_bit n 1) :: byte) j \<longleftrightarrow> bit c j \<and> j \<noteq> n"
  by (auto simp: bit_and_iff bit_not_iff bit_exp_iff dest: bit_imp_le_length)

text \<open>\<open>mem_set_bit\<close> changes one bit of the memory and no other.\<close>

lemma mem_set_bit_ok:
  assumes "p \<noteq> 0" and "0 \<le> n" and "n < int len * 8"
  obtains b' where "mem_set_bit b p len n v = Inr b'"
    and "\<And>q k. mbit b' q k = (if bit_at q k = bit_at p (nat n) then v else mbit b q k)"
    and "\<And>a. a \<noteq> p + int (nat n div 8) \<Longrightarrow> b' a = b a"
proof -
  let ?a = "p + int (nat n div 8)" and ?j = "nat n mod 8"
  let ?c = "if v then b ?a OR push_bit ?j 1 else b ?a AND NOT (push_bit ?j 1)"
  have "mem_set_bit b p len n v = Inr (b(?a := ?c))"
    using assms by (simp add: mem_set_bit_def assert_run_def Let_def)
  then show ?thesis
  proof (rule that)
    fix q k
    have "bit ?c i = (if i = ?j then v else bit (b ?a) i)" for i
      by (simp only: bit_set_bits bit_clear_bits split: if_split) auto
    then show "mbit (b(?a := ?c)) q k = (if bit_at q k = bit_at p (nat n) then v else mbit b q k)"
      by (auto simp: mbit_def bit_at_def)
  qed simp
qed

lemma mem_set_bit_bad: "int len * 8 \<le> n \<or> n < 0 \<Longrightarrow> mem_set_bit b p len n v = Inl Assert_failed"
  by (auto simp: mem_set_bit_def assert_run_def)

lemma find_append: "List.find P (xs @ ys) =
    (case List.find P xs of None \<Rightarrow> List.find P ys | Some x \<Rightarrow> Some x)"
  by (induction xs) auto

lemma find_map_nat: "List.find P (map f xs) = map_option f (List.find (\<lambda>x. P (f x)) xs)"
  by (induction xs) auto

lemma first_below_add:
  "first_below P (m + n) =
     (case first_below P m of None \<Rightarrow> map_option ((+) m) (first_below (\<lambda>k. P (m + k)) n)
      | Some j \<Rightarrow> Some j)"
proof -
  have "[m..<m + n] = map ((+) m) [0..<n]"
    by (rule nth_equalityI) simp_all
  then have "[0..<m + n] = [0..<m] @ map ((+) m) [0..<n]"
    by (simp only: upt_add_eq_append [of 0 m n, simplified])
  then show ?thesis
    by (simp add: first_below_def find_append find_map_nat cong: option.case_cong)
qed

lemma first_below_False [simp]: "first_below (\<lambda>_. False) n = None"
  by (simp add: first_below_None)

lemma first_below_cong:
  "(\<And>i. i < n \<Longrightarrow> P i = Q i) \<Longrightarrow> first_below P n = first_below Q n"
  unfolding first_below_def by (rule find_cong) auto

lemma detect_bytes_Cons:
  "detect_bytes b p zero (i # is) =
     (case first_below (\<lambda>j. bit (b (p + int i)) j \<noteq> zero) 8 of
        Some j \<Rightarrow> int (i * 8 + j) | None \<Rightarrow> detect_bytes b p zero is)"
proof -
  let ?c = "b (p + int i)"
  have "first_below (\<lambda>j. \<not> bit ?c j) 8 = None \<longleftrightarrow> ?c = 255"
    "first_below (bit ?c) 8 = None \<longleftrightarrow> ?c = 0"
    by (simp_all add: first_below_None byte_full_iff byte_zero_iff)
  then show ?thesis by (cases zero) (auto simp: Let_def split: option.splits)
qed

lemma detect_bytes_spec:
  "detect_bytes b p zero [i0..<i0 + n] =
     (case first_below (\<lambda>k. mbit b p (8 * i0 + k) \<noteq> zero) (8 * n) of
        None \<Rightarrow> -1 | Some k \<Rightarrow> int (8 * i0 + k))"
proof (induction n arbitrary: i0)
  case 0
  then show ?case by (simp add: first_below_def)
next
  case (Suc n)
  have split: "[i0..<i0 + Suc n] = i0 # [Suc i0..<Suc i0 + n]"
    by (simp add: upt_conv_Cons)
  have byte: "first_below (\<lambda>j. bit (b (p + int i0)) j \<noteq> zero) 8
      = first_below (\<lambda>k. mbit b p (8 * i0 + k) \<noteq> zero) 8"
    by (rule first_below_cong) (simp add: mbit_byte)
  have len: "8 * Suc n = 8 + 8 * n" by simp
  have idx: "8 * i0 + (8 + k) = 8 * Suc i0 + k" for k by simp
  show ?case
    unfolding split detect_bytes_Cons byte Suc.IH len first_below_add idx
    by (auto split: option.splits)
qed

text \<open>\<open>mem_detect_bit\<close> finds the first bit with the wanted value, or -1.\<close>

lemma mem_detect_bit_spec:
  assumes "p \<noteq> 0" and "0 < len"
  shows "mem_detect_bit b p len zero =
    Inr (case first_below (\<lambda>k. mbit b p k \<noteq> zero) (8 * nat len) of None \<Rightarrow> -1 | Some k \<Rightarrow> int k)"
proof -
  have "detect_bytes b p zero [0..<nat len] =
      (case first_below (\<lambda>k. mbit b p k \<noteq> zero) (8 * nat len) of None \<Rightarrow> -1 | Some k \<Rightarrow> int k)"
    using detect_bytes_spec [of b p zero 0 "nat len"] by (simp only: add_0 mult_0_right)
  with assms show ?thesis by (simp add: mem_detect_bit_def assert_run_def)
qed

text \<open>\<open>mem_is_filled\<close>: an \<open>intptr_t\<close> of ones is eight bytes of ones.\<close>

lemma bit_read_intptr:
  assumes "i < 8" and "j < 8"
  shows "bit (read_intptr b p) (8 * i + j) = bit (b (p + int i)) j"
proof -
  have *: "bit (foldr (\<lambda>i w. push_bit (8 * i) (ucast (b (p + int i))) OR w) xs (0::64 word)) (8 * i + j)
      \<longleftrightarrow> i \<in> set xs \<and> bit (b (p + int i)) j" if "set xs \<subseteq> {..<8}" for xs
    using that
  proof (induction xs)
    case (Cons x xs)
    have "bit (push_bit (8 * x) (ucast (b (p + int x))) :: 64 word) (8 * i + j)
        \<longleftrightarrow> x = i \<and> bit (b (p + int i)) j"
    proof (cases "x = i")
      case False
      then have "8 * x \<le> 8 * i + j \<Longrightarrow> 8 \<le> 8 * i + j - 8 * x" using assms by linarith
      then show ?thesis using False
        by (auto simp: bit_push_bit_iff bit_ucast_iff dest: bit_imp_le_length)
    qed (use assms in \<open>simp add: bit_push_bit_iff bit_ucast_iff\<close>)
    with Cons show ?case by (auto simp: bit_or_iff)
  qed simp
  have "set [0..<8] \<subseteq> {..<8::nat}" by auto
  from * [OF this] assms show ?thesis by (simp add: read_intptr_def)
qed

lemma read_intptr_ones: "read_intptr b p = -1 \<longleftrightarrow> (\<forall>i<8. b (p + int i) = 255)"
proof
  assume "read_intptr b p = -1"
  then have "bit (b (p + int i)) j" if "i < 8" "j < 8" for i j
    using bit_read_intptr [OF that, of b p] that by simp
  then show "\<forall>i<8. b (p + int i) = 255" by (auto simp only: byte_full_iff)
next
  assume full: "\<forall>i<8. b (p + int i) = 255"
  show "read_intptr b p = -1"
  proof (rule bit_word_eqI)
    fix n assume n: "n < LENGTH(64)"
    then have "bit (b (p + int (n div 8))) (n mod 8)"
      using full byte_full_iff [of "b (p + int (n div 8))"] by simp
    then show "bit (read_intptr b p) n = bit (-1 :: 64 word) n"
      using n bit_read_intptr [of "n div 8" "n mod 8" b p] by simp
  qed
qed

lemma mem_is_filled_spec:
  assumes "p \<noteq> 0" and "0 < len"
  shows "mem_is_filled b p len = Inr (\<forall>i < nat len. b (p + int i) = 255)"
proof -
  let ?q = "nat len div 8" and ?r = "nat len mod 8"
  have split: "(\<forall>i < nat len. b (p + int i) = 255) \<longleftrightarrow>
      (\<forall>k<?q. \<forall>i<8. b (p + 8 * int k + int i) = 255) \<and>
      (\<forall>i<?r. b (p + 8 * int ?q + int i) = 255)"
  proof safe
    fix i assume words: "\<forall>k<?q. \<forall>i<8. b (p + 8 * int k + int i) = 255"
      and rest: "\<forall>i<?r. b (p + 8 * int ?q + int i) = 255" and "i < nat len"
    have i: "8 * int (i div 8) + int (i mod 8) = int i" by presburger
    show "b (p + int i) = 255"
    proof (cases "i div 8 < ?q")
      case True
      with words have "b (p + 8 * int (i div 8) + int (i mod 8)) = 255" by simp
      with i show ?thesis by (simp add: add.assoc)
    next
      case False
      moreover have "i div 8 \<le> ?q" using \<open>i < nat len\<close> by (simp add: div_le_mono)
      ultimately have "i div 8 = ?q" by simp
      moreover from this have "i mod 8 < ?r"
        using \<open>i < nat len\<close> mult_div_mod_eq [of 8 i] mult_div_mod_eq [of 8 "nat len"] by linarith
      ultimately      have "b (p + 8 * int (i div 8) + int (i mod 8)) = 255" using rest by metis
      with i show ?thesis by (simp add: add.assoc)
    qed
  next
    fix k i :: nat assume "k < ?q" "i < 8" "\<forall>i < nat len. b (p + int i) = 255"
    moreover from this(1,2) have "8 * k + i < nat len" by linarith
    ultimately have "b (p + int (8 * k + i)) = 255" by blast
    then show "b (p + 8 * int k + int i) = 255" by (simp add: add.assoc)
  next
    fix i assume "i < ?r" "\<forall>i < nat len. b (p + int i) = 255"
    moreover from this(1) have "8 * ?q + i < nat len"
      using mult_div_mod_eq [of 8 "nat len"] by linarith
    ultimately have "b (p + int (8 * ?q + i)) = 255" by blast
    then show "b (p + 8 * int ?q + int i) = 255" by (simp add: add.assoc)
  qed
  have words: "(\<exists>i \<in> set [0..<?q]. read_intptr b (p + 8 * int i) \<noteq> -1) \<longleftrightarrow>
      \<not> (\<forall>k<?q. \<forall>i<8. b (p + 8 * int k + int i) = 255)"
    by (auto simp: read_intptr_ones)
  have "mem_is_filled b p len =
      Inr ((\<forall>k<?q. \<forall>i<8. b (p + 8 * int k + int i) = 255) \<and>
           (\<forall>i<?r. b (p + 8 * int ?q + int i) = 255))"
    unfolding mem_is_filled_def assert_run_def Let_def words using assms by auto
  then show ?thesis by (simp only: split)
qed

section \<open>Stores of bits\<close>

text \<open>Raw memory in which bits are set with \<open>mem_set_bit\<close> is a store of bits.\<close>

definition raw_set :: "addr \<Rightarrow> nat \<Rightarrow> bmem \<Rightarrow> nat \<Rightarrow> bmem" where
  "raw_set p len b k = (case mem_set_bit b p len (int k) True of Inl _ \<Rightarrow> b | Inr b' \<Rightarrow> b')"

lemma raw_set_bit:
  assumes "p \<noteq> 0" and "k < 8 * len"
  shows "mbit (raw_set p len b k) p j \<longleftrightarrow> j = k \<or> mbit b p j"
proof -
  obtain b' where "mem_set_bit b p len (int k) True = Inr b'"
    "\<And>q j. mbit b' q j = (if bit_at q j = bit_at p (nat (int k)) then True else mbit b q j)"
    using mem_set_bit_ok [of p "int k" len b True] assms by (auto simp only: of_nat_less_iff) force
  then show ?thesis by (simp add: raw_set_def bit_at_same)
qed

interpretation raw_bits: bit_store "\<lambda>b. p \<noteq> 0" "\<lambda>b k. k < 8 * len" "raw_set p len" "\<lambda>b. mbit b p"
  for p len
  by unfold_locales (simp_all add: raw_set_bit)

section \<open>Properties\<close>

text \<open>C27. \<open>mem_shift_left\<close> shifts the memory as one long number, byte after byte, least
  significant bit first; bits shifted in are zero and nothing outside the range changes.\<close>

theorem mem_shift_left_shifts:
  assumes "p \<noteq> 0" and "0 < len" and "0 < n"
  shows "\<exists>b'. mem_shift_left b p len n = Inr b'
    \<and> (\<forall>a. a < p \<or> p + len \<le> a \<longrightarrow> b' a = b a)
    \<and> (\<forall>k. int k < 8 * len \<longrightarrow> (mbit b' p k \<longleftrightarrow> nat n \<le> k \<and> mbit b p (k - nat n)))"
  by (rule mem_shift_left_mbit [OF assms, of b]) blast

theorem mem_shift_left_shifts_witness:
  "\<exists>b'. mem_shift_left (\<lambda>_. 1) 16 3 9 = Inr b' \<and> mbit b' 16 9 \<and> \<not> mbit b' 16 8 \<and> b' 19 = 1"
proof -
  from mem_shift_left_shifts [of 16 3 9 "\<lambda>_. 1"] obtain b' where
    "mem_shift_left (\<lambda>_. 1) 16 3 9 = Inr b'" "\<forall>a. a < 16 \<or> 16 + 3 \<le> a \<longrightarrow> b' a = 1"
    and bits: "\<forall>k. int k < 8 * 3 \<longrightarrow> (mbit b' 16 k \<longleftrightarrow> nat 9 \<le> k \<and> mbit (\<lambda>_. 1) 16 (k - nat 9))"
    by auto
  then show ?thesis using bits [rule_format, of 9] bits [rule_format, of 8]
    by (intro exI [of _ b']) (simp add: mbit_def)
qed

lemma mem_queries_filled:
  assumes "p \<noteq> 0" and "0 < len"
  shows "mem_is_filled b p len = Inr (\<forall>k < 8 * nat len. mbit b p k)"
proof -
  have "(\<forall>i < nat len. b (p + int i) = 255) \<longleftrightarrow> (\<forall>k < 8 * nat len. mbit b p k)"
  proof (intro iffI allI impI)
    fix k assume "\<forall>i < nat len. b (p + int i) = 255" "k < 8 * nat len"
    moreover from this(2) have "k div 8 < nat len" by linarith
    ultimately show "mbit b p k"
      using byte_full_iff [of "b (p + int (k div 8))"] by (simp add: mbit_def)
  next
    fix i assume bits: "\<forall>k < 8 * nat len. mbit b p k" and "i < nat len"
    then have "bit (b (p + int i)) j" if "j < 8" for j
      using mbit_byte [OF that, of b p i] bits that by auto
    then show "b (p + int i) = 255" by (simp add: byte_full_iff)
  qed
  then show ?thesis
    unfolding mem_is_filled_spec [OF assms] by simp
qed

text \<open>\<open>mem_detect_bit\<close> returns the number of the first 0 bit (or 1 bit) of the memory, or
  -1 when there is none, and \<open>mem_is_filled\<close>, which compares whole words first, tells whether
  every byte is \<open>0xFF\<close>.\<close>

theorem mem_queries_correct:
  assumes "p \<noteq> 0" and "0 < len"
  shows "mem_is_filled b p len = Inr (\<forall>k < 8 * nat len. mbit b p k)
    \<and> (\<exists>r. mem_detect_bit b p len zero = Inr r
        \<and> (if \<forall>k < 8 * nat len. mbit b p k = zero then r = -1
           else 0 \<le> r \<and> r < 8 * len \<and> mbit b p (nat r) \<noteq> zero
             \<and> (\<forall>k < nat r. mbit b p k = zero)))"
  unfolding mem_queries_filled [OF assms] mem_detect_bit_spec [OF assms]
  by (auto simp: first_below_None first_below_Some split: option.splits)

theorem mem_queries_correct_witness:
  "mem_is_filled (\<lambda>_. 255) 16 13 = Inr True \<and> (\<exists>r. mem_detect_bit (\<lambda>_. 0) 16 13 False = Inr r \<and> r = -1)"
proof -
  have "mbit (\<lambda>_. 255) 16 k" for k by (simp only: mbit_def bit_byte_255 mod_less_divisor)
  then show ?thesis
    using mem_queries_correct [of 16 13 "\<lambda>_. 255" False] mem_queries_correct [of 16 13 "\<lambda>_. 0" False]
    by (auto simp: mbit_def [of "\<lambda>_. 0"])
qed

text \<open>In memory that starts out zeroed, exactly the bits set with \<open>mem_set_bit\<close> are set, and \<open>mem_is_filled\<close>
  says whether they are all.\<close>

theorem mem_bits_hold_set:
  assumes "p \<noteq> 0" and "0 < len" and ks: "\<forall>k \<in> set ks. k < 8 * len" and zero: "\<forall>k < 8 * len. \<not> mbit b p k"
  shows "(\<forall>l < 8 * len. mbit (foldl (raw_set p len) b ks) p l \<longleftrightarrow> l \<in> set ks)
    \<and> mem_is_filled (foldl (raw_set p len) b ks) p (int len) = Inr ({..<8 * len} \<subseteq> set ks)"
proof -
  have bits: "mbit (foldl (raw_set p len) b ks) p l \<longleftrightarrow> l \<in> set ks" if "l < 8 * len" for l
    using raw_bits.set_all [of p ks len l b] assms(1) ks zero that by auto
  then show ?thesis
    using mem_queries_filled [of p "int len" "foldl (raw_set p len) b ks"] assms(1,2) by (auto simp: subset_iff)
qed

theorem mem_bits_hold_set_witness:
  "mem_is_filled (foldl (raw_set 16 1) (\<lambda>_. 0) [0..<8]) 16 1 = Inr True"
proof -
  have "\<forall>k \<in> set [0..<8]. k < 8 * (1 :: nat)" "\<forall>k < 8 * (1 :: nat). \<not> mbit (\<lambda>_. 0) 16 k" by (auto simp: mbit_def)
  from mem_bits_hold_set [OF _ _ this] show ?thesis by (simp add: atLeast0LessThan)
qed

end
