(* ===== verification/Slub.thy ===== *)
theory Slub
  imports MemBits
begin

text \<open>
  The block allocator of \<open>src/slub.c\<close>: a region of memory starts with a header page (the
  \<open>slub_t\<close> struct, one ownership bitmap for all blocks, one per object type, and one bit per
  object and block) and is followed by blocks of \<open>BLOCK_SIZE\<close> bytes.

  The struct at address \<open>p\<close> is the record \<open>slub_t\<close>; the bitmaps live in byte memory at the
  addresses the struct holds.  The static table \<open>slub_objs_shift\<close> and \<open>obj_type_count\<close> are
  the record \<open>slub_env\<close>.  A result that the code leaves uninitialised is \<open>None\<close>.
\<close>

unbundle bit_operations_syntax

section \<open>The code\<close>

definition BLOCKS_MAX :: nat where "BLOCKS_MAX = 32"
definition BLOCK_SIZE :: nat where "BLOCK_SIZE = 4096"
definition SLUB_MAGIC :: int where "SLUB_MAGIC = 0xE78F8A"

text \<open>The entries \<open>{shift, occupy}\<close>, up to and including the sentinel.\<close>

type_synonym obj_type = "nat \<times> nat"

definition slub_objs_shift :: "obj_type list" where
  "slub_objs_shift =
     [(3, 0), (4, 0), (5, 0), (6, 0), (7, 0), (8, 0), (9, 0), (10, 0), (11, 0), (0, 0)]"

record slub_env =
  objs :: "obj_type list"
  obj_type_count :: nat

definition slub_env_init :: slub_env where
  "slub_env_init = \<lparr>objs = slub_objs_shift, obj_type_count = 0\<rparr>"

fun resolv_loop :: "obj_type list \<Rightarrow> nat \<Rightarrow> obj_type list \<times> nat" where
  "resolv_loop [] count = ([], count)"
| "resolv_loop ((shift, occ) # ts) count =
     (if shift = 0 then ((shift, occ) # ts, count)
      else let obj_size = 2 ^ shift;
               rest = resolv_loop ts (count + 1)
           in ((shift, BLOCK_SIZE div obj_size) # fst rest, snd rest))"

definition RESOLV_OCCUPY :: "slub_env \<Rightarrow> slub_env" where
  "RESOLV_OCCUPY env =
     (let r = resolv_loop (objs env) 0 in \<lparr>objs = fst r, obj_type_count = snd r\<rparr>)"

record slub_t =
  magic_no :: int
  nblocks :: nat
  bitmap :: addr
  bitmap_size :: nat
  usemap :: addr
  usemap_size :: nat
  block :: addr
  self :: addr

definition sizeof_slub_t :: int where "sizeof_slub_t = 64"

definition map_bytes :: "obj_type \<Rightarrow> nat" where
  "map_bytes ty = (snd ty + 7) div 8"

fun format_types :: "bmem \<Rightarrow> addr \<Rightarrow> nat \<Rightarrow> obj_type list \<Rightarrow> bmem run" where
  "format_types b row offset [] = Inr b"
| "format_types b row offset (ty # tys) =
     (let occupy_len = map_bytes ty;
          base = row + int offset
      in bind_run (mem_shift_left b base (int occupy_len) (int (snd ty)))
           (\<lambda>b1. format_types b1 row (offset + occupy_len) tys))"

fun format_blocks :: "bmem \<Rightarrow> addr \<Rightarrow> nat \<Rightarrow> obj_type list \<Rightarrow> nat list \<Rightarrow> bmem run" where
  "format_blocks b um um_size tys [] = Inr b"
| "format_blocks b um um_size tys (i # is) =
     bind_run (format_types b (um + int (um_size * i)) 0 tys)
       (\<lambda>b1. format_blocks b1 um um_size tys is)"

definition slub_header :: "slub_env \<Rightarrow> addr \<Rightarrow> nat \<Rightarrow> slub_t" where
  "slub_header env p n =
     (let bm = p + sizeof_slub_t;
          bm_size = (n + 7) div 8;
          um = bm + int (bm_size * (obj_type_count env + 1));
          um_size = sum_list (map map_bytes (take (obj_type_count env) (objs env)))
      in \<lparr>magic_no = SLUB_MAGIC, nblocks = n, bitmap = bm, bitmap_size = bm_size,
          usemap = um, usemap_size = um_size, block = p + int BLOCK_SIZE, self = p\<rparr>)"

definition slub_format ::
    "slub_env \<Rightarrow> bmem \<Rightarrow> addr \<Rightarrow> int \<Rightarrow> (int option \<times> slub_env \<times> slub_t option \<times> bmem) run" where
  "slub_format env b p sz =
     assert_run (p \<noteq> 0) (assert_run (sz > 0)
       (if sz - int BLOCK_SIZE < int BLOCK_SIZE then Inr (Some (-1), env, None, b)
        else
          let n0 = nat (sz div int BLOCK_SIZE);
              n = (if n0 \<ge> BLOCKS_MAX then BLOCKS_MAX - 1 else n0);
              env1 = RESOLV_OCCUPY env;
              slb = slub_header env1 p n
          in assert_run (bitmap_size slb > 0) (assert_run (usemap_size slb > 0)
            (let part_bits = nblocks slb mod 8;
                 b1 = bmem_set b (bitmap slb) 0 (bitmap_size slb * (obj_type_count env1 + 1));
                 b2 = b1(bitmap slb + int (bitmap_size slb) - 1 := push_bit part_bits (-1));
                 b3 = bmem_set b2 (usemap slb) (-1) (usemap_size slb * nblocks slb)
             in bind_run (format_blocks b3 (usemap slb) (usemap_size slb)
                    (take (obj_type_count env1) (objs env1)) [0..<nblocks slb])
                  (\<lambda>b4. Inr (None, env1, Some slb, b4))))))"

definition type_bitmap :: "slub_t \<Rightarrow> nat \<Rightarrow> addr" where
  "type_bitmap slb ty = bitmap slb + int (bitmap_size slb * (ty + 1))"

definition alloc_index_from_top_bitmap :: "slub_t \<Rightarrow> bmem \<Rightarrow> nat \<Rightarrow> (int \<times> bmem) run" where
  "alloc_index_from_top_bitmap slb b ty =
     (let top_bitmap = bitmap slb
      in case first_below (\<lambda>i. b (top_bitmap + int i) \<noteq> 255) (bitmap_size slb) of
           None \<Rightarrow> Inr (-1, b)
         | Some i \<Rightarrow>
             (case first_below (\<lambda>j. \<not> bit (b (top_bitmap + int i)) j) 8 of
                None \<Rightarrow> Inr (-1, b)
              | Some j \<Rightarrow>
                  let b1 = b(top_bitmap + int i := b (top_bitmap + int i) OR push_bit j 1);
                      rslt = int (i * 8 + j)
                  in bind_run (mem_set_bit b1 (type_bitmap slb ty) (bitmap_size slb) rslt True)
                       (\<lambda>b2. Inr (rslt, b2))))"

definition usemap_offset :: "slub_env \<Rightarrow> nat \<Rightarrow> nat" where
  "usemap_offset env ty = sum_list (map map_bytes (take ty (objs env)))"

definition alloc_index_from_usemap :: "slub_env \<Rightarrow> nat \<Rightarrow> bmem \<Rightarrow> addr \<Rightarrow> int \<times> bmem" where
  "alloc_index_from_usemap env ty b um =
     (let content_size = map_bytes (objs env ! ty);
          base = um + int (usemap_offset env ty)
      in case first_below (\<lambda>i. b (base + int i) \<noteq> 255) content_size of
           None \<Rightarrow> (-1, b)
         | Some i \<Rightarrow>
             (case first_below (\<lambda>j. \<not> bit (b (base + int i)) j) 8 of
                None \<Rightarrow> (-1, b)
              | Some j \<Rightarrow>
                  (int (i * 8 + j),
                   b(base + int i := b (base + int i) OR push_bit j 1))))"

text \<open>The inner loop of \<open>slub_alloc_from_existed\<close>, over the bits \<open>j\<close> of byte \<open>i\<close>.\<close>

fun scan_blocks :: "slub_env \<Rightarrow> slub_t \<Rightarrow> bmem \<Rightarrow> nat \<Rightarrow> nat \<Rightarrow> nat list \<Rightarrow> addr \<times> bmem" where
  "scan_blocks env slb b ty i [] = (0, b)"
| "scan_blocks env slb b ty i (j # js) =
     (if \<not> bit (b (type_bitmap slb ty + int i)) j then scan_blocks env slb b ty i js
      else
        let um = usemap slb + int ((i * 8 + j) * usemap_size slb);
            r = alloc_index_from_usemap env ty b um;
            type_size = 2 ^ fst (objs env ! ty)
        in if fst r \<noteq> -1 then
             (let block_ptr = block slb + int ((i * 8 + j) * BLOCK_SIZE)
              in (block_ptr + fst r * type_size, snd r))
           else scan_blocks env slb (snd r) ty i js)"

definition slub_alloc_from_existed :: "slub_env \<Rightarrow> slub_t \<Rightarrow> bmem \<Rightarrow> nat \<Rightarrow> addr \<times> bmem" where
  "slub_alloc_from_existed env slb b ty =
     (case first_below (\<lambda>i. b (type_bitmap slb ty + int i) \<noteq> 0) (bitmap_size slb) of
        None \<Rightarrow> (0, b)
      | Some i \<Rightarrow> scan_blocks env slb b ty i [0..<8])"

fun find_type :: "obj_type list \<Rightarrow> nat \<Rightarrow> int \<Rightarrow> int" where
  "find_type [] i obj_size = -1"
| "find_type ((shift, occ) # ts) i obj_size =
     (if shift = 0 then -1
      else if obj_size \<le> 2 ^ shift then int i
      else find_type ts (i + 1) obj_size)"

definition slub_alloc :: "slub_env \<Rightarrow> slub_t \<Rightarrow> bmem \<Rightarrow> addr \<Rightarrow> int \<Rightarrow> (addr \<times> bmem) run" where
  "slub_alloc env slb b p obj_size =
     assert_run (p \<noteq> 0) (assert_run (obj_size > 0) (assert_run (magic_no slb = SLUB_MAGIC)
       (let ty = find_type (objs env) 0 obj_size
        in assert_run (ty \<noteq> -1)
          (let r = slub_alloc_from_existed env slb b (nat ty)
           in if fst r \<noteq> 0 then Inr r
              else bind_run (alloc_index_from_top_bitmap slb (snd r) (nat ty)) (\<lambda>(block_index, b1).
                if block_index = -1 then Inr (0, b1)
                else
                  let r2 = slub_alloc_from_existed env slb b1 (nat ty)
                  in assert_run (fst r2 \<noteq> 0) (Inr r2))))))"

definition slub_free :: "bmem \<Rightarrow> addr \<Rightarrow> addr \<Rightarrow> int \<Rightarrow> bmem" where
  "slub_free b p obj obj_size = b"

section \<open>The table of object types\<close>

definition slub_env_ready :: slub_env where
  "slub_env_ready =
     \<lparr>objs = [(3, 512), (4, 256), (5, 128), (6, 64), (7, 32), (8, 16), (9, 8), (10, 4), (11, 2), (0, 0)],
      obj_type_count = 9\<rparr>"

lemma RESOLV_OCCUPY_init: "RESOLV_OCCUPY slub_env_init = slub_env_ready"
  by (simp add: RESOLV_OCCUPY_def slub_env_init_def slub_objs_shift_def slub_env_ready_def
      BLOCK_SIZE_def Let_def)

lemma RESOLV_OCCUPY_ready: "RESOLV_OCCUPY slub_env_ready = slub_env_ready"
  by (simp add: RESOLV_OCCUPY_def slub_env_ready_def BLOCK_SIZE_def Let_def)

definition occ :: "nat \<Rightarrow> nat" where "occ t = snd (objs slub_env_ready ! t)"
definition ulen :: "nat \<Rightarrow> nat" where "ulen t = map_bytes (objs slub_env_ready ! t)"
definition uoff :: "nat \<Rightarrow> nat" where "uoff t = usemap_offset slub_env_ready t"

lemma type_cases:
  assumes "t < (9::nat)"
  obtains "t = 0" | "t = 1" | "t = 2" | "t = 3" | "t = 4" | "t = 5" | "t = 6" | "t = 7" | "t = 8"
  using assms by linarith

lemma type_table:
  assumes "t < 9"
  shows "fst (objs slub_env_ready ! t) = t + 3" and "occ t * 2 ^ (t + 3) = 4096" and "2 \<le> occ t"
    and "occ t \<le> 8 * ulen t" and "uoff t + ulen t \<le> 129" and "0 < ulen t"
    and "uoff (Suc t) = uoff t + ulen t"
  by (cases rule: type_cases [OF assms]; simp add: occ_def ulen_def uoff_def usemap_offset_def
      map_bytes_def slub_env_ready_def)+

lemma uoff_step: "t < t' \<Longrightarrow> t' < 9 \<Longrightarrow> uoff t + ulen t \<le> uoff t'"
proof (induction t')
  case (Suc t')
  then show ?case using type_table(7) [of t'] type_table(7) [of t] by (cases "t = t'") auto
qed simp

lemma slub_header_ready:
  "slub_header slub_env_ready p n =
     \<lparr>magic_no = SLUB_MAGIC, nblocks = n, bitmap = p + 64, bitmap_size = (n + 7) div 8,
      usemap = p + 64 + int ((n + 7) div 8 * 10), usemap_size = 129, block = p + 4096, self = p\<rparr>"
  by (simp add: slub_header_def slub_env_ready_def sizeof_slub_t_def map_bytes_def BLOCK_SIZE_def
      Let_def)

section \<open>Searching and setting bits\<close>

lemma first_clear_bit:
  "first_below (\<lambda>k. \<not> mbit b base k) (8 * m) =
     (case first_below (\<lambda>i. b (base + int i) \<noteq> 255) m of
        None \<Rightarrow> None
      | Some i \<Rightarrow> map_option (\<lambda>j. i * 8 + j) (first_below (\<lambda>j. \<not> bit (b (base + int i)) j) 8))"
proof (cases "first_below (\<lambda>i. b (base + int i) \<noteq> 255) m")
  case None
  then have "mbit b base k" if "k < 8 * m" for k
    using that byte_full_iff [of "b (base + int (k div 8))"]
    by (auto simp: mbit_def first_below_None)
  then have "first_below (\<lambda>k. \<not> mbit b base k) (8 * m) = None"
    by (simp add: first_below_None)
  with None show ?thesis by simp
next
  case (Some i)
  then have i: "i < m" "b (base + int i) \<noteq> 255" "\<And>i'. i' < i \<Longrightarrow> b (base + int i') = 255"
    by (auto simp: first_below_Some)
  have "first_below (\<lambda>j. \<not> bit (b (base + int i)) j) 8 \<noteq> None"
    using i(2) by (simp add: first_below_None byte_full_iff)
  then obtain j where fj: "first_below (\<lambda>j. \<not> bit (b (base + int i)) j) 8 = Some j" by blast
  then have j: "j < 8" "\<not> bit (b (base + int i)) j" "\<And>j'. j' < j \<Longrightarrow> bit (b (base + int i)) j'"
    by (auto simp: first_below_Some)
  have "mbit b base k" if k: "k < 8 * i + j" for k
  proof (cases "k div 8 < i")
    case True
    then have "b (base + int (k div 8)) = 255" by (rule i(3))
    then show ?thesis using byte_full_iff [of "b (base + int (k div 8))"] by (simp add: mbit_def)
  next
    case False
    then have "k div 8 = i" using k j(1) by linarith
    moreover from this have "k mod 8 < j" using k mult_div_mod_eq [of 8 k] by linarith
    ultimately show ?thesis using j(3) by (simp add: mbit_def)
  qed
  moreover have "\<not> mbit b base (8 * i + j)" using mbit_byte [OF j(1), of b base i] j(2) by simp
  ultimately have "first_below (\<lambda>k. \<not> mbit b base k) (8 * m) = Some (8 * i + j)"
    using i(1) j(1) by (auto simp: first_below_Some)
  with Some fj show ?thesis by (simp add: mult.commute)
qed

lemma mbit_set:
  assumes "j < 8"
  shows "mbit (b(a := b a OR push_bit j 1)) q k \<longleftrightarrow> bit_at q k = (a, j) \<or> mbit b q k"
  using assms by (auto simp: mbit_def bit_at_def bit_set_bits simp del: push_bit_of_1)

lemma bit_at_byte: "j < 8 \<Longrightarrow> bit_at p (i * 8 + j) = (p + int i, j)"
  by (simp add: bit_at_def)

lemma alloc_index_from_usemap_spec:
  "alloc_index_from_usemap slub_env_ready t b um =
     (case first_below (\<lambda>x. \<not> mbit b (um + int (uoff t)) x) (8 * ulen t) of
        None \<Rightarrow> (-1, b)
      | Some x \<Rightarrow> (int x, b(um + int (uoff t) + int (x div 8) :=
          b (um + int (uoff t) + int (x div 8)) OR push_bit (x mod 8) 1)))"
  unfolding alloc_index_from_usemap_def Let_def first_clear_bit uoff_def [symmetric]
    ulen_def [symmetric]
  by (auto split: option.split dest!: first_below_Some [THEN iffD1] simp del: push_bit_of_1)

lemma alloc_index_from_top_bitmap_spec:
  assumes "type_bitmap slb t \<noteq> 0"
  shows "case first_below (\<lambda>k. \<not> mbit b (bitmap slb) k) (8 * bitmap_size slb) of
      None \<Rightarrow> alloc_index_from_top_bitmap slb b t = Inr (-1, b)
    | Some k \<Rightarrow> \<exists>b'. alloc_index_from_top_bitmap slb b t = Inr (int k, b')
        \<and> (\<forall>q m. mbit b' q m \<longleftrightarrow> bit_at q m = bit_at (bitmap slb) k
               \<or> bit_at q m = bit_at (type_bitmap slb t) k \<or> mbit b q m)"
proof (cases "first_below (\<lambda>k. \<not> mbit b (bitmap slb) k) (8 * bitmap_size slb)")
  case None
  then show ?thesis
    by (auto simp: alloc_index_from_top_bitmap_def first_clear_bit split: option.splits)
next
  case (Some k)
  then have "k < 8 * bitmap_size slb" by (simp add: first_below_Some)
  from Some obtain i j where i: "first_below (\<lambda>i. b (bitmap slb + int i) \<noteq> 255) (bitmap_size slb) = Some i"
    and j: "first_below (\<lambda>j. \<not> bit (b (bitmap slb + int i)) j) 8 = Some j" and k: "k = i * 8 + j"
    by (auto simp: first_clear_bit split: option.splits)
  have j8: "j < 8" using j by (simp add: first_below_Some)
  let ?b1 = "b(bitmap slb + int i := b (bitmap slb + int i) OR push_bit j 1)"
  obtain b' where set: "mem_set_bit ?b1 (type_bitmap slb t) (bitmap_size slb) (int k) True = Inr b'"
    and bits: "\<And>q m. mbit b' q m =
      (if bit_at q m = bit_at (type_bitmap slb t) (nat (int k)) then True else mbit ?b1 q m)"
    by (rule mem_set_bit_ok [of "type_bitmap slb t" "int k" "bitmap_size slb" ?b1 True])
      (use assms \<open>k < 8 * bitmap_size slb\<close> in auto)
  have "alloc_index_from_top_bitmap slb b t = Inr (int k, b')"
    using i j set by (simp add: alloc_index_from_top_bitmap_def k del: push_bit_of_1 of_nat_add)
  moreover have "mbit b' q m \<longleftrightarrow> bit_at q m = bit_at (bitmap slb) k
               \<or> bit_at q m = bit_at (type_bitmap slb t) k \<or> mbit b q m" for q m
    by (simp only: bits mbit_set [OF j8] k bit_at_byte [OF j8] nat_int split: if_split) auto
  ultimately show ?thesis using Some by simp
qed

section \<open>The bits of a formatted region\<close>

definition um_base :: "slub_t \<Rightarrow> nat \<Rightarrow> nat \<Rightarrow> addr" where
  "um_base slb t k = usemap slb + int (k * usemap_size slb) + int (uoff t)"

definition free_idx :: "slub_t \<Rightarrow> bmem \<Rightarrow> nat \<Rightarrow> nat \<Rightarrow> nat option" where
  "free_idx slb b t k = first_below (\<lambda>x. \<not> mbit b (um_base slb t k) x) (8 * ulen t)"

definition obj_addr :: "slub_t \<Rightarrow> nat \<Rightarrow> nat \<Rightarrow> nat \<Rightarrow> addr" where
  "obj_addr slb t k x = block slb + int (k * 4096) + int x * 2 ^ (t + 3)"

definition take_bit_at :: "bmem \<Rightarrow> addr \<Rightarrow> nat \<Rightarrow> bmem" where
  "take_bit_at b base x = b(base + int (x div 8) := b (base + int (x div 8)) OR push_bit (x mod 8) 1)"

lemma mbit_take_bit_at: "mbit (take_bit_at b base x) q k \<longleftrightarrow> bit_at q k = bit_at base x \<or> mbit b q k"
  unfolding take_bit_at_def by (subst mbit_set) (simp_all add: bit_at_def)

lemma scan_blocks_spec:
  assumes "t < 9"
  shows "scan_blocks slub_env_ready slb b t i js =
     (case List.find (\<lambda>j. bit (b (type_bitmap slb t + int i)) j \<and> free_idx slb b t (i * 8 + j) \<noteq> None) js of
        None \<Rightarrow> (0, b)
      | Some j \<Rightarrow> (obj_addr slb t (i * 8 + j) (the (free_idx slb b t (i * 8 + j))),
                   take_bit_at b (um_base slb t (i * 8 + j)) (the (free_idx slb b t (i * 8 + j)))))"
proof (induction js)
  case (Cons j js)
  have "alloc_index_from_usemap slub_env_ready t b (usemap slb + int ((i * 8 + j) * usemap_size slb))
    = (case free_idx slb b t (i * 8 + j) of None \<Rightarrow> (-1, b)
       | Some x \<Rightarrow> (int x, take_bit_at b (um_base slb t (i * 8 + j)) x))"
    by (simp only: alloc_index_from_usemap_spec um_base_def free_idx_def take_bit_at_def)
  with Cons.IH type_table(1) [OF assms] show ?case
    by (simp add: Let_def BLOCK_SIZE_def obj_addr_def split: option.split)
qed simp

text \<open>The block and the index that \<open>slub_alloc_from_existed\<close> takes: it looks at the blocks of
  the first byte of the type's bitmap that is not zero, and at no other.\<close>

definition existed_at :: "slub_t \<Rightarrow> bmem \<Rightarrow> nat \<Rightarrow> (nat \<times> nat) option" where
  "existed_at slb b t =
     (case first_below (\<lambda>i. b (type_bitmap slb t + int i) \<noteq> 0) (bitmap_size slb) of
        None \<Rightarrow> None
      | Some i \<Rightarrow>
          map_option (\<lambda>j. (i * 8 + j, the (free_idx slb b t (i * 8 + j))))
            (first_below (\<lambda>j. mbit b (type_bitmap slb t) (i * 8 + j)
                            \<and> free_idx slb b t (i * 8 + j) \<noteq> None) 8))"

lemma slub_alloc_from_existed_spec:
  assumes "t < 9"
  shows "slub_alloc_from_existed slub_env_ready slb b t =
     (case existed_at slb b t of None \<Rightarrow> (0, b)
      | Some (k, x) \<Rightarrow> (obj_addr slb t k x, take_bit_at b (um_base slb t k) x))"
proof -
  have "first_below (\<lambda>j. bit (b (type_bitmap slb t + int i)) j \<and> free_idx slb b t (i * 8 + j) \<noteq> None) 8
      = first_below (\<lambda>j. mbit b (type_bitmap slb t) (i * 8 + j) \<and> free_idx slb b t (i * 8 + j) \<noteq> None) 8"
    for i
    by (rule first_below_cong) (simp add: mbit_def)
  then show ?thesis
    by (auto simp: slub_alloc_from_existed_def existed_at_def scan_blocks_spec [OF assms]
        first_below_def [of _ 8, symmetric] split: option.splits)
qed

lemma existed_at_Some:
  assumes "existed_at slb b t = Some (k, x)"
  shows "k < 8 * bitmap_size slb" and "mbit b (type_bitmap slb t) k"
    and "free_idx slb b t k = Some x"
  using assms
  by (auto simp: existed_at_def first_below_Some split: option.splits)

text \<open>The state of the allocator as bits: which blocks are taken, which type owns a block,
  which objects of a block are in use.\<close>

definition hdr :: "addr \<Rightarrow> nat \<Rightarrow> slub_t" where "hdr p n = slub_header slub_env_ready p n"
definition nbits :: "nat \<Rightarrow> nat" where "nbits n = 8 * ((n + 7) div 8)"
definition taken :: "addr \<Rightarrow> nat \<Rightarrow> bmem \<Rightarrow> nat \<Rightarrow> bool" where
  "taken p n b k = mbit b (bitmap (hdr p n)) k"
definition own :: "addr \<Rightarrow> nat \<Rightarrow> bmem \<Rightarrow> nat \<Rightarrow> nat \<Rightarrow> bool" where
  "own p n b t k = mbit b (type_bitmap (hdr p n) t) k"
definition used :: "addr \<Rightarrow> nat \<Rightarrow> bmem \<Rightarrow> nat \<Rightarrow> nat \<Rightarrow> nat \<Rightarrow> bool" where
  "used p n b t k x = mbit b (um_base (hdr p n) t k) x"

definition slub_inv :: "addr \<Rightarrow> nat \<Rightarrow> bmem \<Rightarrow> bool" where
  "slub_inv p n b \<longleftrightarrow>
     0 < p
     \<and> (\<forall>k < nbits n. \<not> taken p n b k \<longrightarrow> k < n)
     \<and> (\<forall>t < 9. \<forall>k < nbits n. own p n b t k \<longrightarrow> taken p n b k \<and> k < n)
     \<and> (\<forall>t < 9. \<forall>t' < 9. \<forall>k < nbits n. own p n b t k \<and> own p n b t' k \<longrightarrow> t = t')
     \<and> (\<forall>t < 9. \<forall>k < n. \<forall>x < 8 * ulen t. occ t \<le> x \<longrightarrow> used p n b t k x)
     \<and> (\<forall>t < 9. \<forall>k < n. \<not> own p n b t k \<longrightarrow> (\<forall>x < occ t. \<not> used p n b t k x))"

text \<open>The objects handed out so far: type, block and index in the block.\<close>

definition live :: "addr \<Rightarrow> nat \<Rightarrow> bmem \<Rightarrow> (nat \<times> nat \<times> nat) set" where
  "live p n b = {(t, k, x). t < 9 \<and> k < n \<and> x < occ t \<and> own p n b t k \<and> used p n b t k x}"

lemma slub_invI:
  assumes "0 < p"
    and "\<And>k. k < nbits n \<Longrightarrow> \<not> taken p n b k \<Longrightarrow> k < n"
    and "\<And>t k. t < 9 \<Longrightarrow> k < nbits n \<Longrightarrow> own p n b t k \<Longrightarrow> taken p n b k \<and> k < n"
    and "\<And>t t' k. t < 9 \<Longrightarrow> t' < 9 \<Longrightarrow> k < nbits n \<Longrightarrow> own p n b t k \<Longrightarrow> own p n b t' k \<Longrightarrow> t = t'"
    and "\<And>t k x. t < 9 \<Longrightarrow> k < n \<Longrightarrow> x < 8 * ulen t \<Longrightarrow> occ t \<le> x \<Longrightarrow> used p n b t k x"
    and "\<And>t k x. t < 9 \<Longrightarrow> k < n \<Longrightarrow> \<not> own p n b t k \<Longrightarrow> x < occ t \<Longrightarrow> \<not> used p n b t k x"
  shows "slub_inv p n b"
  using assms unfolding slub_inv_def by blast

lemma slub_invD:
  assumes "slub_inv p n b"
  shows "0 < p"
    and "k < nbits n \<Longrightarrow> \<not> taken p n b k \<Longrightarrow> k < n"
    and "t < 9 \<Longrightarrow> k < nbits n \<Longrightarrow> own p n b t k \<Longrightarrow> taken p n b k \<and> k < n"
    and "t < 9 \<Longrightarrow> t' < 9 \<Longrightarrow> k < nbits n \<Longrightarrow> own p n b t k \<Longrightarrow> own p n b t' k \<Longrightarrow> t = t'"
    and "t < 9 \<Longrightarrow> k < n \<Longrightarrow> x < 8 * ulen t \<Longrightarrow> occ t \<le> x \<Longrightarrow> used p n b t k x"
    and "t < 9 \<Longrightarrow> k < n \<Longrightarrow> \<not> own p n b t k \<Longrightarrow> x < occ t \<Longrightarrow> \<not> used p n b t k x"
  using assms by (simp_all add: slub_inv_def)

lemma less_nbits: "m < n \<Longrightarrow> m < nbits n"
  by (simp add: nbits_def)

lemma less_occ: "t < 9 \<Longrightarrow> y < occ t \<Longrightarrow> y < 8 * ulen t"
  using type_table(4) [of t] by linarith

lemma hdr_fields:
  "bitmap (hdr p n) = p + 64" "bitmap_size (hdr p n) = (n + 7) div 8"
  "usemap (hdr p n) = p + 64 + int ((n + 7) div 8 * 10)" "usemap_size (hdr p n) = 129"
  "block (hdr p n) = p + 4096" "magic_no (hdr p n) = SLUB_MAGIC" "nblocks (hdr p n) = n"
  by (simp_all add: hdr_def slub_header_ready)

lemma type_bitmap_hdr: "type_bitmap (hdr p n) t = p + 64 + int ((n + 7) div 8 * (t + 1))"
  by (simp add: type_bitmap_def hdr_fields)

lemma um_base_hdr:
  "um_base (hdr p n) t k = p + 64 + int ((n + 7) div 8 * 10) + int (k * 129) + int (uoff t)"
  by (simp add: um_base_def hdr_fields)

lemma bit_at_addr: "bit_at q k = bit_at q' k' \<Longrightarrow> q + int (k div 8) = q' + int (k' div 8)"
  by (simp add: bit_at_def)

lemma div8_less: "k < nbits n \<Longrightarrow> k div 8 < (n + 7) div 8"
  by (simp add: nbits_def less_mult_imp_div_less mult.commute)

lemma type_row: "t < 9 \<Longrightarrow> B * (t + 1) + B \<le> B * (10::nat)"
proof -
  assume "t < 9"
  then have "B * (t + 2) \<le> B * 10" by (intro mult_le_mono2) simp
  then show ?thesis by (simp add: algebra_simps)
qed

lemma type_rows: "t < t' \<Longrightarrow> B * (t + 1) + B \<le> B * (t' + 1 :: nat)"
proof -
  assume "t < t'"
  then have "B * (t + 2) \<le> B * (t' + 1)" by (intro mult_le_mono2) simp
  then show ?thesis by (simp add: algebra_simps)
qed

text \<open>The three groups of bits do not share a bit.\<close>

lemma top_own_apart:
  assumes "k < nbits n"
  shows "bit_at (bitmap (hdr p n)) k \<noteq> bit_at (type_bitmap (hdr p n) t) m"
proof
  assume "bit_at (bitmap (hdr p n)) k = bit_at (type_bitmap (hdr p n) t) m"
  then have "int (k div 8) = int ((n + 7) div 8 * (t + 1)) + int (m div 8)"
    by (auto dest!: bit_at_addr simp: hdr_fields type_bitmap_hdr)
  moreover have "(n + 7) div 8 \<le> (n + 7) div 8 * (t + 1)" by simp
  ultimately show False using div8_less [OF assms] by linarith
qed

lemma own_own_apart:
  assumes "k < nbits n" and "m < nbits n"
    and "bit_at (type_bitmap (hdr p n) t) k = bit_at (type_bitmap (hdr p n) t') m"
  shows "t = t' \<and> k = m"
proof -
  have eq: "(n + 7) div 8 * (t + 1) + k div 8 = (n + 7) div 8 * (t' + 1) + m div 8"
    using bit_at_addr [OF assms(3)] by (simp add: type_bitmap_hdr flip: of_nat_add)
  have "\<not> t < t'" "\<not> t' < t"
    using eq div8_less [OF assms(1)] div8_less [OF assms(2)]
      type_rows [of t t' "(n + 7) div 8"] type_rows [of t' t "(n + 7) div 8"] by linarith+
  then have "t = t'" by simp
  with assms(3) show ?thesis by (simp add: bit_at_same)
qed

lemma top_used_apart:
  assumes "k < nbits n"
  shows "bit_at (bitmap (hdr p n)) k \<noteq> bit_at (um_base (hdr p n) t m) x"
proof
  assume "bit_at (bitmap (hdr p n)) k = bit_at (um_base (hdr p n) t m) x"
  then have "int (k div 8) = int ((n + 7) div 8 * 10) + int (m * 129) + int (uoff t) + int (x div 8)"
    by (auto dest!: bit_at_addr simp: hdr_fields um_base_hdr)
  then show False using div8_less [OF assms] by linarith
qed

lemma own_used_apart:
  assumes "k < nbits n" and "t' < 9"
  shows "bit_at (type_bitmap (hdr p n) t') k \<noteq> bit_at (um_base (hdr p n) t m) x"
proof
  assume "bit_at (type_bitmap (hdr p n) t') k = bit_at (um_base (hdr p n) t m) x"
  then have "int ((n + 7) div 8 * (t' + 1)) + int (k div 8)
      = int ((n + 7) div 8 * 10) + int (m * 129) + int (uoff t) + int (x div 8)"
    by (auto dest!: bit_at_addr simp: type_bitmap_hdr um_base_hdr)
  then show False
    using div8_less [OF assms(1)] type_row [OF assms(2), of "(n + 7) div 8"] by linarith
qed

lemma used_used_apart:
  assumes "t < 9" "t' < 9" "x < 8 * ulen t" "x' < 8 * ulen t'"
    and "bit_at (um_base (hdr p n) t k) x = bit_at (um_base (hdr p n) t' k') x'"
  shows "t = t' \<and> k = k' \<and> x = x'"
proof -
  have eq: "k * 129 + uoff t + x div 8 = k' * 129 + uoff t' + x' div 8"
    using bit_at_addr [OF assms(5)] by (simp add: um_base_hdr flip: of_nat_add)
  have x: "x div 8 < ulen t" "x' div 8 < ulen t'" using assms(3,4) by linarith+
  have row: "uoff t + x div 8 < 129" "uoff t' + x' div 8 < 129"
    using x type_table(5) [OF assms(1)] type_table(5) [OF assms(2)] by linarith+
  have k: "k = k'" using eq row by linarith
  then have "\<not> t < t'" "\<not> t' < t"
    using eq x uoff_step [OF _ assms(2), of t] uoff_step [OF _ assms(1), of t'] by linarith+
  then have "t = t'" by simp
  with k assms(5) show ?thesis by (simp add: bit_at_same)
qed

section \<open>Allocation\<close>

text \<open>The two ways an allocation changes the bits.\<close>

lemma take_object_bits:
  assumes "t < 9" and "x < 8 * ulen t" and b': "b' = take_bit_at b (um_base (hdr p n) t k) x"
  shows "m < nbits n \<Longrightarrow> taken p n b' m = taken p n b m"
    and "m < nbits n \<Longrightarrow> t' < 9 \<Longrightarrow> own p n b' t' m = own p n b t' m"
    and "t' < 9 \<Longrightarrow> y < 8 * ulen t' \<Longrightarrow>
           used p n b' t' m y \<longleftrightarrow> (t', m, y) = (t, k, x) \<or> used p n b t' m y"
  using top_used_apart [of m n p t k x] own_used_apart [of m n t' p t k x]
    used_used_apart [OF _ assms(1) _ assms(2), of t' y p n m k]
  by (auto simp: taken_def own_def used_def b' mbit_take_bit_at)

lemma take_block_bits:
  assumes "k < nbits n" and "t < 9"
    and bits: "\<And>q m. mbit b' q m \<longleftrightarrow> bit_at q m = bit_at (bitmap (hdr p n)) k
       \<or> bit_at q m = bit_at (type_bitmap (hdr p n) t) k \<or> mbit b q m"
  shows "m < nbits n \<Longrightarrow> taken p n b' m \<longleftrightarrow> m = k \<or> taken p n b m"
    and "m < nbits n \<Longrightarrow> own p n b' t' m \<longleftrightarrow> (t' = t \<and> m = k) \<or> own p n b t' m"
    and "used p n b' t' m y = used p n b t' m y"
  using top_own_apart [of m n p t k] top_own_apart [of k n p t' m] assms(1)
    own_own_apart [of m n k p t' t] top_used_apart [of k n p t' m y] own_used_apart [of k n t p t' m y]
  by (auto simp: taken_def own_def used_def bits bit_at_same assms(2))

lemma slub_inv_take_object:
  assumes inv: "slub_inv p n b" and t: "t < 9" and k: "k < n" and x: "x < occ t"
    and owns: "own p n b t k" and b': "b' = take_bit_at b (um_base (hdr p n) t k) x"
  shows "slub_inv p n b'" and "live p n b' = insert (t, k, x) (live p n b)"
proof -
  note bits = take_object_bits [OF t less_occ [OF t x] b']
  note invD = slub_invD [OF inv]
  show "slub_inv p n b'"
  proof (rule slub_invI)
    fix t' m y assume a: "t' < 9" "m < n" "\<not> own p n b' t' m" "y < occ t'"
    then have "\<not> own p n b t' m" by (simp add: bits(2) less_nbits)
    with owns have "(t', m) \<noteq> (t, k)" by auto
    with a \<open>\<not> own p n b t' m\<close> show "\<not> used p n b' t' m y"
      by (auto simp: bits(3) less_occ dest: invD(6))
  qed (use invD in \<open>auto simp: bits\<close>)
  have "(t', m, y) \<in> live p n b' \<longleftrightarrow> (t', m, y) \<in> insert (t, k, x) (live p n b)" for t' m y
  proof (cases "t' < 9 \<and> m < n \<and> y < occ t'")
    case True
    then show ?thesis using owns by (auto simp: live_def bits less_nbits less_occ)
  next
    case False
    then show ?thesis using t k x by (auto simp: live_def)
  qed
  then show "live p n b' = insert (t, k, x) (live p n b)" by auto
qed

lemma slub_inv_take_block:
  assumes inv: "slub_inv p n b" and t: "t < 9" and k: "k < nbits n" and free: "\<not> taken p n b k"
    and bits: "\<And>q m. mbit b' q m \<longleftrightarrow> bit_at q m = bit_at (bitmap (hdr p n)) k
       \<or> bit_at q m = bit_at (type_bitmap (hdr p n) t) k \<or> mbit b q m"
  shows "slub_inv p n b'" and "live p n b' = live p n b" and "own p n b' t k"
proof -
  note bits' = take_block_bits [OF k t bits]
  note invD = slub_invD [OF inv]
  have kn: "k < n" by (rule invD(2) [OF k free])
  have none: "\<not> own p n b t' k" if "t' < 9" for t'
    using invD(3) [OF that k] free by blast
  have fresh: "\<not> used p n b t' k y" if "t' < 9" "y < occ t'" for t' y
    by (rule invD(6) [OF that(1) kn none [OF that(1)] that(2)])
  show "slub_inv p n b'"
  proof (rule slub_invI)
    fix t' u m assume "t' < 9" "u < 9" "m < nbits n" "own p n b' t' m" "own p n b' u m"
    then show "t' = u" using none invD(4) [of t' u m] by (auto simp: bits'(2))
  next
    fix t' m y assume a: "t' < 9" "m < n" "\<not> own p n b' t' m" "y < occ t'"
    then have "\<not> own p n b t' m" by (simp add: bits'(2) less_nbits)
    with a show "\<not> used p n b' t' m y" using invD(6) by (simp add: bits'(3))
  qed (use invD kn in \<open>auto simp: bits'\<close>)
  have "(t', m, y) \<in> live p n b' \<longleftrightarrow> (t', m, y) \<in> live p n b" for t' m y
  proof (cases "t' < 9 \<and> m < n \<and> y < occ t'")
    case True
    then show ?thesis using fresh by (auto simp: live_def bits' less_nbits)
  next
    case False
    then show ?thesis by (auto simp: live_def)
  qed
  then show "live p n b' = live p n b" by auto
  show "own p n b' t k" using k by (simp add: bits')
qed

lemma free_idx_occ:
  assumes "slub_inv p n b" and "t < 9" and "k < n" and "free_idx (hdr p n) b t k = Some x"
  shows "x < occ t" and "\<not> used p n b t k x"
proof -
  have x: "x < 8 * ulen t" "\<not> used p n b t k x"
    using assms(4) by (auto simp: free_idx_def first_below_Some used_def)
  then show "\<not> used p n b t k x" by simp
  show "x < occ t" using assms(1-3) x unfolding slub_inv_def by (meson not_le)
qed

lemma free_idx_fresh:
  assumes "slub_inv p n b" and "t < 9" and "k < n" and "y < occ t" and "\<not> used p n b t k y"
  shows "free_idx (hdr p n) b t k \<noteq> None"
  using assms type_table(4) [OF assms(2)]
  by (auto simp: free_idx_def first_below_None used_def intro!: exI [of _ y])

lemma existed_at_object:
  assumes inv: "slub_inv p n b" and "t < 9" and at: "existed_at (hdr p n) b t = Some (k, x)"
  shows "k < n" and "x < occ t" and "own p n b t k" and "(t, k, x) \<notin> live p n b"
proof -
  note facts = existed_at_Some [OF at]
  have "k < nbits n" using facts(1) by (simp add: hdr_fields nbits_def)
  moreover show own: "own p n b t k" using facts(2) by (simp add: own_def)
  ultimately show k: "k < n" using inv assms(2) unfolding slub_inv_def by blast
  show "x < occ t" "(t, k, x) \<notin> live p n b"
    using free_idx_occ [OF inv assms(2) k facts(3)] by (auto simp: live_def)
qed

lemma obj_addr_pos: "0 < p \<Longrightarrow> 0 < obj_addr (hdr p n) t k x"
  by (auto simp: obj_addr_def hdr_fields intro!: add_pos_nonneg)

text \<open>The object sizes, and the type that \<open>slub_alloc\<close> picks: the smallest that fits.\<close>

lemma find_type_ready:
  assumes "0 < sz"
  shows "find_type (objs slub_env_ready) 0 sz =
    (if sz \<le> 8 then 0 else if sz \<le> 16 then 1 else if sz \<le> 32 then 2 else if sz \<le> 64 then 3
     else if sz \<le> 128 then 4 else if sz \<le> 256 then 5 else if sz \<le> 512 then 6
     else if sz \<le> 1024 then 7 else if sz \<le> 2048 then 8 else -1)"
  by (simp add: slub_env_ready_def)

lemma find_type_fits:
  assumes "0 < sz" and "sz \<le> 2048"
  obtains t where "find_type (objs slub_env_ready) 0 sz = int t" and "t < 9"
    and "sz \<le> 2 ^ (t + 3)" and "\<And>u. u < t \<Longrightarrow> 2 ^ (u + 3) < sz"
proof -
  define t where "t = nat (find_type (objs slub_env_ready) 0 sz)"
  have t: "find_type (objs slub_env_ready) 0 sz = int t" "t < 9" "sz \<le> 2 ^ (t + 3)"
    "t = 0 \<or> 2 ^ (t + 2) < sz"
    unfolding t_def find_type_ready [OF assms(1)] using assms by (simp_all split: if_split)
  moreover have "2 ^ (u + 3) < sz" if "u < t" for u
  proof -
    have "(2::int) ^ (u + 3) \<le> 2 ^ (t + 2)" using that by (intro power_increasing) simp_all
    with t(4) that show ?thesis by linarith
  qed
  ultimately show ?thesis using that by blast
qed

text \<open>What \<open>slub_alloc\<close> does, for a request that a type fits.\<close>

datatype alloc_outcome = From_block nat nat | New_block nat nat | No_block | Scan_miss

definition alloc_outcome :: "addr \<Rightarrow> nat \<Rightarrow> bmem \<Rightarrow> nat \<Rightarrow> alloc_outcome" where
  "alloc_outcome p n b t =
     (case existed_at (hdr p n) b t of
        Some (k, x) \<Rightarrow> From_block k x
      | None \<Rightarrow>
          (case first_below (\<lambda>k. \<not> taken p n b k) (nbits n) of
             None \<Rightarrow> No_block
           | Some k \<Rightarrow>
               (case first_below (\<lambda>i. b (type_bitmap (hdr p n) t + int i) \<noteq> 0) ((n + 7) div 8) of
                  None \<Rightarrow> New_block k 0
                | Some i \<Rightarrow> if k div 8 \<le> i then New_block k 0 else Scan_miss)))"

lemma first_below_or_eq:
  assumes "c < n"
  shows "first_below (\<lambda>i. P i \<or> i = c) n =
    Some (case first_below P n of None \<Rightarrow> c | Some i \<Rightarrow> min i c)"
  using assms
proof (cases "first_below P n")
  case None
  then have "\<forall>i<n. \<not> P i" by (simp add: first_below_None)
  with assms None show ?thesis by (simp add: first_below_Some)
next
  case (Some i)
  then have "i < n" "P i" "\<forall>j<i. \<not> P j" by (auto simp: first_below_Some)
  with assms have "first_below (\<lambda>i. P i \<or> i = c) n = Some (min i c)"
    by (auto simp: first_below_Some min_def)
  with Some show ?thesis by simp
qed

lemma first_octet:
  "first_below (\<lambda>i. b (tb + int i) \<noteq> 0) B = first_below (\<lambda>i. \<exists>j<8. mbit b tb (i * 8 + j)) B"
  by (rule first_below_cong) (auto simp: byte_zero_iff mbit_def)

lemma octet_index: "c < nbits n \<Longrightarrow> j < 8 \<Longrightarrow> i = c div 8 \<Longrightarrow> i * 8 + j = c \<longleftrightarrow> j = c mod 8"
  using div_mult_mod_eq [of c 8] by linarith

lemma first_below_unique: "c < n \<Longrightarrow> first_below (\<lambda>j. j = c) n = Some c"
  by (auto simp: first_below_Some)

lemma nbits_bound: "i < (n + 7) div 8 \<Longrightarrow> j < 8 \<Longrightarrow> i * 8 + j < nbits n"
  unfolding nbits_def by linarith

text \<open>After a fresh block \<open>k\<close> has been given to the type, the second call of
  \<open>slub_alloc_from_existed\<close> finds it, unless an earlier byte of the bitmap hides it.\<close>

lemma existed_after_new_block:
  assumes inv: "slub_inv p n b" and t: "t < 9" and k: "k < nbits n" and free: "\<not> taken p n b k"
    and none: "existed_at (hdr p n) b t = None"
    and bits: "\<And>q m. mbit b' q m \<longleftrightarrow> bit_at q m = bit_at (bitmap (hdr p n)) k
       \<or> bit_at q m = bit_at (type_bitmap (hdr p n) t) k \<or> mbit b q m"
  shows "existed_at (hdr p n) b' t =
    (case first_below (\<lambda>i. b (type_bitmap (hdr p n) t + int i) \<noteq> 0) ((n + 7) div 8) of
       None \<Rightarrow> Some (k, 0) | Some i \<Rightarrow> if k div 8 \<le> i then Some (k, 0) else None)"
proof -
  let ?B = "(n + 7) div 8" and ?tb = "type_bitmap (hdr p n) t"
  let ?old = "first_below (\<lambda>i. \<exists>j<8. mbit b ?tb (i * 8 + j)) ?B"
  have kB: "k div 8 < ?B" by (rule div8_less [OF k])
  have own': "mbit b' ?tb m \<longleftrightarrow> m = k \<or> mbit b ?tb m" if "m < nbits n" for m
    using take_block_bits(2) [OF k t bits that] by (auto simp: own_def)
  have idx: "free_idx (hdr p n) b' t m = free_idx (hdr p n) b t m" for m
    using take_block_bits(3) [OF k t bits] by (simp add: free_idx_def used_def)
  have kn: "k < n" and fresh: "\<And>y. y < occ t \<Longrightarrow> \<not> used p n b t k y"
    using slub_invD(2) [OF inv k free] slub_invD(3) [OF inv t k] slub_invD(6) [OF inv t] free
    by auto
  have idxk: "free_idx (hdr p n) b t k = Some 0"
    using fresh type_table(3,4) [OF t] by (auto simp: free_idx_def first_below_Some used_def)
  have octet': "first_below (\<lambda>i. \<exists>j<8. mbit b' ?tb (i * 8 + j)) ?B
      = Some (case ?old of None \<Rightarrow> k div 8 | Some i \<Rightarrow> min i (k div 8))"
  proof -
    have "(\<exists>j<8. mbit b' ?tb (i * 8 + j)) \<longleftrightarrow> (\<exists>j<8. mbit b ?tb (i * 8 + j)) \<or> i = k div 8"
      if i: "i < ?B" for i
    proof -
      have "(\<exists>j<8. i * 8 + j = k) \<longleftrightarrow> i = k div 8"
        by (auto intro!: exI [of _ "k mod 8"])
      then show ?thesis using own' nbits_bound [OF i] by blast
    qed
    then have "first_below (\<lambda>i. \<exists>j<8. mbit b' ?tb (i * 8 + j)) ?B
        = first_below (\<lambda>i. (\<exists>j<8. mbit b ?tb (i * 8 + j)) \<or> i = k div 8) ?B"
      by (rule first_below_cong)
    then show ?thesis by (simp only: first_below_or_eq [OF kB])
  qed
  have full: "free_idx (hdr p n) b t (i * 8 + j) = None"
    if "?old = Some i" "j < 8" "mbit b ?tb (i * 8 + j)" for i j
    using none that
    by (auto simp: existed_at_def hdr_fields first_octet first_below_None split: option.splits)
  have cand: "first_below (\<lambda>j. mbit b' ?tb (i * 8 + j) \<and> free_idx (hdr p n) b t (i * 8 + j) \<noteq> None) 8
      = (if i = k div 8 then Some (k mod 8) else None)"
    if i: "i < ?B" and rest: "\<And>j. j < 8 \<Longrightarrow> mbit b ?tb (i * 8 + j) \<Longrightarrow> ?old = Some i" for i
  proof -
    have "mbit b' ?tb (i * 8 + j) \<and> free_idx (hdr p n) b t (i * 8 + j) \<noteq> None \<longleftrightarrow>
        (if i = k div 8 then j = k mod 8 else False)" if j: "j < 8" for j
      using own' [OF nbits_bound [OF i j]] full [OF rest [OF j] j] idxk octet_index [OF k j, of i] j
      by auto
    then have "first_below (\<lambda>j. mbit b' ?tb (i * 8 + j) \<and> free_idx (hdr p n) b t (i * 8 + j) \<noteq> None) 8
        = first_below (\<lambda>j. if i = k div 8 then j = k mod 8 else False) 8"
      by (rule first_below_cong)
    then show ?thesis by (simp add: first_below_unique)
  qed
  have at: "existed_at (hdr p n) b' t = map_option (\<lambda>j. (i * 8 + j, the (free_idx (hdr p n) b t (i * 8 + j))))
      (if i = k div 8 then Some (k mod 8) else None)"
    if "i = (case ?old of None \<Rightarrow> k div 8 | Some i \<Rightarrow> min i (k div 8))" for i
  proof -
    have "i < ?B" using that kB by (auto split: option.splits)
    moreover have "?old = Some i" if "j < 8" "mbit b ?tb (i * 8 + j)" for j
    proof (cases ?old)
      case None
      with that \<open>i < ?B\<close> show ?thesis by (auto simp: first_below_None)
    next
      case (Some i')
      with that \<open>i = _\<close> have "i = i'"
        by (auto simp: first_below_Some min_def split: if_splits)
      with Some show ?thesis by simp
    qed
    ultimately show ?thesis
      using cand [of i] octet' that by (simp add: existed_at_def hdr_fields first_octet idx)
  qed
  have "k div 8 * 8 + k mod 8 = k" by simp
  then show ?thesis
    using at [OF refl] idxk by (auto simp: first_octet min_def split: option.splits)
qed

text \<open>How a request changes the ownership of blocks.\<close>

definition same_blocks :: "addr \<Rightarrow> nat \<Rightarrow> bmem \<Rightarrow> bmem \<Rightarrow> bool" where
  "same_blocks p n b b' \<longleftrightarrow>
     (\<forall>m < nbits n. taken p n b' m = taken p n b m \<and> (\<forall>u < 9. own p n b' u m = own p n b u m))"

definition block_given :: "addr \<Rightarrow> nat \<Rightarrow> bmem \<Rightarrow> bmem \<Rightarrow> nat \<Rightarrow> nat \<Rightarrow> bool" where
  "block_given p n b b' t k \<longleftrightarrow> \<not> taken p n b k \<and>
     (\<forall>m < nbits n. (taken p n b' m \<longleftrightarrow> m = k \<or> taken p n b m)
        \<and> (\<forall>u < 9. own p n b' u m \<longleftrightarrow> (u = t \<and> m = k) \<or> own p n b u m))"

text \<open>The complete behaviour of a request that fits a type.\<close>

lemma slub_alloc_cases:
  assumes inv: "slub_inv p n b" and sz: "0 < sz"
    and ty: "find_type (objs slub_env_ready) 0 sz = int t" "t < 9"
  shows "case alloc_outcome p n b t of
      No_block \<Rightarrow> slub_alloc slub_env_ready (hdr p n) b p sz = Inr (0, b)
    | Scan_miss \<Rightarrow> slub_alloc slub_env_ready (hdr p n) b p sz = Inl Assert_failed
    | From_block k x \<Rightarrow> k < n \<and> x < occ t \<and> (t, k, x) \<notin> live p n b \<and>
        (\<exists>b'. slub_alloc slub_env_ready (hdr p n) b p sz = Inr (obj_addr (hdr p n) t k x, b')
           \<and> slub_inv p n b' \<and> live p n b' = insert (t, k, x) (live p n b)
           \<and> same_blocks p n b b')
    | New_block k x \<Rightarrow> k < n \<and> x < occ t \<and> (t, k, x) \<notin> live p n b \<and>
        (\<exists>b'. slub_alloc slub_env_ready (hdr p n) b p sz = Inr (obj_addr (hdr p n) t k x, b')
           \<and> slub_inv p n b' \<and> live p n b' = insert (t, k, x) (live p n b)
           \<and> block_given p n b b' t k)"
proof -
  let ?h = "hdr p n" and ?run = "slub_alloc slub_env_ready (hdr p n) b p sz"
  have p: "0 < p" by (rule slub_invD(1) [OF inv])
  note existed = slub_alloc_from_existed_spec [OF ty(2), of ?h]
  have run: "?run = (if fst (slub_alloc_from_existed slub_env_ready ?h b t) \<noteq> 0
        then Inr (slub_alloc_from_existed slub_env_ready ?h b t)
        else bind_run (alloc_index_from_top_bitmap ?h (snd (slub_alloc_from_existed slub_env_ready ?h b t)) t)
          (\<lambda>(block_index, b1). if block_index = -1 then Inr (0, b1)
             else assert_run (fst (slub_alloc_from_existed slub_env_ready ?h b1 t) \<noteq> 0)
                    (Inr (slub_alloc_from_existed slub_env_ready ?h b1 t))))"
    using p sz
    by (simp only: slub_alloc_def ty(1) nat_int Let_def hdr_fields) (simp add: assert_run_def)
  show ?thesis
  proof (cases "existed_at ?h b t")
    case (Some kx)
    then obtain k x where at: "existed_at ?h b t = Some (k, x)" by (cases kx) auto
    note obj = existed_at_object [OF inv ty(2) at]
    let ?b' = "take_bit_at b (um_base ?h t k) x"
    have "?run = Inr (obj_addr ?h t k x, ?b')"
      using obj_addr_pos [OF p, of n t k x] by (simp add: run existed at)
    moreover note slub_inv_take_object [OF inv ty(2) obj(1,2,3) refl]
    moreover have "same_blocks p n b ?b'"
      using take_object_bits(1,2) [OF ty(2) less_occ [OF ty(2) obj(2)] refl]
      by (simp add: same_blocks_def)
    ultimately show ?thesis using obj at by (auto simp: alloc_outcome_def)
  next
    case None
    have tb: "type_bitmap ?h t \<noteq> 0" using p 
    proof -
      have "0 \<le> int ((n + 7) div 8 * (t + 1))" by simp
      then show ?thesis using p unfolding type_bitmap_hdr by linarith
    qed
    have nb: "8 * bitmap_size ?h = nbits n" by (simp add: hdr_fields nbits_def)
    have tk: "(\<lambda>k. \<not> mbit b (bitmap ?h) k) = (\<lambda>k. \<not> taken p n b k)" by (simp add: taken_def)
    note top = alloc_index_from_top_bitmap_spec [OF tb, of b, unfolded nb tk]
    show ?thesis
    proof (cases "first_below (\<lambda>k. \<not> taken p n b k) (nbits n)")
      case no_top: None
      with top None show ?thesis by (simp add: run existed alloc_outcome_def)
    next
      case (Some k)
      then have k: "k < nbits n" "\<not> taken p n b k" by (auto simp: first_below_Some)
      from top Some obtain b1 where b1: "alloc_index_from_top_bitmap ?h b t = Inr (int k, b1)"
        and bits: "\<And>q m. mbit b1 q m \<longleftrightarrow> bit_at q m = bit_at (bitmap ?h) k
           \<or> bit_at q m = bit_at (type_bitmap ?h t) k \<or> mbit b q m"
        by auto
      note inv1 = slub_inv_take_block [OF inv ty(2) k bits]
      note at1 = existed_after_new_block [OF inv ty(2) k None bits]
      have run1: "?run = assert_run (fst (slub_alloc_from_existed slub_env_ready ?h b1 t) \<noteq> 0)
                    (Inr (slub_alloc_from_existed slub_env_ready ?h b1 t))"
        using None b1 by (simp add: run existed [of b])
      have hit: ?thesis if at: "existed_at ?h b1 t = Some (k, 0)"
        and out: "alloc_outcome p n b t = New_block k 0"
      proof -
        note obj = existed_at_object [OF inv1(1) ty(2) at]
        have "?run = Inr (obj_addr ?h t k 0, take_bit_at b1 (um_base ?h t k) 0)"
          using obj_addr_pos [OF p, of n t k 0] by (simp add: run1 existed at assert_run_def)
        moreover note slub_inv_take_object [OF inv1(1) ty(2) obj(1,2,3) refl]
        moreover have "block_given p n b (take_bit_at b1 (um_base ?h t k) 0) t k"
          using take_object_bits(1,2) [OF ty(2) less_occ [OF ty(2) obj(2)] refl]
            take_block_bits(1,2) [OF k(1) ty(2) bits] k(2)
          by (auto simp: block_given_def)
        ultimately show ?thesis using obj out inv1(2) by auto
      qed
      show ?thesis
      proof (cases "alloc_outcome p n b t = Scan_miss")
        case True
        then have "existed_at ?h b1 t = None"
          using at1 None Some by (auto simp: alloc_outcome_def split: option.splits if_splits)
        with True show ?thesis by (simp add: run1 existed assert_run_def)
      next
        case False
        then have "existed_at ?h b1 t = Some (k, 0)" "alloc_outcome p n b t = New_block k 0"
          using at1 None Some by (auto simp: alloc_outcome_def split: option.splits if_splits)
        then show ?thesis by (rule hit)
      qed
    qed
  qed
qed

section \<open>Formatting\<close>

lemma mbit_cong:
  assumes "\<And>i. i \<le> k div 8 \<Longrightarrow> b' (base + int i) = b (base + int i)"
  shows "mbit b' base k = mbit b base k"
  using assms [of "k div 8"] by (simp add: mbit_def)

lemma uoff_9: "uoff 9 = 129"
  by (simp add: uoff_def usemap_offset_def slub_env_ready_def map_bytes_def)

lemma take_9_types: "take 9 (objs slub_env_ready) = map (\<lambda>t. objs slub_env_ready ! t) [0..<9]"
proof -
  have *: "n \<le> length xs \<Longrightarrow> take n xs = map (\<lambda>i. xs ! i) [0..<n]" for n and xs :: "obj_type list"
    by (rule nth_equalityI) simp_all
  show ?thesis by (rule *) (simp add: slub_env_ready_def)
qed

lemma format_types_suffix:
  assumes "0 < row" and "t0 \<le> 9"
  shows "\<exists>b'. format_types b row (uoff t0) (map (\<lambda>t. objs slub_env_ready ! t) [t0..<9]) = Inr b'
    \<and> (\<forall>a. a < row + int (uoff t0) \<or> row + 129 \<le> a \<longrightarrow> b' a = b a)
    \<and> (\<forall>t. t0 \<le> t \<longrightarrow> t < 9 \<longrightarrow> (\<forall>x < 8 * ulen t. mbit b' (row + int (uoff t)) x
          \<longleftrightarrow> occ t \<le> x \<and> mbit b (row + int (uoff t)) (x - occ t)))"
  using assms(2)
proof (induction "9 - t0" arbitrary: t0 b)
  case 0
  then show ?case by simp
next
  case (Suc d)
  then have t0: "t0 < 9" by simp
  note tab = type_table [OF t0]
  let ?base = "row + int (uoff t0)"
  have cons: "[t0..<9] = t0 # [Suc t0..<9]" using t0 by (simp add: upt_conv_Cons)
  obtain b1 where b1: "mem_shift_left b ?base (int (ulen t0)) (int (occ t0)) = Inr b1"
    and out: "\<And>a. a < ?base \<or> ?base + int (ulen t0) \<le> a \<Longrightarrow> b1 a = b a"
    and bits: "\<And>k. int k < 8 * int (ulen t0) \<Longrightarrow>
      mbit b1 ?base k \<longleftrightarrow> nat (int (occ t0)) \<le> k \<and> mbit b ?base (k - nat (int (occ t0)))"
    by (rule mem_shift_left_mbit [of ?base "int (ulen t0)" "int (occ t0)" b])
      (use assms(1) tab(3,6) in auto)
  have "format_types b row (uoff t0) (map (\<lambda>t. objs slub_env_ready ! t) [t0..<9])
      = format_types b1 row (uoff (Suc t0)) (map (\<lambda>t. objs slub_env_ready ! t) [Suc t0..<9])"
    unfolding cons using b1 tab(7) by (simp add: Let_def ulen_def occ_def)
  moreover obtain b2 where
    b2: "format_types b1 row (uoff (Suc t0)) (map (\<lambda>t. objs slub_env_ready ! t) [Suc t0..<9]) = Inr b2"
    and out2: "\<And>a. a < row + int (uoff (Suc t0)) \<or> row + 129 \<le> a \<Longrightarrow> b2 a = b1 a"
    and bits2: "\<And>t x. Suc t0 \<le> t \<Longrightarrow> t < 9 \<Longrightarrow> x < 8 * ulen t \<Longrightarrow> mbit b2 (row + int (uoff t)) x
          \<longleftrightarrow> occ t \<le> x \<and> mbit b1 (row + int (uoff t)) (x - occ t)"
  proof -
    have "d = 9 - Suc t0" "Suc t0 \<le> 9" using Suc.hyps(2) t0 by simp_all
    from Suc.hyps(1) [OF this, of b1] show ?thesis using that by blast
  qed
  moreover have "b2 a = b a" if "a < ?base \<or> row + 129 \<le> a" for a
    using that out [of a] out2 [of a] tab(5,7) by auto
  moreover have "mbit b2 (row + int (uoff t)) x \<longleftrightarrow> occ t \<le> x \<and> mbit b (row + int (uoff t)) (x - occ t)"
    if t: "t0 \<le> t" "t < 9" and x: "x < 8 * ulen t" for t x
  proof (cases "t = t0")
    case True
    have "mbit b2 ?base x = mbit b1 ?base x"
    proof (intro mbit_cong out2)
      fix i assume "i \<le> x div 8"
      moreover have "x div 8 < ulen t0" using x [unfolded True] by linarith
      ultimately show "?base + int i < row + int (uoff (Suc t0)) \<or> row + 129 \<le> ?base + int i"
        using tab(7) by linarith
    qed
    with bits [of x] x True show ?thesis by simp
  next
    case False
    then have t': "Suc t0 \<le> t" using t by simp
    have "uoff t0 + ulen t0 \<le> uoff t" using uoff_step [of t0 t] False t by simp
    then have "mbit b1 (row + int (uoff t)) (x - occ t) = mbit b (row + int (uoff t)) (x - occ t)"
      by (intro mbit_cong out) linarith
    with bits2 [OF t' t(2) x] show ?thesis by simp
  qed
  ultimately show ?case by (intro exI [of _ b2]) auto
qed

lemma format_blocks_all:
  assumes "0 < um" and "distinct is"
  shows "\<exists>b'. format_blocks b um 129 (map (\<lambda>t. objs slub_env_ready ! t) [0..<9]) is = Inr b'
    \<and> (\<forall>a. (\<forall>i \<in> set is. a < um + int (i * 129) \<or> um + int (i * 129) + 129 \<le> a) \<longrightarrow> b' a = b a)
    \<and> (\<forall>i \<in> set is. \<forall>t<9. \<forall>x < 8 * ulen t. mbit b' (um + int (i * 129) + int (uoff t)) x
          \<longleftrightarrow> occ t \<le> x \<and> mbit b (um + int (i * 129) + int (uoff t)) (x - occ t))"
  using assms(2)
proof (induction "is" arbitrary: b)
  case Nil
  then show ?case by simp
next
  case (Cons i "is")
  let ?row = "um + int (i * 129)"
  have row: "0 < ?row" using assms(1) by simp
  have "uoff 0 = 0" by (simp add: uoff_def usemap_offset_def)
  then obtain b1 where b1: "format_types b ?row 0 (map (\<lambda>t. objs slub_env_ready ! t) [0..<9]) = Inr b1"
    and out1: "\<And>a. a < ?row \<or> ?row + 129 \<le> a \<Longrightarrow> b1 a = b a"
    and bits1: "\<And>t x. t < 9 \<Longrightarrow> x < 8 * ulen t \<Longrightarrow> mbit b1 (?row + int (uoff t)) x
          \<longleftrightarrow> occ t \<le> x \<and> mbit b (?row + int (uoff t)) (x - occ t)"
    using format_types_suffix [OF row, of 0 b] by auto
  from Cons.IH [of b1] Cons.prems obtain b2 where
    b2: "format_blocks b1 um 129 (map (\<lambda>t. objs slub_env_ready ! t) [0..<9]) is = Inr b2"
    and out2: "\<And>a. (\<And>j. j \<in> set is \<Longrightarrow> a < um + int (j * 129) \<or> um + int (j * 129) + 129 \<le> a)
                \<Longrightarrow> b2 a = b1 a"
    and bits2: "\<And>j t x. j \<in> set is \<Longrightarrow> t < 9 \<Longrightarrow> x < 8 * ulen t \<Longrightarrow>
          mbit b2 (um + int (j * 129) + int (uoff t)) x
          \<longleftrightarrow> occ t \<le> x \<and> mbit b1 (um + int (j * 129) + int (uoff t)) (x - occ t)"
    by auto
  have "format_blocks b um 129 (map (\<lambda>t. objs slub_env_ready ! t) [0..<9]) (i # is) = Inr b2"
    using b1 b2 by (simp add: mult.commute)
  moreover have "b2 a = b a"
    if "\<forall>j \<in> set (i # is). a < um + int (j * 129) \<or> um + int (j * 129) + 129 \<le> a" for a
    using that out1 [of a] out2 [of a] by auto
  moreover have "mbit b2 (um + int (j * 129) + int (uoff t)) x
      \<longleftrightarrow> occ t \<le> x \<and> mbit b (um + int (j * 129) + int (uoff t)) (x - occ t)"
    if j: "j \<in> set (i # is)" and t: "t < 9" and x: "x < 8 * ulen t" for j t x
  proof (cases "j = i")
    case True
    have "mbit b2 (?row + int (uoff t)) x = mbit b1 (?row + int (uoff t)) x"
    proof (intro mbit_cong out2)
      fix k m assume "k \<le> x div 8" "m \<in> set is"
      moreover from this(2) Cons.prems have "m \<noteq> i" by auto
      moreover have "x div 8 < ulen t" using x by linarith
      ultimately show "?row + int (uoff t) + int k < um + int (m * 129)
          \<or> um + int (m * 129) + 129 \<le> ?row + int (uoff t) + int k"
        using type_table(5) [OF t] by linarith
    qed
    with True bits1 [OF t x] show ?thesis by simp
  next
    case False
    have "mbit b1 (um + int (j * 129) + int (uoff t)) (x - occ t)
        = mbit b (um + int (j * 129) + int (uoff t)) (x - occ t)"
    proof (intro mbit_cong out1)
      fix k assume "k \<le> (x - occ t) div 8"
      moreover have "(x - occ t) div 8 < ulen t" using x by linarith
      ultimately show "um + int (j * 129) + int (uoff t) + int k < ?row
          \<or> ?row + 129 \<le> um + int (j * 129) + int (uoff t) + int k"
        using False type_table(5) [OF t] by linarith
    qed
    with bits2 [OF _ t x] j False show ?thesis by auto
  qed
  ultimately show ?case by (intro exI [of _ b2]) auto
qed

definition nblocks_of :: "int \<Rightarrow> nat" where
  "nblocks_of sz = (if nat (sz div 4096) \<ge> 32 then 31 else nat (sz div 4096))"

lemma bmem_set_in: "p \<le> a \<Longrightarrow> a < p + int n \<Longrightarrow> bmem_set b p v n a = v"
  by (simp add: bmem_set_def)

lemma bmem_set_out: "a < p \<or> p + int n \<le> a \<Longrightarrow> bmem_set b p v n a = b a"
  by (auto simp: bmem_set_def)

lemma bit_high_byte: "j < 8 \<Longrightarrow> bit (push_bit r (-1) :: byte) j \<longleftrightarrow> r \<le> j"
  by (auto simp: bit_simps)

definition format_marks :: "bmem \<Rightarrow> addr \<Rightarrow> nat \<Rightarrow> bmem" where
  "format_marks b p n =
     (let b1 = bmem_set b (p + 64) 0 ((n + 7) div 8 * 10);
          b2 = b1(p + 64 + int ((n + 7) div 8) - 1 := push_bit (n mod 8) (-1))
      in bmem_set b2 (usemap (hdr p n)) (-1) (129 * n))"

lemma format_marks_top:
  assumes "k < nbits n"
  shows "mbit (format_marks b p n) (p + 64) k
    \<longleftrightarrow> k div 8 = (n + 7) div 8 - 1 \<and> n mod 8 \<le> k mod 8"
proof -
  let ?B = "(n + 7) div 8"
  have k: "k div 8 < ?B" by (rule div8_less [OF assms])
  have "format_marks b p n (p + 64 + int (k div 8))
      = (if k div 8 = ?B - 1 then push_bit (n mod 8) (-1) else 0)"
    using k by (auto simp: format_marks_def Let_def hdr_fields bmem_set_def)
  moreover have "k mod 8 < 8" by simp
  ultimately show ?thesis by (simp add: mbit_def bit_high_byte del: push_bit_minus_one_eq_not_mask)
qed

lemma format_marks_zero:
  assumes "(n + 7) div 8 \<le> m" "m < (n + 7) div 8 * 10"
  shows "format_marks b p n (p + 64 + int m) = 0"
proof -
  have "int m \<noteq> int ((n + 7) div 8) - 1" "int m < int ((n + 7) div 8 * 10)" using assms by linarith+
  then show ?thesis by (simp add: format_marks_def Let_def hdr_fields bmem_set_def)
qed

lemma format_marks_type:
  assumes "t < 9" "k < nbits n"
  shows "\<not> mbit (format_marks b p n) (type_bitmap (hdr p n) t) k"
proof -
  let ?B = "(n + 7) div 8"
  have "k div 8 < ?B" "?B * (t + 1) + ?B \<le> ?B * 10" "?B \<le> ?B * (t + 1)"
    using div8_less [OF assms(2)] type_row [OF assms(1), of ?B] by simp_all
  then have "?B \<le> ?B * (t + 1) + k div 8" "?B * (t + 1) + k div 8 < ?B * 10" by linarith+
  then have "format_marks b p n (p + 64 + int (?B * (t + 1) + k div 8)) = 0"
    by (rule format_marks_zero)
  then show ?thesis by (simp add: mbit_def type_bitmap_hdr add.assoc)
qed

lemma format_marks_use:
  assumes "t < 9" "k < n" "x < 8 * ulen t"
  shows "mbit (format_marks b p n) (um_base (hdr p n) t k) x"
proof -
  have "x div 8 < ulen t" using assms(3) by linarith
  then have off: "k * 129 + uoff t + x div 8 < 129 * n"
    using type_table(5) [OF assms(1)] assms(2) by linarith
  have "um_base (hdr p n) t k + int (x div 8)
      = usemap (hdr p n) + int (k * 129 + uoff t + x div 8)"
    by (simp add: um_base_hdr hdr_fields)
  then have "format_marks b p n (um_base (hdr p n) t k + int (x div 8)) = -1"
    using off by (simp only: format_marks_def Let_def) (rule bmem_set_in; linarith)
  then show ?thesis by (simp add: mbit_def bit_simps)
qed

lemma slub_format_run:
  assumes p: "0 < p" and sz: "2 * 4096 \<le> sz" and env: "RESOLV_OCCUPY env = slub_env_ready"
  defines "n \<equiv> nblocks_of sz"
  shows "\<exists>b'. slub_format env b p sz = Inr (None, slub_env_ready, Some (hdr p n), b')
    \<and> (\<forall>a. (\<forall>i < n. a < usemap (hdr p n) + int (i * 129)
          \<or> usemap (hdr p n) + int (i * 129) + 129 \<le> a) \<longrightarrow> b' a = format_marks b p n a)
    \<and> (\<forall>k < n. \<forall>t<9. \<forall>x < 8 * ulen t. mbit b' (um_base (hdr p n) t k) x
         \<longleftrightarrow> occ t \<le> x \<and> mbit (format_marks b p n) (um_base (hdr p n) t k) (x - occ t))"
proof -
  have "2 \<le> sz div 4096" using sz by linarith
  then have n: "0 < n" "(if nat (sz div int BLOCK_SIZE) \<ge> BLOCKS_MAX then BLOCKS_MAX - 1
      else nat (sz div int BLOCK_SIZE)) = n"
    by (auto simp: n_def nblocks_of_def BLOCK_SIZE_def BLOCKS_MAX_def)
  have um: "0 < usemap (hdr p n)" using p by (simp add: hdr_fields)
  obtain b' where b': "format_blocks (format_marks b p n) (usemap (hdr p n)) 129
      (map (\<lambda>t. objs slub_env_ready ! t) [0..<9]) [0..<n] = Inr b'"
    and out: "\<forall>a. (\<forall>i \<in> set [0..<n]. a < usemap (hdr p n) + int (i * 129)
       \<or> usemap (hdr p n) + int (i * 129) + 129 \<le> a) \<longrightarrow> b' a = format_marks b p n a"
    and bits: "\<forall>i \<in> set [0..<n]. \<forall>t<9. \<forall>x < 8 * ulen t.
      mbit b' (usemap (hdr p n) + int (i * 129) + int (uoff t)) x
        \<longleftrightarrow> occ t \<le> x \<and> mbit (format_marks b p n) (usemap (hdr p n) + int (i * 129) + int (uoff t)) (x - occ t)"
    using format_blocks_all [OF um, of "[0..<n]" "format_marks b p n"] by auto
  have cnt: "obj_type_count slub_env_ready = 9" by (simp add: slub_env_ready_def)
  have "slub_format env b p sz = bind_run (format_blocks (format_marks b p n) (usemap (hdr p n))
      129 (map (\<lambda>t. objs slub_env_ready ! t) [0..<9]) [0..<n])
      (\<lambda>b4. Inr (None, slub_env_ready, Some (hdr p n), b4))"
    using p sz n(1) unfolding slub_format_def Let_def env n(2) hdr_def [symmetric] cnt take_9_types
    by (simp add: assert_run_def BLOCK_SIZE_def hdr_fields format_marks_def Let_def mult.commute)
  then have "slub_format env b p sz = Inr (None, slub_env_ready, Some (hdr p n), b')"
    using b' by simp
  moreover have "um_base (hdr p n) t k = usemap (hdr p n) + int (k * 129) + int (uoff t)" for t k
    by (simp add: um_base_def hdr_fields(4))
  ultimately show ?thesis using out bits by auto
qed

text \<open>The blocks a fresh region hands out: all of them, unless their number is a multiple of
  8; then the last byte of the top bitmap is \<open>~0\<close> and its eight blocks are lost.\<close>

definition usable :: "nat \<Rightarrow> nat" where
  "usable n = (if n mod 8 = 0 then n - 8 else n)"

lemma last_octet:
  assumes "0 < n" and "k div 8 < (n + 7) div 8"
  shows "\<not> (k div 8 = (n + 7) div 8 - 1 \<and> n mod 8 \<le> k mod 8) \<longleftrightarrow> k < usable n"
proof -
  define q r a c where "q = n div 8" and "r = n mod 8" and "a = k div 8" and "c = k mod 8"
  have nk: "n = 8 * q + r" "k = 8 * a + c" "r < 8" "c < 8"
    by (simp_all add: q_def r_def a_def c_def)
  show ?thesis
  proof (cases "r = 0")
    case True
    with nk have "(n + 7) div 8 = q" "usable n = 8 * q - 8" by (auto simp: usable_def)
    with assms nk True show ?thesis unfolding a_def [symmetric] c_def [symmetric] r_def [symmetric]
      by auto
  next
    case False
    with nk have "(n + 7) div 8 = q + 1" "usable n = n" by (auto simp: usable_def)
    with assms nk False show ?thesis unfolding a_def [symmetric] c_def [symmetric] r_def [symmetric]
      by auto
  qed
qed

lemma slub_format_inv:
  assumes "0 < p" and "2 * 4096 \<le> sz" and "env = slub_env_init \<or> env = slub_env_ready"
  defines "n \<equiv> nblocks_of sz"
  shows "\<exists>b'. slub_format env b p sz = Inr (None, slub_env_ready, Some (hdr p n), b')
    \<and> slub_inv p n b' \<and> live p n b' = {}
    \<and> (\<forall>k < nbits n. \<not> taken p n b' k \<longleftrightarrow> k < usable n)
    \<and> (\<forall>t < 9. \<forall>k < nbits n. \<not> own p n b' t k)"
proof -
  let ?B = "(n + 7) div 8"
  have env: "RESOLV_OCCUPY env = slub_env_ready"
    using assms(3) RESOLV_OCCUPY_init RESOLV_OCCUPY_ready by auto
  have "2 \<le> sz div 4096" using assms(2) by linarith
  then have n: "0 < n" by (simp add: n_def nblocks_of_def)
  obtain b' where run: "slub_format env b p sz = Inr (None, slub_env_ready, Some (hdr p n), b')"
    and out: "\<And>a. (\<And>i. i < n \<Longrightarrow> a < usemap (hdr p n) + int (i * 129)
          \<or> usemap (hdr p n) + int (i * 129) + 129 \<le> a) \<Longrightarrow> b' a = format_marks b p n a"
    and um: "\<And>k t x. k < n \<Longrightarrow> t < 9 \<Longrightarrow> x < 8 * ulen t \<Longrightarrow> mbit b' (um_base (hdr p n) t k) x
         \<longleftrightarrow> occ t \<le> x \<and> mbit (format_marks b p n) (um_base (hdr p n) t k) (x - occ t)"
    using slub_format_run [OF assms(1,2) env, of b] unfolding n_def by blast
  have below: "b' a = format_marks b p n a" if "a < usemap (hdr p n)" for a
    by (rule out) (use that in linarith)
  have used: "used p n b' t k x \<longleftrightarrow> occ t \<le> x" if "t < 9" "k < n" "x < 8 * ulen t" for t k x
    using um [OF that(2,1,3)] format_marks_use [OF that(1,2), of "x - occ t"] that(3)
    by (auto simp: used_def)
  have own: "\<not> own p n b' t k" if "t < 9" "k < nbits n" for t k
  proof -
    have "mbit b' (type_bitmap (hdr p n) t) k = mbit (format_marks b p n) (type_bitmap (hdr p n) t) k"
    proof (rule mbit_cong, rule below)
      fix i assume "i \<le> k div 8"
      then have "?B * (t + 1) + i < ?B * 10"
        using div8_less [OF that(2)] type_row [OF that(1), of ?B] by linarith
      then show "type_bitmap (hdr p n) t + int i < usemap (hdr p n)"
        unfolding type_bitmap_hdr hdr_fields by linarith
    qed
    then show ?thesis using format_marks_type [OF that] by (simp add: own_def)
  qed
  have taken: "\<not> taken p n b' k \<longleftrightarrow> k < usable n" if k: "k < nbits n" for k
  proof -
    have "mbit b' (p + 64) k = mbit (format_marks b p n) (p + 64) k"
      by (rule mbit_cong, rule below) (use div8_less [OF k] in \<open>simp add: hdr_fields\<close>)
    then have "\<not> taken p n b' k \<longleftrightarrow> \<not> (k div 8 = ?B - 1 \<and> n mod 8 \<le> k mod 8)"
      by (simp add: taken_def hdr_fields format_marks_top [OF k])
    moreover have "k div 8 < ?B" by (rule div8_less [OF k])
    ultimately show ?thesis using last_octet [OF n] by simp
  qed
  have us: "usable n \<le> n" by (simp add: usable_def)
  have "slub_inv p n b'"
    by (rule slub_invI) (use assms(1) taken us own used less_occ in \<open>auto intro: less_le_trans\<close>)
  moreover have "live p n b' = {}" using own less_nbits by (auto simp: live_def)
  ultimately show ?thesis using run taken own by blast
qed

lemma slub_format_small:
  "0 < p \<Longrightarrow> 0 < sz \<Longrightarrow> sz < 2 * 4096 \<Longrightarrow> slub_format env b p sz = Inr (Some (-1), env, None, b)"
  by (simp add: slub_format_def assert_run_def BLOCK_SIZE_def)

section \<open>Sequences of requests\<close>

text \<open>The address range of an object.\<close>

definition obj_at :: "addr \<Rightarrow> nat \<Rightarrow> nat \<times> nat \<times> nat \<Rightarrow> addr" where
  "obj_at p n ob = (case ob of (t, k, x) \<Rightarrow> obj_addr (hdr p n) t k x)"

definition obj_len :: "nat \<times> nat \<times> nat \<Rightarrow> int" where
  "obj_len ob = 2 ^ (fst ob + 3)"

lemma obj_range:
  assumes "(t, k, x) \<in> live p n b"
  shows "block (hdr p n) + 4096 * int k \<le> obj_at p n (t, k, x)"
    and "obj_at p n (t, k, x) + obj_len (t, k, x) \<le> block (hdr p n) + 4096 * (int k + 1)"
    and "block (hdr p n) + 4096 * (int k + 1) \<le> block (hdr p n) + 4096 * int n"
proof -
  have t: "t < 9" "x < occ t" "k < n" using assms by (auto simp: live_def)
  have "int (occ t) * 2 ^ (t + 3) = int 4096"
    unfolding type_table(2) [OF t(1), symmetric] by simp
  moreover have "(int x + 1) * 2 ^ (t + 3) \<le> int (occ t) * 2 ^ (t + 3)"
    using t(2) by (intro mult_right_mono) auto
  ultimately show "obj_at p n (t, k, x) + obj_len (t, k, x) \<le> block (hdr p n) + 4096 * (int k + 1)"
    by (simp add: obj_at_def obj_addr_def obj_len_def algebra_simps)
  show "block (hdr p n) + 4096 * int k \<le> obj_at p n (t, k, x)"
    by (simp add: obj_at_def obj_addr_def)
  show "block (hdr p n) + 4096 * (int k + 1) \<le> block (hdr p n) + 4096 * int n" using t(3) by simp
qed

lemma objects_apart:
  assumes inv: "slub_inv p n b" and live: "ob \<in> live p n b" "ob' \<in> live p n b" and ne: "ob \<noteq> ob'"
  shows "obj_at p n ob + obj_len ob \<le> obj_at p n ob' \<or> obj_at p n ob' + obj_len ob' \<le> obj_at p n ob"
proof -
  obtain t k x t' k' x' where ob: "ob = (t, k, x)" "ob' = (t', k', x')"
    by (cases ob; cases ob') auto
  show ?thesis
  proof (cases "k = k'")
    case True
    have "t = t'" using live slub_invD(4) [OF inv, of t t' k] True
      by (auto simp: ob live_def less_nbits)
    with True ne ob have "x < x' \<or> x' < x" by auto
    then have "(int x + 1) * 2 ^ (t + 3) \<le> int x' * 2 ^ (t + 3)
        \<or> (int x' + 1) * 2 ^ (t + 3) \<le> (int x * 2 ^ (t + 3) :: int)"
      by (auto intro: mult_right_mono)
    then show ?thesis using True \<open>t = t'\<close>
      by (simp add: ob obj_at_def obj_addr_def obj_len_def algebra_simps)
  next
    case False
    then have "4096 * (int k + 1) \<le> 4096 * int k' \<or> 4096 * (int k' + 1) \<le> 4096 * int k" by auto
    then show ?thesis using obj_range [OF live(1) [unfolded ob]] obj_range [OF live(2) [unfolded ob]]
      unfolding ob by linarith
  qed
qed

text \<open>What one request gives: nothing, when no block is left, or an object that was free.\<close>

lemma slub_alloc_object:
  assumes inv: "slub_inv p n b" and sz: "0 < sz" "sz \<le> 2048"
    and run: "slub_alloc slub_env_ready (hdr p n) b p sz = Inr (a, b')"
  shows "slub_inv p n b'"
    and "a = 0 \<Longrightarrow> b' = b \<and> (\<forall>k < nbits n. taken p n b k)"
    and "a \<noteq> 0 \<Longrightarrow> \<exists>ob. ob \<notin> live p n b \<and> live p n b' = insert ob (live p n b)
           \<and> a = obj_at p n ob \<and> sz \<le> obj_len ob"
proof -
  obtain t where ty: "find_type (objs slub_env_ready) 0 sz = int t" "t < 9" and fit: "sz \<le> 2 ^ (t + 3)"
    by (rule find_type_fits [OF sz]) blast
  have no_block: "\<forall>k < nbits n. taken p n b k" if "alloc_outcome p n b t = No_block"
    using that by (auto simp: alloc_outcome_def first_below_None split: option.splits if_splits)
  have pos: "obj_addr (hdr p n) t k x \<noteq> 0" for k x
    using obj_addr_pos [OF slub_invD(1) [OF inv], of n t k x] by simp
  have obj: "\<exists>ob. ob \<notin> live p n b \<and> live p n b' = insert ob (live p n b)
           \<and> obj_addr (hdr p n) t k x = obj_at p n ob \<and> sz \<le> obj_len ob"
    if "(t, k, x) \<notin> live p n b" "live p n b' = insert (t, k, x) (live p n b)" for k x
    using that fit by (intro exI [of _ "(t, k, x)"]) (simp add: obj_at_def obj_len_def)
  note outcome = slub_alloc_cases [OF inv sz(1) ty, unfolded run]
  show "slub_inv p n b'" using outcome inv by (auto split: alloc_outcome.splits)
  show "a = 0 \<Longrightarrow> b' = b \<and> (\<forall>k < nbits n. taken p n b k)"
    using outcome no_block pos by (auto split: alloc_outcome.splits)
  show "a \<noteq> 0 \<Longrightarrow> \<exists>ob. ob \<notin> live p n b \<and> live p n b' = insert ob (live p n b)
           \<and> a = obj_at p n ob \<and> sz \<le> obj_len ob"
    using outcome obj by (auto split: alloc_outcome.splits)
qed

fun alloc_all :: "slub_env \<Rightarrow> slub_t \<Rightarrow> bmem \<Rightarrow> addr \<Rightarrow> int list \<Rightarrow> (addr list \<times> bmem) run" where
  "alloc_all env slb b p [] = Inr ([], b)"
| "alloc_all env slb b p (sz # szs) =
     bind_run (slub_alloc env slb b p sz) (\<lambda>(a, b1).
       bind_run (alloc_all env slb b1 p szs) (\<lambda>(as, b2). Inr (a # as, b2)))"

lemma alloc_all_objects:
  assumes "slub_inv p n b" and "\<forall>sz \<in> set szs. 0 < sz \<and> sz \<le> 2048"
    and "alloc_all slub_env_ready (hdr p n) b p szs = Inr (as, b')"
  shows "\<exists>obs. length as = length szs \<and> length obs = length szs \<and> slub_inv p n b'
    \<and> live p n b \<subseteq> live p n b'
    \<and> (\<forall>i < length szs. as ! i \<noteq> 0 \<longrightarrow> obs ! i \<in> live p n b' - live p n b
         \<and> as ! i = obj_at p n (obs ! i) \<and> szs ! i \<le> obj_len (obs ! i))
    \<and> (\<forall>j < length szs. \<forall>i < j. as ! i \<noteq> 0 \<and> as ! j \<noteq> 0 \<longrightarrow> obs ! i \<noteq> obs ! j)"
  using assms
proof (induction szs arbitrary: b as)
  case Nil
  then show ?case by simp
next
  case (Cons sz szs)
  from Cons.prems(3) obtain a b1 as1 where
    head: "slub_alloc slub_env_ready (hdr p n) b p sz = Inr (a, b1)"
    and tail: "alloc_all slub_env_ready (hdr p n) b1 p szs = Inr (as1, b')" and as: "as = a # as1"
    by (auto simp: bind_run_Inr_iff split: prod.splits)
  have sz: "0 < sz" "sz \<le> 2048" using Cons.prems(2) by simp_all
  note one = slub_alloc_object [OF Cons.prems(1) sz head]
  obtain obs where len: "length as1 = length szs" "length obs = length szs" and inv: "slub_inv p n b'"
    and sub: "live p n b1 \<subseteq> live p n b'"
    and obs: "\<forall>i < length szs. as1 ! i \<noteq> 0 \<longrightarrow> obs ! i \<in> live p n b' - live p n b1
         \<and> as1 ! i = obj_at p n (obs ! i) \<and> szs ! i \<le> obj_len (obs ! i)"
    and ne: "\<forall>j < length szs. \<forall>i < j. as1 ! i \<noteq> 0 \<and> as1 ! j \<noteq> 0 \<longrightarrow> obs ! i \<noteq> obs ! j"
    using Cons.IH [OF one(1) _ tail] Cons.prems(2) by auto
  obtain ob where ob: "a \<noteq> 0 \<Longrightarrow> ob \<notin> live p n b \<and> live p n b1 = insert ob (live p n b)
           \<and> a = obj_at p n ob \<and> sz \<le> obj_len ob"
    using one(3) by (cases "a = 0") auto
  have grow: "live p n b \<subseteq> live p n b1" using one(2) ob by (cases "a = 0") auto
  have "\<forall>i < length (sz # szs). as ! i \<noteq> 0 \<longrightarrow> (ob # obs) ! i \<in> live p n b' - live p n b
         \<and> as ! i = obj_at p n ((ob # obs) ! i) \<and> (sz # szs) ! i \<le> obj_len ((ob # obs) ! i)"
    using ob obs sub grow by (auto simp: as less_Suc_eq_0_disj)
  moreover have "\<forall>j < length (sz # szs). \<forall>i < j. as ! i \<noteq> 0 \<and> as ! j \<noteq> 0 \<longrightarrow> (ob # obs) ! i \<noteq> (ob # obs) ! j"
  proof (intro allI impI, elim conjE)
    fix j i assume ij: "j < length (sz # szs)" "i < j" "as ! i \<noteq> 0" "as ! j \<noteq> 0"
    then obtain j' where j': "j = Suc j'" "j' < length szs" by (cases j) auto
    then have "obs ! j' \<notin> live p n b1" using obs ij(4) by (auto simp: as)
    then show "(ob # obs) ! i \<noteq> (ob # obs) ! j" using ob ne ij j' by (cases i) (auto simp: as)
  qed
  ultimately show ?case using len inv sub grow as by (intro exI [of _ "ob # obs"]) auto
qed

section \<open>Requests of one size\<close>

lemma usable_le: "usable n \<le> n"
  by (simp add: usable_def)

lemma octet_less: "0 < n \<Longrightarrow> j < 8 \<Longrightarrow> j < nbits n"
  unfolding nbits_def by presburger

text \<open>The state after \<open>m\<close> requests of one type from a fresh region: the type owns the first
  blocks, filled from the bottom.\<close>

definition blocks_for :: "nat \<Rightarrow> nat \<Rightarrow> nat" where
  "blocks_for t m = m div occ t + (if m mod occ t = 0 then 0 else 1)"

definition filled :: "addr \<Rightarrow> nat \<Rightarrow> bmem \<Rightarrow> nat \<Rightarrow> nat \<Rightarrow> bool" where
  "filled p n b t m \<longleftrightarrow> slub_inv p n b
     \<and> (\<forall>k < nbits n. \<not> taken p n b k \<longleftrightarrow> blocks_for t m \<le> k \<and> k < usable n)
     \<and> (\<forall>k < nbits n. own p n b t k \<longleftrightarrow> k < blocks_for t m)
     \<and> (\<forall>k < n. \<forall>x < occ t. used p n b t k x \<longleftrightarrow> k * occ t + x < m)"

lemma free_idx_filled:
  assumes f: "filled p n b t m" and t: "t < 9" and k: "k < n" "k \<le> m div occ t"
  shows "free_idx (hdr p n) b t k = (if k = m div occ t then Some (m mod occ t) else None)"
proof -
  have c: "0 < occ t" using type_table(3) [OF t] by simp
  have um: "\<And>x. x < occ t \<Longrightarrow> mbit b (um_base (hdr p n) t k) x \<longleftrightarrow> k * occ t + x < m"
    and top: "\<And>x. x < 8 * ulen t \<Longrightarrow> occ t \<le> x \<Longrightarrow> mbit b (um_base (hdr p n) t k) x"
    using f k(1) t unfolding filled_def by (auto simp: used_def dest: slub_invD(5))
  have m: "m = m div occ t * occ t + m mod occ t" by simp
  show ?thesis
  proof (cases "k = m div occ t")
    case True
    have "m mod occ t < 8 * ulen t" using type_table(4) [OF t] c mod_less_divisor [OF c, of m] by linarith
    moreover have "\<not> mbit b (um_base (hdr p n) t k) (m mod occ t)"
      using um [of "m mod occ t"] True c by simp
    moreover have "mbit b (um_base (hdr p n) t k) y" if "y < m mod occ t" for y
    proof -
      have "y < occ t" using that mod_less_divisor [OF c, of m] by linarith
      then show ?thesis using um [of y] True that m by simp
    qed
    ultimately show ?thesis using True by (simp add: free_idx_def first_below_Some)
  next
    case False
    then have "(k + 1) * occ t \<le> m div occ t * occ t" using k(2) by (intro mult_le_mono1) simp
    then have "mbit b (um_base (hdr p n) t k) x" if "x < 8 * ulen t" for x
      using top [OF that] um [of x] m by (cases "x < occ t") auto
    then show ?thesis using False by (auto simp: free_idx_def first_below_None)
  qed
qed

lemma existed_at_filled:
  assumes f: "filled p n b t m" and t: "t < 9" and m: "blocks_for t m \<le> 8" "blocks_for t m \<le> n"
  shows "existed_at (hdr p n) b t =
    (if m mod occ t = 0 then None else Some (m div occ t, m mod occ t))"
    and "first_below (\<lambda>i. b (type_bitmap (hdr p n) t + int i) \<noteq> 0) ((n + 7) div 8) =
      (if m = 0 then None else Some 0)"
proof -
  let ?tb = "type_bitmap (hdr p n) t" and ?B = "(n + 7) div 8" and ?c = "blocks_for t m"
  have c: "0 < occ t" using type_table(3) [OF t] by simp
  have own: "mbit b ?tb k \<longleftrightarrow> k < ?c" if "k < nbits n" for k
    using f that unfolding filled_def by (simp add: own_def)
  have zero: "?c = 0 \<longleftrightarrow> m = 0"
    using div_mult_mod_eq [of m "occ t"] by (cases "m = 0") (auto simp: blocks_for_def)
  show first: "first_below (\<lambda>i. b (?tb + int i) \<noteq> 0) ?B = (if m = 0 then None else Some 0)"
  proof (cases "m = 0")
    case True
    then have "\<not> (\<exists>j<8. mbit b ?tb (i * 8 + j))" if "i < ?B" for i
      using own nbits_bound [OF that] zero by auto
    with True show ?thesis by (simp add: first_octet first_below_None)
  next
    case False
    then have "0 < ?c" using zero by simp
    moreover from this have "0 < ?B" "0 < nbits n" using m(2) by (auto simp: nbits_def)
    ultimately have "mbit b ?tb 0" using own [of 0] by simp
    then show ?thesis using False \<open>0 < ?B\<close>
      by (auto simp: first_octet first_below_Some intro!: exI [of _ "0::nat"])
  qed
  have "mbit b ?tb j \<and> free_idx (hdr p n) b t j \<noteq> None \<longleftrightarrow> m mod occ t \<noteq> 0 \<and> j = m div occ t"
    if "j < 8" "m \<noteq> 0" for j
  proof (cases "j < ?c")
    case True
    then have j: "j < n" "j \<le> m div occ t" using m by (auto simp: blocks_for_def split: if_splits)
    then have "mbit b ?tb j" using own [of j] True by (simp add: less_nbits)
    moreover have "m mod occ t \<noteq> 0" if "j = m div occ t" using True that
      by (simp add: blocks_for_def split: if_splits)
    ultimately show ?thesis using free_idx_filled [OF f t j] by auto
  next
    case False
    then have "j < nbits n \<Longrightarrow> \<not> mbit b ?tb j" using own [of j] by simp
    moreover have "j < nbits n" using that zero m(2) by (intro octet_less) auto
    ultimately show ?thesis using False by (auto simp: blocks_for_def)
  qed
  then have "first_below (\<lambda>j. mbit b ?tb (0 * 8 + j) \<and> free_idx (hdr p n) b t (0 * 8 + j) \<noteq> None) 8
      = first_below (\<lambda>j. m mod occ t \<noteq> 0 \<and> j = m div occ t) 8" if "m \<noteq> 0"
    using that by (intro first_below_cong) simp
  moreover have "m mod occ t \<noteq> 0 \<Longrightarrow> m div occ t < 8 \<and> m div occ t < n"
    using m by (simp add: blocks_for_def)
  ultimately show "existed_at (hdr p n) b t =
      (if m mod occ t = 0 then None else Some (m div occ t, m mod occ t))"
    using free_idx_filled [OF f t, of "m div occ t"]
    by (auto simp: existed_at_def hdr_fields first first_below_unique)
qed

lemma filled_step:
  assumes f: "filled p n b t m" and t: "t < 9" and n: "0 < n" and m: "m < min 8 (usable n) * occ t"
  shows "alloc_outcome p n b t =
    (if m mod occ t = 0 then New_block (m div occ t) 0 else From_block (m div occ t) (m mod occ t))"
proof -
  have c: "0 < occ t" using type_table(3) [OF t] by simp
  have q: "m div occ t < min 8 (usable n)" using m by (rule less_mult_imp_div_less)
  then have lim: "blocks_for t m \<le> 8" "blocks_for t m \<le> n"
    by (auto simp: blocks_for_def usable_def split: if_splits)
  note at = existed_at_filled [OF f t lim]
  show ?thesis
  proof (cases "m mod occ t = 0")
    case True
    then have bl: "blocks_for t m = m div occ t" by (simp add: blocks_for_def)
    have "m div occ t < nbits n" using q usable_le [of n] by (intro less_nbits) linarith
    then have "first_below (\<lambda>k. \<not> taken p n b k) (nbits n) = Some (m div occ t)"
      using f q bl by (auto simp: filled_def first_below_Some)
    then show ?thesis using at q True by (auto simp: alloc_outcome_def div_eq_0_iff)
  next
    case False
    with at show ?thesis by (simp add: alloc_outcome_def)
  qed
qed

lemma filled_full:
  assumes f: "filled p n b t (min 8 (usable n) * occ t)" and t: "t < 9" and n: "0 < n"
  shows "alloc_outcome p n b t = (if usable n \<le> 8 then No_block else Scan_miss)"
proof -
  let ?m = "min 8 (usable n) * occ t"
  have c: "0 < occ t" using type_table(3) [OF t] by simp
  then have bl: "blocks_for t ?m = min 8 (usable n)" by (simp add: blocks_for_def)
  then have lim: "blocks_for t ?m \<le> 8" "blocks_for t ?m \<le> n" by (auto simp: usable_def)
  note at = existed_at_filled [OF f t lim]
  have us: "usable n \<le> nbits n" using usable_le [of n] unfolding nbits_def by linarith
  show ?thesis
  proof (cases "usable n \<le> 8")
    case True
    then have "first_below (\<lambda>k. \<not> taken p n b k) (nbits n) = None"
      using f bl by (auto simp: filled_def first_below_None)
    with True at show ?thesis by (simp add: alloc_outcome_def)
  next
    case False
    then have "first_below (\<lambda>k. \<not> taken p n b k) (nbits n) = Some 8"
      using f bl us by (auto simp: filled_def first_below_Some)
    moreover have "?m \<noteq> 0" using False c by simp
    ultimately show ?thesis using False at by (simp add: alloc_outcome_def)
  qed
qed

lemma filled_next:
  assumes f: "filled p n b t m" and t: "t < 9" and n: "0 < n" and m: "m < min 8 (usable n) * occ t"
    and sz: "0 < sz" "find_type (objs slub_env_ready) 0 sz = int t"
  shows "\<exists>b'. slub_alloc slub_env_ready (hdr p n) b p sz
      = Inr (block (hdr p n) + int m * 2 ^ (t + 3), b') \<and> filled p n b' t (Suc m)"
proof -
  let ?q = "m div occ t" and ?r = "m mod occ t"
  have c: "1 < occ t" using type_table(3) [OF t] by simp
  have inv: "slub_inv p n b" using f by (simp add: filled_def)
  have q: "?q < min 8 (usable n)" using m by (rule less_mult_imp_div_less)
  have kn: "?q < n" using q by (auto simp: usable_def split: if_splits)
  have r: "?r < occ t" using c by simp
  have "int (occ t) * 2 ^ (t + 3) = int 4096"
    unfolding type_table(2) [OF t, symmetric] by simp
  then have "int ?q * (int (occ t) * 2 ^ (t + 3)) + int ?r * 2 ^ (t + 3) = int (?q * 4096) + int ?r * 2 ^ (t + 3)"
    by simp
  moreover have "int m = int ?q * int (occ t) + int ?r"
    by (simp flip: of_nat_mult of_nat_add)
  ultimately have addr: "obj_addr (hdr p n) t ?q ?r = block (hdr p n) + int m * 2 ^ (t + 3)"
    by (simp add: obj_addr_def algebra_simps)
  obtain b' where run: "slub_alloc slub_env_ready (hdr p n) b p sz = Inr (obj_addr (hdr p n) t ?q ?r, b')"
    and inv': "slub_inv p n b'" and live': "live p n b' = insert (t, ?q, ?r) (live p n b)"
    and own': "if ?r = 0 then block_given p n b b' t ?q else same_blocks p n b b'"
    using slub_alloc_cases [OF inv sz t] filled_step [OF f t n m] by (cases "?r = 0") auto
  have bl: "blocks_for t (Suc m) = ?q + 1" "blocks_for t m = (if ?r = 0 then ?q else ?q + 1)"
    using c by (auto simp: blocks_for_def div_Suc mod_Suc split: if_splits)
  have t1: "\<not> taken p n b' k \<longleftrightarrow> blocks_for t (Suc m) \<le> k \<and> k < usable n"
    and o1: "own p n b' t k \<longleftrightarrow> k < blocks_for t (Suc m)" if "k < nbits n" for k
    using own' f that t unfolding filled_def bl
    by (auto simp: same_blocks_def block_given_def split: if_splits)
  have "used p n b' t k x \<longleftrightarrow> k * occ t + x < Suc m" if k: "k < n" and x: "x < occ t" for k x
  proof (cases "k < blocks_for t (Suc m)")
    case True
    have "used p n b t k x \<longleftrightarrow> k * occ t + x < m" using f k x by (simp add: filled_def)
    then have "(t, k, x) \<in> live p n b \<longleftrightarrow> k * occ t + x < m"
      using slub_invD(6) [OF inv t k _ x] t k x by (auto simp: live_def)
    moreover have "(t, k, x) \<in> live p n b' \<longleftrightarrow> used p n b' t k x"
      using True o1 [OF less_nbits [OF k]] t k x by (simp add: live_def)
    moreover have "k * occ t + x = m \<longleftrightarrow> k = ?q \<and> x = ?r"
      using x div_mult_mod_eq [of m "occ t"] by auto
    ultimately show ?thesis using live' by auto
  next
    case False
    then have "\<not> used p n b' t k x"
      using slub_invD(6) [OF inv' t k _ x] o1 [OF less_nbits [OF k]] by simp
    moreover have "(?q + 1) * occ t \<le> k * occ t" using False by (intro mult_le_mono1) (simp add: bl)
    then have "Suc m \<le> k * occ t + x" using r div_mult_mod_eq [of m "occ t"]
      unfolding add_mult_distrib by linarith
    ultimately show ?thesis by simp
  qed
  with t1 o1 inv' have "filled p n b' t (Suc m)" by (simp add: filled_def)
  with run addr show ?thesis by auto
qed

lemma alloc_all_append:
  "alloc_all env slb b p (xs @ ys) = bind_run (alloc_all env slb b p xs) (\<lambda>(as, b1).
     bind_run (alloc_all env slb b1 p ys) (\<lambda>(as', b2). Inr (as @ as', b2)))"
proof (induction xs arbitrary: b)
  case Nil
  then show ?case by (cases "alloc_all env slb b p ys") auto
next
  case (Cons x xs)
  then show ?case
    by (cases "slub_alloc env slb b p x") (auto simp: case_prod_unfold)
qed

lemma alloc_same_size:
  assumes f: "filled p n b t 0" and t: "t < 9" and n: "0 < n"
    and sz: "0 < sz" "find_type (objs slub_env_ready) 0 sz = int t" and m: "m \<le> min 8 (usable n) * occ t"
  shows "\<exists>b'. alloc_all slub_env_ready (hdr p n) b p (replicate m sz)
      = Inr (map (\<lambda>i. block (hdr p n) + int i * 2 ^ (t + 3)) [0..<m], b') \<and> filled p n b' t m"
  using m
proof (induction m)
  case 0
  then show ?case using f by simp
next
  case (Suc m)
  then obtain b1 where b1: "alloc_all slub_env_ready (hdr p n) b p (replicate m sz)
      = Inr (map (\<lambda>i. block (hdr p n) + int i * 2 ^ (t + 3)) [0..<m], b1)" and f1: "filled p n b1 t m"
    by auto
  from filled_next [OF f1 t n _ sz] Suc.prems obtain b2 where
    "slub_alloc slub_env_ready (hdr p n) b1 p sz = Inr (block (hdr p n) + int m * 2 ^ (t + 3), b2)"
    "filled p n b2 t (Suc m)" by auto
  then show ?case
    using b1 unfolding replicate_Suc replicate_append_same [symmetric] by (simp add: alloc_all_append)
qed

lemma slub_format_filled:
  assumes "0 < p" and "2 * 4096 \<le> sz" and "env = slub_env_init \<or> env = slub_env_ready" and "t < 9"
  obtains b' where "slub_format env b p sz = Inr (None, slub_env_ready, Some (hdr p (nblocks_of sz)), b')"
    and "filled p (nblocks_of sz) b' t 0"
proof -
  from slub_format_inv [OF assms(1-3), of b] obtain b' where
    run: "slub_format env b p sz = Inr (None, slub_env_ready, Some (hdr p (nblocks_of sz)), b')"
    and inv: "slub_inv p (nblocks_of sz) b'"
    and taken: "\<And>k. k < nbits (nblocks_of sz) \<Longrightarrow> \<not> taken p (nblocks_of sz) b' k \<longleftrightarrow> k < usable (nblocks_of sz)"
    and own: "\<And>k. k < nbits (nblocks_of sz) \<Longrightarrow> \<not> own p (nblocks_of sz) b' t k"
    using assms(4) by auto
  have "blocks_for t 0 = 0" by (simp add: blocks_for_def)
  then have "filled p (nblocks_of sz) b' t 0"
    unfolding filled_def using inv taken own slub_invD(6) [OF inv assms(4)] by (simp add: less_nbits)
  with run show ?thesis by (rule that)
qed

section \<open>Properties\<close>

text \<open>C17. Whatever sequence of requests is made of a freshly formatted region, the objects
  it returns lie inside the blocks and never overlap.\<close>

theorem slub_objects_disjoint:
  assumes "0 < p" and "2 * 4096 \<le> bytes" and "env = slub_env_init \<or> env = slub_env_ready"
    and "slub_format env b p bytes = Inr (r, env', Some slb, b1)"
    and "\<forall>sz \<in> set szs. 0 < sz \<and> sz \<le> 2048"
    and "alloc_all env' slb b1 p szs = Inr (as, b2)"
  shows "length as = length szs
    \<and> (\<forall>i < length as. as ! i \<noteq> 0 \<longrightarrow>
          block slb \<le> as ! i \<and> as ! i + szs ! i \<le> block slb + int (BLOCK_SIZE * nblocks slb))
    \<and> (\<forall>j < length as. \<forall>i < j. as ! i \<noteq> 0 \<and> as ! j \<noteq> 0 \<longrightarrow>
          as ! i + szs ! i \<le> as ! j \<or> as ! j + szs ! j \<le> as ! i)"
proof -
  define n where "n = nblocks_of bytes"
  from slub_format_inv [OF assms(1-3), of b, folded n_def] assms(4)
  have env': "env' = slub_env_ready" and slb: "slb = hdr p n" and inv: "slub_inv p n b1"
    by auto
  from alloc_all_objects [OF inv assms(5) assms(6) [unfolded env' slb]] obtain obs where
    len: "length as = length szs" and inv2: "slub_inv p n b2"
    and ob: "\<forall>i < length szs. as ! i \<noteq> 0 \<longrightarrow> obs ! i \<in> live p n b2 - live p n b1
         \<and> as ! i = obj_at p n (obs ! i) \<and> szs ! i \<le> obj_len (obs ! i)"
    and ne: "\<forall>j < length szs. \<forall>i < j. as ! i \<noteq> 0 \<and> as ! j \<noteq> 0 \<longrightarrow> obs ! i \<noteq> obs ! j"
    by blast
  have "block slb \<le> as ! i \<and> as ! i + szs ! i \<le> block slb + int (BLOCK_SIZE * nblocks slb)"
    if "i < length as" "as ! i \<noteq> 0" for i
  proof -
    obtain t k x where o: "obs ! i = (t, k, x)" by (cases "obs ! i")
    have "(t, k, x) \<in> live p n b2" using ob that len o by (metis DiffD1)
    note range = obj_range [OF this]
    have "nblocks slb = n" by (simp add: slb hdr_fields)
    moreover have "as ! i = obj_at p n (t, k, x)" "szs ! i \<le> obj_len (t, k, x)"
      using ob that len o by (metis)+
    ultimately show ?thesis using range by (simp add: slb BLOCK_SIZE_def)
  qed
  moreover have "as ! i + szs ! i \<le> as ! j \<or> as ! j + szs ! j \<le> as ! i"
    if "j < length as" "i < j" "as ! i \<noteq> 0" "as ! j \<noteq> 0" for i j
  proof -
    have ij: "i < length szs" "j < length szs" using that len by simp_all
    have "obs ! i \<in> live p n b2" "obs ! j \<in> live p n b2" "obs ! i \<noteq> obs ! j"
      using ob ne ij that by blast+
    from objects_apart [OF inv2 this] show ?thesis using ob ij that by (smt (verit, best))
  qed
  ultimately show ?thesis using len by blast
qed

text \<open>C19. Requests of one bytes fill the blocks from the bottom, one object after the other.
  After eight blocks the next request fails an assertion if the region has more; with at most
  eight usable blocks it returns \<open>NULL\<close>.\<close>

theorem slub_fill_order:
  assumes "0 < p" and "2 * 4096 \<le> bytes" and "env = slub_env_init \<or> env = slub_env_ready"
    and "0 < sz" and "sz \<le> 2048"
  shows "\<exists>b1 t. slub_format env b p bytes = Inr (None, slub_env_ready, Some (hdr p (nblocks_of bytes)), b1)
    \<and> find_type (objs slub_env_ready) 0 sz = int t \<and> sz \<le> 2 ^ (t + 3) \<and> t < 9
    \<and> (let n = nblocks_of bytes; N = min 8 (usable n) * (4096 div 2 ^ (t + 3));
           addrs = map (\<lambda>i. p + 4096 + int i * 2 ^ (t + 3));
           alloc = alloc_all slub_env_ready (hdr p n) b1 p
       in (\<forall>m \<le> N. \<exists>b2. alloc (replicate m sz) = Inr (addrs [0..<m], b2))
        \<and> (if usable n \<le> 8 then \<exists>b2. alloc (replicate (Suc N) sz) = Inr (addrs [0..<N] @ [0], b2)
           else alloc (replicate (Suc N) sz) = Inl Assert_failed))"
proof -
  define n where "n = nblocks_of bytes"
  have "2 \<le> bytes div 4096" using assms(2) by linarith
  then have n: "0 < n" by (simp add: n_def nblocks_of_def)
  obtain t where ty: "find_type (objs slub_env_ready) 0 sz = int t" "t < 9" and fit: "sz \<le> 2 ^ (t + 3)"
    by (rule find_type_fits [OF assms(4,5)]) blast
  obtain b1 where run: "slub_format env b p bytes = Inr (None, slub_env_ready, Some (hdr p n), b1)"
    and f: "filled p n b1 t 0"
    by (rule slub_format_filled [OF assms(1-3) ty(2), of b, folded n_def])
  have c: "4096 div 2 ^ (t + 3) = occ t"
    unfolding type_table(2) [OF ty(2), symmetric] by simp
  let ?N = "min 8 (usable n) * occ t"
  note same = alloc_same_size [OF f ty(2) n assms(4) ty(1), unfolded hdr_fields]
  obtain b2 where b2: "alloc_all slub_env_ready (hdr p n) b1 p (replicate ?N sz)
      = Inr (map (\<lambda>i. p + 4096 + int i * 2 ^ (t + 3)) [0..<?N], b2)" and f2: "filled p n b2 t ?N"
    using same [of ?N] by auto
  have inv2: "slub_inv p n b2" using f2 by (simp add: filled_def)
  have "if usable n \<le> 8 then slub_alloc slub_env_ready (hdr p n) b2 p sz = Inr (0, b2)
      else slub_alloc slub_env_ready (hdr p n) b2 p sz = Inl Assert_failed"
    using slub_alloc_cases [OF inv2 assms(4) ty] filled_full [OF f2 ty(2) n] by auto
  then have full: "if usable n \<le> 8 then \<exists>b3. alloc_all slub_env_ready (hdr p n) b1 p (replicate (Suc ?N) sz)
         = Inr (map (\<lambda>i. p + 4096 + int i * 2 ^ (t + 3)) [0..<?N] @ [0], b3)
      else alloc_all slub_env_ready (hdr p n) b1 p (replicate (Suc ?N) sz) = Inl Assert_failed"
    unfolding replicate_Suc replicate_append_same [symmetric] alloc_all_append b2
    by (auto split: if_splits)
  have "\<forall>m \<le> ?N. \<exists>b2. alloc_all slub_env_ready (hdr p n) b1 p (replicate m sz)
      = Inr (map (\<lambda>i. p + 4096 + int i * 2 ^ (t + 3)) [0..<m], b2)"
    using same by blast
  with full run ty fit show ?thesis unfolding n_def [symmetric] Let_def c [symmetric] by blast
qed

theorem slub_objects_disjoint_witness:
  "\<exists>b1 b2. slub_format slub_env_init (\<lambda>_. 0) 4096 12288 = Inr (None, slub_env_ready, Some (hdr 4096 3), b1)
    \<and> alloc_all slub_env_ready (hdr 4096 3) b1 4096 [100, 100, 100] = Inr ([8192, 8320, 8448], b2)
    \<and> (8192 + 100 \<le> (8320::int))"
proof -
  have n: "nblocks_of 12288 = 3" by (simp add: nblocks_of_def)
  obtain b1 where run: "slub_format slub_env_init (\<lambda>_. 0) 4096 12288
      = Inr (None, slub_env_ready, Some (hdr 4096 3), b1)" and f: "filled 4096 3 b1 4 0"
    by (rule slub_format_filled [of 4096 12288 slub_env_init 4 "\<lambda>_. 0", unfolded n]) simp_all
  have ty: "find_type (objs slub_env_ready) 0 100 = int 4" by (simp add: find_type_ready)
  have "3 \<le> min 8 (usable 3) * occ 4" by (simp add: usable_def occ_def slub_env_ready_def)
  from alloc_same_size [OF f _ _ _ ty this] obtain b2 where
    b2: "alloc_all slub_env_ready (hdr 4096 3) b1 4096 [100, 100, 100] = Inr ([8192, 8320, 8448], b2)"
    by (auto simp: hdr_fields upt_rec eval_nat_numeral)
  have "8192 + 100 \<le> (8320::int)"
    using slub_objects_disjoint [OF _ _ _ run _ b2] by (auto simp: hdr_fields nth_Cons')
  with run b2 show ?thesis by blast
qed

theorem slub_fill_order_witness:
  "\<exists>b1. slub_format slub_env_init (\<lambda>_. 0) 4096 (10 * 4096)
      = Inr (None, slub_env_ready, Some (hdr 4096 10), b1)
    \<and> alloc_all slub_env_ready (hdr 4096 10) b1 4096 (replicate 17 2048) = Inl Assert_failed"
proof -
  have n: "nblocks_of (10 * 4096) = 10" by (simp add: nblocks_of_def)
  have ty: "find_type (objs slub_env_ready) 0 2048 = int 8" by (simp add: find_type_ready)
  show ?thesis
    using slub_fill_order [of 4096 "10 * 4096" slub_env_init 2048 "\<lambda>_. 0"]
    unfolding n Let_def by (auto simp: ty usable_def simp del: replicate.simps alloc_all.simps)
qed

text \<open>C26. Formatting a region of at least two blocks establishes the invariant with no live
  object and no owned block; all blocks can be handed out except the eight of the last byte
  when their number is a multiple of 8.  The value \<open>slub_format\<close> returns is never set on this
  path; a smaller region is rejected with -1 and left alone.\<close>

theorem slub_format_establishes:
  assumes "0 < p" and "0 < bytes" and "env = slub_env_init \<or> env = slub_env_ready"
  shows "if bytes < 2 * 4096 then slub_format env b p bytes = Inr (Some (-1), env, None, b)
    else (\<exists>b'. let n = nblocks_of bytes in
        slub_format env b p bytes = Inr (None, slub_env_ready, Some (hdr p n), b')
        \<and> slub_inv p n b' \<and> live p n b' = {}
        \<and> (\<forall>k < nbits n. \<not> taken p n b' k \<longleftrightarrow> k < usable n)
        \<and> (\<forall>t < 9. \<forall>k < nbits n. \<not> own p n b' t k))"
  using slub_format_inv [OF assms(1) _ assms(3), of bytes b] slub_format_small [OF assms(1,2), of env b]
  by (simp add: Let_def)

theorem slub_format_establishes_witness:
  "slub_format slub_env_init (\<lambda>_. 0) 4096 8191 = Inr (Some (-1), slub_env_init, None, \<lambda>_. 0)
   \<and> (\<exists>b'. slub_format slub_env_init (\<lambda>_. 0) 4096 12288
        = Inr (None, slub_env_ready, Some (hdr 4096 3), b') \<and> slub_inv 4096 3 b')"
  using slub_format_establishes [of 4096 8191 slub_env_init "\<lambda>_. 0"]
    slub_format_establishes [of 4096 12288 slub_env_init "\<lambda>_. 0"]
  by (auto simp: nblocks_of_def Let_def)

text \<open>C18. From any state that satisfies the invariant, a request of 1 to 2048 bytes takes an
  object of the smallest type that fits and that was not live, or returns \<open>NULL\<close> and changes
  nothing when every block is taken, or fails the last assertion of \<open>slub_alloc\<close>, which needs
  more than eight blocks.\<close>

theorem slub_alloc_behaviour:
  assumes "slub_inv p n b" and "0 < sz" and "sz \<le> 2048"
  shows "(\<exists>t k x b'. slub_alloc slub_env_ready (hdr p n) b p sz = Inr (obj_addr (hdr p n) t k x, b')
        \<and> t < 9 \<and> k < n \<and> x < occ t \<and> sz \<le> 2 ^ (t + 3) \<and> (\<forall>u < t. 2 ^ (u + 3) < sz)
        \<and> (t, k, x) \<notin> live p n b \<and> live p n b' = insert (t, k, x) (live p n b) \<and> slub_inv p n b')
    \<or> (slub_alloc slub_env_ready (hdr p n) b p sz = Inr (0, b) \<and> (\<forall>k < nbits n. taken p n b k))
    \<or> (slub_alloc slub_env_ready (hdr p n) b p sz = Inl Assert_failed \<and> 8 < n)"
proof -
  obtain t where ty: "find_type (objs slub_env_ready) 0 sz = int t" "t < 9" and fit: "sz \<le> 2 ^ (t + 3)"
    and small: "\<And>u. u < t \<Longrightarrow> 2 ^ (u + 3) < sz"
    by (rule find_type_fits [OF assms(2,3)]) blast
  have no_block: "\<forall>k < nbits n. taken p n b k" if "alloc_outcome p n b t = No_block"
    using that by (auto simp: alloc_outcome_def first_below_None split: option.splits if_splits)
  have miss: "8 < n" if out: "alloc_outcome p n b t = Scan_miss"
  proof -
    obtain k i where k: "k < nbits n" "\<not> taken p n b k" and i: "i < k div 8"
      using out that
      by (auto simp: alloc_outcome_def first_below_Some not_le split: option.splits if_splits)
    have "k < n" by (rule slub_invD(2) [OF assms(1) k])
    with i show ?thesis by linarith
  qed
  let ?object = "\<exists>t k x b'. slub_alloc slub_env_ready (hdr p n) b p sz = Inr (obj_addr (hdr p n) t k x, b')
        \<and> t < 9 \<and> k < n \<and> x < occ t \<and> sz \<le> 2 ^ (t + 3) \<and> (\<forall>u < t. 2 ^ (u + 3) < sz)
        \<and> (t, k, x) \<notin> live p n b \<and> live p n b' = insert (t, k, x) (live p n b) \<and> slub_inv p n b'"
  have obj: ?object
    if "k < n" "x < occ t" "(t, k, x) \<notin> live p n b"
      "\<exists>b'. slub_alloc slub_env_ready (hdr p n) b p sz = Inr (obj_addr (hdr p n) t k x, b')
        \<and> slub_inv p n b' \<and> live p n b' = insert (t, k, x) (live p n b)" for k x
    using that fit small ty(2) by blast
  show ?thesis
  proof (cases "alloc_outcome p n b t")
    case (From_block k x)
    with slub_alloc_cases [OF assms(1,2) ty] have ?object by (intro obj [of k x]) auto
    then show ?thesis ..
  next
    case (New_block k x)
    with slub_alloc_cases [OF assms(1,2) ty] have ?object by (intro obj [of k x]) auto
    then show ?thesis ..
  next
    case No_block
    with slub_alloc_cases [OF assms(1,2) ty] no_block show ?thesis by auto
  next
    case Scan_miss
    with slub_alloc_cases [OF assms(1,2) ty] miss show ?thesis by auto
  qed
qed

theorem slub_alloc_behaviour_witness:
  "\<exists>b. slub_inv 4096 3 b \<and> \<not> slub_alloc slub_env_ready (hdr 4096 3) b 4096 40 = Inl Assert_failed"
proof -
  obtain b where inv: "slub_inv 4096 3 b"
    using slub_format_inv [of 4096 12288 slub_env_init "\<lambda>_. 0"] by (auto simp: nblocks_of_def)
  then show ?thesis using slub_alloc_behaviour [OF inv, of 40] by auto
qed

text \<open>A region of 8 blocks is accepted by \<open>slub_format\<close> but can never serve a request:
  the whole byte of the top bitmap is marked as taken.\<close>

theorem slub_eight_blocks_unusable:
  assumes "0 < p" and "8 * 4096 \<le> bytes" and "bytes < 9 * 4096" and "0 < sz" and "sz \<le> 2048"
  shows "\<exists>b'. slub_format slub_env_init b p bytes = Inr (None, slub_env_ready, Some (hdr p 8), b')
    \<and> slub_alloc slub_env_ready (hdr p 8) b' p sz = Inr (0, b')"
proof -
  have "bytes div 4096 = 8" using assms(2,3) by linarith
  then have n: "nblocks_of bytes = 8" by (simp add: nblocks_of_def)
  obtain t where ty: "find_type (objs slub_env_ready) 0 sz = int t" "t < 9"
    by (rule find_type_fits [OF assms(4,5)]) blast
  obtain b' where run: "slub_format slub_env_init b p bytes = Inr (None, slub_env_ready, Some (hdr p 8), b')"
    and f: "filled p 8 b' t 0"
    by (rule slub_format_filled [OF assms(1) _ _ ty(2), of bytes slub_env_init b, unfolded n])
      (use assms(2) in simp_all)
  have "alloc_outcome p 8 b' t = No_block"
    using filled_full [of p 8 b' t] f ty(2) by (simp add: usable_def)
  moreover have "slub_inv p 8 b'" using f by (simp add: filled_def)
  ultimately show ?thesis using slub_alloc_cases [OF _ assms(4) ty, of p 8 b'] run by auto
qed

theorem slub_eight_blocks_unusable_witness:
  "\<exists>b'. slub_alloc slub_env_ready (hdr 4096 8) b' 4096 8 = Inr (0, b')"
  using slub_eight_blocks_unusable [of 4096 "8 * 4096" 8] by auto

text \<open>The header page is not counted: the last of the \<open>n\<close> blocks that a region of \<open>n\<close>
  pages is divided into lies behind the end of the region, and a run of requests of one size
  reaches it.\<close>

theorem slub_last_block_outside:
  assumes "0 < p" and "2 \<le> n" and "n \<le> 7" and "0 < sz" and "sz \<le> 2048"
  shows "\<exists>b1 m as b2. slub_format slub_env_init b p (int n * 4096)
        = Inr (None, slub_env_ready, Some (hdr p n), b1)
    \<and> alloc_all slub_env_ready (hdr p n) b1 p (replicate m sz) = Inr (as, b2)
    \<and> (\<exists>a \<in> set as. p + int n * 4096 \<le> a)"
proof -
  have n: "nblocks_of (int n * 4096) = n" using assms(3) by (simp add: nblocks_of_def)
  obtain t where ty: "find_type (objs slub_env_ready) 0 sz = int t" "t < 9"
    by (rule find_type_fits [OF assms(4,5)]) blast
  obtain b1 where run: "slub_format slub_env_init b p (int n * 4096)
      = Inr (None, slub_env_ready, Some (hdr p n), b1)" and f: "filled p n b1 t 0"
    by (rule slub_format_filled [OF assms(1) _ _ ty(2), of "int n * 4096" slub_env_init b, unfolded n])
      (use assms(2) in simp_all)
  let ?m = "(n - 1) * occ t"
  have c: "0 < occ t" using type_table(3) [OF ty(2)] by simp
  have us: "min 8 (usable n) = n" using assms(2,3) by (auto simp: usable_def)
  have "(n - 1 + 1) * occ t = ?m + occ t" by (simp only: add_mult_distrib)
  then have "Suc ?m \<le> n * occ t" using assms(2) c by simp
  from alloc_same_size [OF f ty(2) _ assms(4) ty(1), unfolded us, OF _ this] assms(2) obtain b2 where
    b2: "alloc_all slub_env_ready (hdr p n) b1 p (replicate (Suc ?m) sz)
      = Inr (map (\<lambda>i. block (hdr p n) + int i * 2 ^ (t + 3)) [0..<Suc ?m], b2)" by auto
  have "int (n - 1) * (int (occ t) * 2 ^ (t + 3)) = int (n - 1) * int 4096"
    unfolding type_table(2) [OF ty(2), symmetric] by simp
  then have "block (hdr p n) + int ?m * 2 ^ (t + 3) = p + int n * 4096"
    using assms(2) by (simp add: hdr_fields of_nat_diff algebra_simps)
  then have "\<exists>a \<in> set (map (\<lambda>i. block (hdr p n) + int i * 2 ^ (t + 3)) [0..<Suc ?m]). p + int n * 4096 \<le> a"
    by (intro bexI [of _ "block (hdr p n) + int ?m * 2 ^ (t + 3)"]) auto
  with run b2 show ?thesis by blast
qed

theorem slub_last_block_outside_witness:
  "\<exists>b1 m as b2. slub_format slub_env_init (\<lambda>_. 0) 4096 12288 = Inr (None, slub_env_ready, Some (hdr 4096 3), b1)
    \<and> alloc_all slub_env_ready (hdr 4096 3) b1 4096 (replicate m 2048) = Inr (as, b2)
    \<and> (\<exists>a \<in> set as. 16384 \<le> a)"
  using slub_last_block_outside [of 4096 3 2048 "\<lambda>_. 0"] by simp

text \<open>The bitmaps end before the first block exactly when there are at most 30 blocks; with
  the 31 that \<open>slub_format\<close> allows they run seven bytes into it.\<close>

theorem slub_metadata_fits:
  "usemap (hdr p n) + int (usemap_size (hdr p n) * n) \<le> block (hdr p n) \<longleftrightarrow> n \<le> 30"
proof (cases "n \<le> 30")
  case True
  then have "(n + 7) div 8 \<le> 4" by linarith
  with True show ?thesis unfolding hdr_fields by simp
next
  case False
  then have "4 \<le> (n + 7) div 8" by linarith
  with False show ?thesis unfolding hdr_fields by simp
qed

end
