(* ===== verification/IntrusiveList.thy ===== *)
theory IntrusiveList
  imports Prelude
begin

text \<open>
  The intrusive lists of \<open>include/list.h\<close>: the singly linked list and the stack made of
  \<open>list_t\<close> cells, and the circular doubly linked list \<open>dlist_t\<close>.

  A \<open>list_t\<close> is one pointer-sized cell inside the object that is on the list.  It holds the
  address of the next object's cell, or 0.  A list is named by the address of a cell that
  holds its first node (\<open>list_t **\<close>).  \<open>slist m pp xs\<close> says that the cell \<open>pp\<close> starts a
  list whose nodes are exactly \<open>xs\<close>.
\<close>

section \<open>Singly linked lists\<close>

definition list_add :: "mem \<Rightarrow> addr \<Rightarrow> addr \<Rightarrow> mem" where
  "list_add m head node =
     (let m1 = m(node := m head)
      in m1(head := node))"

definition list_remove :: "mem \<Rightarrow> addr \<Rightarrow> mem" where
  "list_remove m node =
     (let p_del = m node;
          m1 = m(node := m (m node))
      in m1(p_del := 0))"

definition add_node :: "mem \<Rightarrow> addr \<Rightarrow> addr \<Rightarrow> mem" where
  "add_node m pp_list p_node =
     (let p_tmp = m pp_list;
          m1 = m(p_node := p_tmp)
      in m1(pp_list := p_node))"

text \<open>The \<open>while\<close> loop of \<open>rm_node\<close>; \<open>None\<close> when it never ends.\<close>

partial_function (option) rm_node_loop :: "mem \<Rightarrow> addr \<Rightarrow> addr \<Rightarrow> (mem \<times> bool) option" where
  "rm_node_loop m pp_curr p_node =
     (if m pp_curr = 0 then Some (m, False)
      else if p_node = m pp_curr then
        Some ((m(pp_curr := m p_node))(p_node := 0), True)
      else rm_node_loop m (m pp_curr) p_node)"

definition rm_node :: "mem \<Rightarrow> addr \<Rightarrow> addr \<Rightarrow> (mem \<times> bool) option" where
  "rm_node m pp_list p_node = rm_node_loop m pp_list p_node"

text \<open>The stack is the same list under other names.\<close>

definition push_node :: "mem \<Rightarrow> addr \<Rightarrow> addr \<Rightarrow> mem" where
  "push_node m pplstack p_node = add_node m pplstack p_node"

definition pop_node :: "mem \<Rightarrow> addr \<Rightarrow> (mem \<times> bool) option" where
  "pop_node m pplstack = rm_node m pplstack (m pplstack)"

subsection \<open>The list a cell starts\<close>

primrec links :: "mem \<Rightarrow> addr \<Rightarrow> addr list \<Rightarrow> bool" where
  "links m p [] \<longleftrightarrow> p = 0"
| "links m p (x # xs) \<longleftrightarrow> x \<noteq> 0 \<and> p = x \<and> links m (m x) xs"

definition slist :: "mem \<Rightarrow> addr \<Rightarrow> addr list \<Rightarrow> bool" where
  "slist m pp xs \<longleftrightarrow> pp \<notin> set xs \<and> links m (m pp) xs"

lemma links_frame:
  "links m p xs \<Longrightarrow> (\<And>a. a \<in> set xs \<Longrightarrow> m' a = m a) \<Longrightarrow> links m' p xs"
  by (induction xs arbitrary: p) auto

lemma links_unique: "links m p xs \<Longrightarrow> links m p ys \<Longrightarrow> xs = ys"
proof (induction xs arbitrary: p ys)
  case Nil
  then show ?case by (cases ys) auto
next
  case (Cons x xs)
  then show ?case by (cases ys) auto
qed

lemma links_nonzero: "links m p xs \<Longrightarrow> a \<in> set xs \<Longrightarrow> a \<noteq> 0"
  by (induction xs arbitrary: p) auto

lemma links_suffix: "links m p (xs @ x # ys) \<Longrightarrow> links m (m x) ys"
  by (induction xs arbitrary: p) auto

lemma links_distinct: "links m p xs \<Longrightarrow> distinct xs"
proof (induction xs arbitrary: p)
  case Nil
  then show ?case by simp
next
  case (Cons x xs)
  have "x \<notin> set xs"
  proof
    assume "x \<in> set xs"
    then obtain ys zs where xs: "xs = ys @ x # zs" by (meson split_list)
    with Cons.prems have "links m (m x) zs" by (auto dest: links_suffix)
    with Cons.prems have "zs = xs" by (auto dest: links_unique)
    with xs show False by simp
  qed
  with Cons show ?case by auto
qed

lemma slist_distinct: "slist m pp xs \<Longrightarrow> distinct xs"
  by (auto simp: slist_def dest: links_distinct)

lemma slist_nonzero: "slist m pp xs \<Longrightarrow> a \<in> set xs \<Longrightarrow> a \<noteq> 0"
  by (auto simp: slist_def dest: links_nonzero)

lemma slist_head_notin: "slist m pp xs \<Longrightarrow> pp \<notin> set xs"
  by (simp add: slist_def)

lemma slist_unique: "slist m pp xs \<Longrightarrow> slist m pp ys \<Longrightarrow> xs = ys"
  by (auto simp: slist_def dest: links_unique)

lemma slist_frame:
  "slist m pp xs \<Longrightarrow> (\<And>a. a \<in> insert pp (set xs) \<Longrightarrow> m' a = m a) \<Longrightarrow> slist m' pp xs"
  by (auto simp: slist_def intro: links_frame)

lemma slist_Nil [simp]: "slist m pp [] \<longleftrightarrow> m pp = 0"
  by (simp add: slist_def)

lemma slist_Cons_head: "slist m pp (x # xs) \<Longrightarrow> m pp = x"
  by (simp add: slist_def)

lemma slist_ConsD:
  assumes "slist m pp (x # xs)"
  shows "m pp = x" "x \<noteq> 0" "x \<noteq> pp" "x \<notin> set xs" "pp \<notin> set xs" "links m (m x) xs"
  using assms slist_distinct [OF assms] by (auto simp: slist_def)

lemma slist_head_zero: "slist m pp xs \<Longrightarrow> m pp = 0 \<longleftrightarrow> xs = []"
  by (cases xs) (auto simp: slist_def)

subsection \<open>What the operations do to it\<close>

lemma add_node_apply:
  "add_node m pp n a = (if a = pp then n else if a = n then m pp else m a)"
  by (simp add: add_node_def Let_def)

lemma add_node_slist:
  assumes "slist m pp xs" and "n \<noteq> 0" and "n \<noteq> pp" and "n \<notin> set xs"
  shows "slist (add_node m pp n) pp (n # xs)"
proof -
  have "links (add_node m pp n) (m pp) xs"
    using assms by (auto simp: slist_def add_node_apply intro: links_frame)
  with assms show ?thesis by (auto simp: slist_def add_node_apply)
qed

lemma add_node_other: "a \<noteq> pp \<Longrightarrow> a \<noteq> n \<Longrightarrow> add_node m pp n a = m a"
  by (simp add: add_node_apply)

lemma list_add_eq_add_node: "list_add = add_node"
  by (intro ext) (simp add: list_add_def add_node_def Let_def)

lemma list_remove_slist:
  assumes "slist m pp (x # xs)"
  shows "slist (list_remove m pp) pp xs"
  using slist_ConsD [OF assms]
  by (auto simp: slist_def list_remove_def Let_def intro: links_frame)

lemma rm_node_loop_links:
  assumes "links m (m pp) xs" and "pp \<notin> set xs" and "distinct xs"
  shows "\<exists>m'. rm_node_loop m pp n = Some (m', n \<in> set xs)
           \<and> links m' (m' pp) (remove1 n xs)
           \<and> (\<forall>a. a \<notin> insert pp (set xs) \<longrightarrow> m' a = m a)
           \<and> (n \<notin> set xs \<longrightarrow> m' = m) \<and> (n \<in> set xs \<longrightarrow> m' n = 0)"
  using assms
proof (induction xs arbitrary: pp)
  case Nil
  then show ?case by (auto simp: rm_node_loop.simps)
next
  case (Cons x xs)
  from Cons.prems have x: "m pp = x" "x \<noteq> 0" "x \<notin> set xs" "x \<noteq> pp" and xs: "links m (m x) xs"
    by auto
  show ?case
  proof (cases "n = x")
    case True
    let ?m = "(m(pp := m x))(x := 0)"
    have "rm_node_loop m pp n = Some (?m, True)"
      using True x by (subst rm_node_loop.simps) simp
    moreover have "links ?m (?m pp) xs"
      using xs x Cons.prems by (auto intro: links_frame)
    ultimately show ?thesis using True by auto
  next
    case False
    from Cons.IH [of x] xs x Cons.prems obtain m' where m':
      "rm_node_loop m x n = Some (m', n \<in> set xs)" "links m' (m' x) (remove1 n xs)"
      "\<forall>a. a \<notin> insert x (set xs) \<longrightarrow> m' a = m a"
      "n \<notin> set xs \<longrightarrow> m' = m" "n \<in> set xs \<longrightarrow> m' n = 0"
      by auto
    have "rm_node_loop m pp n = Some (m', n \<in> set xs)"
      using False x m'(1) by (subst rm_node_loop.simps) simp
    with m' False x Cons.prems show ?thesis by auto
  qed
qed

lemma rm_node_slist:
  assumes "slist m pp xs"
  obtains m' where "rm_node m pp n = Some (m', n \<in> set xs)"
    and "slist m' pp (remove1 n xs)"
    and "\<And>a. a \<notin> insert pp (set xs) \<Longrightarrow> m' a = m a"
    and "n \<notin> set xs \<Longrightarrow> m' = m" and "n \<in> set xs \<Longrightarrow> m' n = 0"
proof -
  from assms have "links m (m pp) xs" "pp \<notin> set xs" "distinct xs"
    by (auto simp: slist_def dest: links_distinct)
  from rm_node_loop_links [OF this, of n] obtain m' where
    "rm_node_loop m pp n = Some (m', n \<in> set xs)" "links m' (m' pp) (remove1 n xs)"
    "\<forall>a. a \<notin> insert pp (set xs) \<longrightarrow> m' a = m a"
    "n \<notin> set xs \<longrightarrow> m' = m" "n \<in> set xs \<longrightarrow> m' n = 0"
    by blast
  moreover from \<open>pp \<notin> set xs\<close> have "pp \<notin> set (remove1 n xs)"
    by (meson notin_set_remove1)
  ultimately show ?thesis
    by (intro that [of m']) (simp_all add: rm_node_def slist_def)
qed

lemma rm_node_head:
  assumes "slist m pp (x # xs)"
  shows "rm_node m pp x = Some ((m(pp := m x))(x := 0), True)"
  using assms by (auto simp: rm_node_def rm_node_loop.simps slist_def)

lemma rm_node_head_slist:
  assumes "slist m pp (x # xs)"
  shows "slist ((m(pp := m x))(x := 0)) pp xs"
  using slist_ConsD [OF assms] by (auto simp: slist_def intro: links_frame)

text \<open>A list that runs into a cycle is never left by \<open>rm_node\<close> for a node that is not on it.\<close>

lemma rm_node_loop_self_cycle:
  assumes "m c = c" and "c \<noteq> 0" and "n \<noteq> c"
  shows "rm_node_loop m c n = None"
proof -
  have "rm_node_loop m p n = Some r \<Longrightarrow> p \<noteq> c" for p r
  proof -
    assume ret: "rm_node_loop m p n = Some r"
    have "m = m \<longrightarrow> n = n \<longrightarrow> p \<noteq> c"
    proof (rule rm_node_loop.raw_induct
        [where P = "\<lambda>m' p' n' r. m' = m \<longrightarrow> n' = n \<longrightarrow> p' \<noteq> c", OF _ ret])
      fix f m' p' n' r'
      assume IH: "\<And>m' p' n' r. f m' p' n' = Some r \<Longrightarrow> m' = m \<longrightarrow> n' = n \<longrightarrow> p' \<noteq> c"
        and eq: "(if m' p' = 0 then Some (m', False)
          else if n' = m' p' then Some ((m'(p' := m' n'))(n' := 0), True)
          else f m' (m' p') n') = Some r'"
      show "m' = m \<longrightarrow> n' = n \<longrightarrow> p' \<noteq> c"
        using eq assms IH [of m' "m' p'" n' r'] by (auto split: if_splits)
    qed
    then show ?thesis by simp
  qed
  then show ?thesis by (cases "rm_node_loop m c n") auto
qed

section \<open>Properties\<close>

text \<open>C35. \<open>rm_node\<close> returns on every list: it reports whether the node was on it, unlinks
  exactly that node, zeroes its link and touches no cell outside the list.\<close>

theorem rm_node_removes:
  assumes "slist m pp xs"
  shows "\<exists>m'. rm_node m pp n = Some (m', n \<in> set xs) \<and> slist m' pp (remove1 n xs)
    \<and> (n \<in> set xs \<longrightarrow> m' n = 0) \<and> (n \<notin> set xs \<longrightarrow> m' = m)
    \<and> (\<forall>a. a \<notin> insert pp (set xs) \<longrightarrow> m' a = m a)"
  by (rule rm_node_slist [OF assms, of n]) blast

theorem rm_node_removes_witness:
  "\<exists>m'. rm_node ((\<lambda>_. 0)(8 := 16, 16 := 24)) 8 24 = Some (m', True) \<and> slist m' 8 [16]"
proof -
  have "slist ((\<lambda>_. 0)(8 := 16, 16 := 24)) 8 [16, 24]" by (simp add: slist_def)
  from rm_node_removes [OF this, of 24] show ?thesis by auto
qed

text \<open>The single list is a stack: what \<open>push_node\<close> puts on top is what \<open>pop_node\<close> takes
  off, and popping gives back the list as it was, with the popped link zeroed.\<close>

theorem push_pop_roundtrip:
  assumes "slist m pp xs" and "n \<noteq> 0" and "n \<noteq> pp" and "n \<notin> set xs"
  shows "slist (push_node m pp n) pp (n # xs)
    \<and> pop_node (push_node m pp n) pp = Some (m(n := 0), True)"
proof -
  have push: "slist (push_node m pp n) pp (n # xs)"
    unfolding push_node_def by (rule add_node_slist [OF assms(1)]) (use assms in auto)
  moreover have "(add_node m pp n)(pp := add_node m pp n n, n := 0) = m(n := 0)"
    using assms(3) by (auto simp: add_node_apply)
  ultimately show ?thesis
    using rm_node_head [OF push] slist_Cons_head [OF push]
    by (simp add: pop_node_def push_node_def)
qed

theorem push_pop_roundtrip_witness:
  "pop_node (push_node (\<lambda>_. 0) 8 16) 8 = Some ((\<lambda>_. 0)(16 := 0), True)"
  using push_pop_roundtrip [of "\<lambda>_. 0" 8 "[]" 16] by simp

text \<open>Once a list closes on itself, a search for a node that is not on it never returns:
  freeing an element twice in a row, which links it to itself, does that without \<open>DEBUG_FLAG\<close>.\<close>

theorem rm_node_cycle_diverges:
  assumes "n \<noteq> 0" and "n \<noteq> pp" and "k \<noteq> n"
  shows "rm_node (add_node (add_node m pp n) pp n) pp k = None"
proof -
  let ?m = "add_node (add_node m pp n) pp n"
  have "?m n = n" "?m pp = n" using assms(2) by (auto simp: add_node_apply)
  then show ?thesis
    using rm_node_loop_self_cycle [of ?m n k] assms
    by (subst rm_node_def, subst rm_node_loop.simps) simp
qed

theorem rm_node_cycle_diverges_witness:
  "rm_node (add_node (add_node (\<lambda>_. 0) 8 16) 8 16) 8 24 = None"
  by (rule rm_node_cycle_diverges) simp_all

end
