(* ===== verification/Resource.thy ===== *)
theory Resource
  imports IntrusiveList
begin

text \<open>
  The fixed-size element pool of \<open>include/resource.h\<close> and \<open>src/resource.c\<close>, with the
  ownership word that \<open>DEBUG_FLAG\<close> adds (the build sets it): the first word of every element
  holds the address of its pool, with bit 0 set while the element is allocated.

  The struct at address \<open>p_rsc\<close> is the record \<open>hixo_resource\<close>, except for its field
  \<open>mp_free_list\<close>, whose address is passed to the list operations: it is the cell
  \<open>free_list_cell p_rsc\<close> of the memory.
\<close>

section \<open>The code\<close>

record hixo_resource =
  mp_start :: addr
  mp_end :: addr
  m_offset :: int
  m_used :: int
  m_capacity :: int

text \<open>\<open>&p_rsc->mp_free_list\<close>: two pointers and a padded \<open>int\<close> come before it.\<close>

definition free_list_cell :: "addr \<Rightarrow> addr" where
  "free_list_cell p_rsc = p_rsc + 24"

definition mem_zero :: "mem \<Rightarrow> addr \<Rightarrow> int \<Rightarrow> mem" where
  "mem_zero m p n = (\<lambda>a. if p \<le> a \<and> a < p + n then 0 else m a)"

text \<open>The \<open>DEBUG_FLAG\<close> loop: write the owner into the first word of every element.\<close>

definition mark_owner :: "addr \<Rightarrow> addr \<Rightarrow> int \<Rightarrow> mem \<Rightarrow> nat \<Rightarrow> mem" where
  "mark_owner p_rsc start elemt_size m i = m(start + int i * elemt_size := p_rsc)"

definition link_element :: "addr \<Rightarrow> addr \<Rightarrow> int \<Rightarrow> int \<Rightarrow> mem \<Rightarrow> nat \<Rightarrow> mem" where
  "link_element p_rsc start elemt_size offset m i =
     (let p_node = start + int i * elemt_size + offset
      in add_node m (free_list_cell p_rsc) p_node)"

text \<open>\<open>blk\<close> is what \<open>calloc(count, elemt_size)\<close> returns.\<close>

definition create_resource ::
    "mem \<Rightarrow> addr \<Rightarrow> hixo_resource \<Rightarrow> nat \<Rightarrow> nat \<Rightarrow> nat \<Rightarrow> addr \<Rightarrow> int \<times> mem \<times> hixo_resource" where
  "create_resource m p_rsc r count elemt_size offset blk =
     (if count = 0 \<or> elemt_size = 0 then (HIXO_ERROR, m, r)
      else if mp_start r \<noteq> 0 then (HIXO_ERROR, m, r)
      else
        let r1 = r\<lparr>mp_start := blk\<rparr>
        in if mp_start r1 = 0 then (HIXO_ERROR, m, r1)
        else
          let m1 = mem_zero m blk (int count * int elemt_size);
              m2 = foldl (mark_owner p_rsc blk (int elemt_size)) m1 [0..<count];
              r2 = r1\<lparr>mp_end := blk + int count * int elemt_size, m_offset := c_int (int offset)\<rparr>;
              m3 = m2(free_list_cell p_rsc := 0);
              m4 = foldl (link_element p_rsc blk (int elemt_size) (int offset)) m3 [0..<count];
              r3 = r2\<lparr>m_used := 0, m_capacity := c_int (int count)\<rparr>
          in (HIXO_OK, m4, r3))"

definition alloc_resource :: "addr \<Rightarrow> mem \<times> hixo_resource \<Rightarrow> ((mem \<times> hixo_resource) \<times> addr) run" where
  "alloc_resource p_rsc s =
     (case s of (m, r) \<Rightarrow>
      if m (free_list_cell p_rsc) = 0 then Inr ((m, r), 0)
      else
        let p_node = m (free_list_cell p_rsc)
        in bind_run (of_option (rm_node m (free_list_cell p_rsc) p_node)) (\<lambda>(m1, removed).
           assert_run removed
             (let r1 = r\<lparr>m_used := m_used r + 1\<rparr>;
                  pp_belong = p_node - m_offset r1
              in assert_run (m1 pp_belong = p_rsc)
                  (let m2 = m1(pp_belong := m1 pp_belong OR 1)
                   in Inr ((m2, r1), p_node - m_offset r1)))))"

definition free_resource :: "addr \<Rightarrow> mem \<times> hixo_resource \<Rightarrow> addr \<Rightarrow> (mem \<times> hixo_resource) run" where
  "free_resource p_rsc s p_elemt =
     (case s of (m, r) \<Rightarrow>
      if p_elemt = 0 then Inr (m, r)
      else if p_elemt < mp_start r \<or> p_elemt \<ge> mp_end r then Inr (m, r)
      else
        let p_node = p_elemt + m_offset r;
            m1 = add_node m (free_list_cell p_rsc) p_node;
            r1 = r\<lparr>m_used := m_used r - 1\<rparr>
        in assert_run (m1 p_elemt AND NOT 1 = p_rsc)
           (assert_run (m1 p_elemt AND 1 \<noteq> 0)
             (let m2 = m1(p_elemt := m1 p_elemt AND NOT 1) in Inr (m2, r1))))"

text \<open>The block given back to \<open>free\<close>, if any, is the last component.\<close>

definition destroy_resource ::
    "mem \<Rightarrow> addr \<Rightarrow> hixo_resource \<Rightarrow> mem \<times> hixo_resource \<times> addr option" where
  "destroy_resource m p_rsc r =
     (let freed = (if mp_start r \<noteq> 0 then Some (mp_start r) else None);
          r1 = (if mp_start r \<noteq> 0 then r\<lparr>mp_start := 0\<rparr> else r);
          r2 = r1\<lparr>mp_end := 0\<rparr>;
          m1 = m(free_list_cell p_rsc := 0);
          r3 = r2\<lparr>m_used := 0, m_capacity := 0\<rparr>
      in (m1, r3, freed))"

section \<open>The invariant\<close>

definition slot_list :: "int \<Rightarrow> hixo_resource \<Rightarrow> addr list" where
  "slot_list esz r = map (\<lambda>i. mp_start r + int i * esz) [0..<nat (m_capacity r)]"

definition rsc_layout :: "addr \<Rightarrow> int \<Rightarrow> hixo_resource \<Rightarrow> bool" where
  "rsc_layout p_rsc esz r \<longleftrightarrow>
     0 < mp_start r \<and> 0 \<le> m_capacity r \<and> mp_end r = mp_start r + m_capacity r * esz
     \<and> 8 \<le> m_offset r \<and> m_offset r + 8 \<le> esz
     \<and> even p_rsc \<and> (p_rsc + 40 \<le> mp_start r \<or> mp_end r \<le> p_rsc)"

text \<open>\<open>rsc_inv p_rsc esz (m, r) fs\<close>: the elements on the free list are \<open>fs\<close>, in that order;
  the used count and the ownership words agree with it.\<close>

definition rsc_inv :: "addr \<Rightarrow> int \<Rightarrow> mem \<times> hixo_resource \<Rightarrow> addr list \<Rightarrow> bool" where
  "rsc_inv p_rsc esz s fs \<longleftrightarrow>
     (case s of (m, r) \<Rightarrow>
        rsc_layout p_rsc esz r
        \<and> slist m (free_list_cell p_rsc) (map (\<lambda>e. e + m_offset r) fs)
        \<and> set fs \<subseteq> set (slot_list esz r)
        \<and> m_used r = m_capacity r - int (length fs)
        \<and> (\<forall>e \<in> set (slot_list esz r). m e = (if e \<in> set fs then p_rsc else p_rsc OR 1)))"

lemma slot_list_used [simp]: "slot_list esz (r\<lparr>m_used := u\<rparr>) = slot_list esz r"
  by (simp add: slot_list_def)

lemma rsc_layout_used [simp]: "rsc_layout p esz (r\<lparr>m_used := u\<rparr>) \<longleftrightarrow> rsc_layout p esz r"
  by (simp add: rsc_layout_def)

lemma rsc_invI:
  assumes "rsc_layout p esz r" and "slist m (free_list_cell p) (map (\<lambda>e. e + m_offset r) fs)"
    and "set fs \<subseteq> set (slot_list esz r)" and "m_used r = m_capacity r - int (length fs)"
    and "\<And>e. e \<in> set (slot_list esz r) \<Longrightarrow> m e = (if e \<in> set fs then p else p OR 1)"
  shows "rsc_inv p esz (m, r) fs"
  using assms by (simp add: rsc_inv_def)

lemma slot_listE:
  assumes "e \<in> set (slot_list esz r)"
  obtains i where "e = mp_start r + int i * esz" and "int i < m_capacity r"
proof -
  from assms obtain i where "i \<in> {0..<nat (m_capacity r)}" "e = mp_start r + int i * esz"
    unfolding slot_list_def set_map set_upt by (rule imageE)
  then show ?thesis by (intro that [of i]) auto
qed

lemma slot_range:
  assumes "rsc_layout p esz r" and "e \<in> set (slot_list esz r)"
  shows "mp_start r \<le> e" and "e + esz \<le> mp_end r"
proof -
  from assms(2) obtain i where e: "e = mp_start r + int i * esz" and i: "int i < m_capacity r"
    by (rule slot_listE)
  have pos: "0 < esz" using assms(1) by (simp add: rsc_layout_def)
  then show "mp_start r \<le> e" by (simp add: e)
  have "(int i + 1) * esz \<le> m_capacity r * esz"
    using i pos by (intro mult_right_mono) auto
  then show "e + esz \<le> mp_end r"
    using assms(1) by (simp add: e rsc_layout_def algebra_simps)
qed

lemma slot_distance:
  assumes "rsc_layout p esz r" and "e \<in> set (slot_list esz r)" and "e' \<in> set (slot_list esz r)"
    and "e \<noteq> e'"
  shows "e + esz \<le> e' \<or> e' + esz \<le> e"
proof -
  from assms(2,3) obtain i j where e: "e = mp_start r + int i * esz" "e' = mp_start r + int j * esz"
    by (auto simp: slot_list_def)
  have pos: "0 < esz" using assms(1) by (simp add: rsc_layout_def)
  have le: "(int a + 1) * esz \<le> int b * esz" if "a < b" for a b
    using that pos by (intro mult_right_mono) auto
  from e assms(4) have "i < j \<or> j < i" by auto
  then show ?thesis using le [of i j] le [of j i] by (auto simp: e algebra_simps)
qed

lemma length_slot_list [simp]: "length (slot_list esz r) = nat (m_capacity r)"
  by (simp add: slot_list_def)

lemma distinct_slot_list: "rsc_layout p esz r \<Longrightarrow> distinct (slot_list esz r)"
  by (auto simp: slot_list_def distinct_map inj_on_def rsc_layout_def)

lemma rsc_inv_distinct: "rsc_inv p esz (m, r) fs \<Longrightarrow> distinct fs"
  by (auto simp: rsc_inv_def distinct_map dest: slist_distinct)

lemma cells_apart:
  assumes "rsc_layout p esz r" and "e \<in> set (slot_list esz r)"
  shows "e \<noteq> free_list_cell p" and "e + m_offset r \<noteq> free_list_cell p" and "e \<noteq> 0"
    and "e + m_offset r \<noteq> 0"
    and "e' \<in> set (slot_list esz r) \<Longrightarrow> e \<noteq> e' + m_offset r"
  using slot_range [OF assms] assms(1) slot_distance [OF assms(1) assms(2), of e']
  by (auto simp: rsc_layout_def free_list_cell_def)

section \<open>Each operation keeps the invariant\<close>

lemma alloc_resource_Cons:
  assumes inv: "rsc_inv p esz (m, r) (e # fs)"
  obtains m' where "alloc_resource p (m, r) = Inr ((m', r\<lparr>m_used := m_used r + 1\<rparr>), e)"
    and "rsc_inv p esz (m', r\<lparr>m_used := m_used r + 1\<rparr>) fs"
    and "\<And>a. a \<notin> {free_list_cell p, e, e + m_offset r} \<Longrightarrow> m' a = m a"
proof -
  let ?c = "free_list_cell p" and ?n = "e + m_offset r"
  let ?m1 = "(m(?c := m ?n))(?n := 0)" and ?r = "r\<lparr>m_used := m_used r + 1\<rparr>"
  let ?m2 = "?m1(e := ?m1 e OR 1)"
  have lay: "rsc_layout p esz r" and sl: "slist m ?c (?n # map (\<lambda>e. e + m_offset r) fs)"
    and sub: "set (e # fs) \<subseteq> set (slot_list esz r)"
    and own: "\<forall>x \<in> set (slot_list esz r). m x = (if x \<in> set (e # fs) then p else p OR 1)"
    and used: "m_used r = m_capacity r - int (length (e # fs))"
    using inv by (simp_all add: rsc_inv_def)
  note apart = cells_apart [OF lay]
  have e: "e \<in> set (slot_list esz r)" using sub by simp
  have ne: "e \<noteq> ?c" "?n \<noteq> ?c" "e \<noteq> ?n" using apart(1,2) [OF e] apart(5) [OF e e] by auto
  have m1e: "?m1 e = p" using own e ne by simp
  have even: "even p" using lay by (simp add: rsc_layout_def)
  have run: "alloc_resource p (m, r) = Inr ((?m2, ?r), e)"
    using rm_node_head [OF sl] slist_ConsD(1,2) [OF sl] m1e ne
    by (simp add: alloc_resource_def run_simps Let_def)
  have "slist ?m1 ?c (map (\<lambda>e. e + m_offset r) fs)"
    by (rule rm_node_head_slist [OF sl])
  then have "slist ?m2 ?c (map (\<lambda>e. e + m_offset r) fs)"
    by (rule slist_frame) (use sub apart(5) [OF e] ne in auto)
  moreover have "?m2 x = (if x \<in> set fs then p else p OR 1)" if x: "x \<in> set (slot_list esz r)" for x
  proof (cases "x = e")
    case True
    then have "x \<notin> set fs" using rsc_inv_distinct [OF inv] by simp
    with True m1e show ?thesis by simp
  next
    case False
    then have "?m2 x = m x" using apart [OF x] e by auto
    with own x False show ?thesis by simp
  qed
  ultimately have "rsc_inv p esz (?m2, ?r) fs"
    by (intro rsc_invI) (use lay sub used in simp_all)
  with run show ?thesis by (intro that [of ?m2]) auto
qed

lemma alloc_resource_Nil:
  "rsc_inv p esz (m, r) [] \<Longrightarrow> alloc_resource p (m, r) = Inr ((m, r), 0)"
  by (simp add: alloc_resource_def rsc_inv_def)

lemma free_resource_owned:
  assumes inv: "rsc_inv p esz (m, r) fs" and e: "e \<in> set (slot_list esz r)" and used: "e \<notin> set fs"
  obtains m' where "free_resource p (m, r) e = Inr (m', r\<lparr>m_used := m_used r - 1\<rparr>)"
    and "rsc_inv p esz (m', r\<lparr>m_used := m_used r - 1\<rparr>) (e # fs)"
    and "\<And>a. a \<notin> {free_list_cell p, e, e + m_offset r} \<Longrightarrow> m' a = m a"
proof -
  let ?c = "free_list_cell p" and ?n = "e + m_offset r" and ?r = "r\<lparr>m_used := m_used r - 1\<rparr>"
  let ?m1 = "add_node m ?c ?n"
  let ?m2 = "?m1(e := ?m1 e AND NOT 1)"
  have lay: "rsc_layout p esz r" and sl: "slist m ?c (map (\<lambda>e. e + m_offset r) fs)"
    and sub: "set fs \<subseteq> set (slot_list esz r)"
    and own: "\<forall>x \<in> set (slot_list esz r). m x = (if x \<in> set fs then p else p OR 1)"
    and cnt: "m_used r = m_capacity r - int (length fs)"
    using inv by (simp_all add: rsc_inv_def)
  note apart = cells_apart [OF lay]
  have ne: "e \<noteq> ?c" "?n \<noteq> ?c" "e \<noteq> ?n" "?n \<noteq> 0"
    using apart(1,2,4) [OF e] apart(5) [OF e e] by auto
  have even: "even p" using lay by (simp add: rsc_layout_def)
  have m1e: "?m1 e = p OR 1" using own e ne used by (simp add: add_node_apply)
  have rng: "mp_start r \<le> e" "e < mp_end r" and "e \<noteq> 0"
    using slot_range [OF lay e] apart(3) [OF e] lay by (auto simp: rsc_layout_def)
  then have run: "free_resource p (m, r) e = Inr (?m2, ?r)"
    using m1e untag_tagged [OF even] odd_tagged [OF even]
    by (simp add: free_resource_def run_simps Let_def and_one_eq odd_iff_mod_2_eq_one)
  have "slist ?m1 ?c (?n # map (\<lambda>e. e + m_offset r) fs)"
    by (rule add_node_slist [OF sl]) (use ne used in auto)
  then have "slist ?m2 ?c (?n # map (\<lambda>e. e + m_offset r) fs)"
    by (rule slist_frame) (use sub e apart(5) [OF e] ne in auto)
  moreover have "?m2 x = (if x \<in> set (e # fs) then p else p OR 1)"
    if x: "x \<in> set (slot_list esz r)" for x
  proof (cases "x = e")
    case True
    with m1e untag_tagged [OF even] show ?thesis by simp
  next
    case False
    then have "?m2 x = m x" using apart [OF x] e by (auto simp: add_node_apply)
    with own x False show ?thesis by simp
  qed
  ultimately have "rsc_inv p esz (?m2, ?r) (e # fs)"
    by (intro rsc_invI) (use lay sub cnt e in simp_all)
  with run show ?thesis by (intro that [of ?m2]) (auto simp: add_node_apply)
qed

text \<open>Giving an element back twice is caught by the ownership word.\<close>

lemma free_resource_twice:
  assumes inv: "rsc_inv p esz (m, r) fs" and e: "e \<in> set fs"
  shows "free_resource p (m, r) e = Inl Assert_failed"
proof -
  have lay: "rsc_layout p esz r" and slot: "e \<in> set (slot_list esz r)" and "m e = p"
    using inv e by (auto simp: rsc_inv_def)
  moreover have "even p" using lay by (simp add: rsc_layout_def)
  moreover have "mp_start r \<le> e" "e < mp_end r"
    using slot_range [OF lay slot] lay by (auto simp: rsc_layout_def)
  ultimately show ?thesis
    using cells_apart(1-4) [OF lay slot] cells_apart(5) [OF lay slot slot]
    by (auto simp: free_resource_def run_simps Let_def add_node_apply and_one_eq)
qed

lemma free_resource_foreign:
  "e = 0 \<or> e < mp_start r \<or> mp_end r \<le> e \<Longrightarrow> free_resource p (m, r) e = Inr (m, r)"
  by (auto simp: free_resource_def)

section \<open>Creation and destruction\<close>

lemma mark_owner_all:
  "foldl (mark_owner p start esz) m [0..<n] a
     = (if \<exists>i<n. a = start + int i * esz then p else m a)"
  by (induction n) (auto simp: mark_owner_def less_Suc_eq)

lemma link_elements:
  assumes "m (free_list_cell p) = 0" and "0 < esz" and "0 < start + off"
    and "\<And>i. i < n \<Longrightarrow> start + int i * esz + off \<noteq> free_list_cell p"
  shows "slist (foldl (link_element p start esz off) m [0..<n]) (free_list_cell p)
           (rev (map (\<lambda>i. start + int i * esz + off) [0..<n]))
         \<and> (\<forall>a. a \<noteq> free_list_cell p \<longrightarrow> (\<forall>i<n. a \<noteq> start + int i * esz + off) \<longrightarrow>
               foldl (link_element p start esz off) m [0..<n] a = m a)"
  using assms(4)
proof (induction n)
  case 0
  with assms(1) show ?case by simp
next
  case (Suc n)
  let ?m = "foldl (link_element p start esz off) m [0..<n]" and ?x = "start + int n * esz + off"
  from Suc have sl: "slist ?m (free_list_cell p) (rev (map (\<lambda>i. start + int i * esz + off) [0..<n]))"
    and other: "\<forall>a. a \<noteq> free_list_cell p \<longrightarrow> (\<forall>i<n. a \<noteq> start + int i * esz + off) \<longrightarrow> ?m a = m a"
    by simp_all
  have "?x \<notin> set (rev (map (\<lambda>i. start + int i * esz + off) [0..<n]))"
    using assms(2) by auto
  moreover have "0 \<le> int n * esz" using assms(2) by simp
  then have "?x \<noteq> 0" using assms(3) by linarith
  ultimately have "slist (add_node ?m (free_list_cell p) ?x) (free_list_cell p)
      (?x # rev (map (\<lambda>i. start + int i * esz + off) [0..<n]))"
    using Suc.prems [of n] by (intro add_node_slist [OF sl]) simp_all
  moreover have "link_element p start esz off ?m n = add_node ?m (free_list_cell p) ?x"
    by (simp add: link_element_def Let_def)
  ultimately show ?case using other by (simp add: add_node_other less_Suc_eq)
qed

lemma create_resource_ok:
  assumes free: "mp_start r = 0" and pos: "0 < count" "0 < blk" and count: "int count < 2 ^ 31"
    and off: "8 \<le> offset" "offset + 8 \<le> elemt_size" "int offset < 2 ^ 31" and "even p"
    and apart: "p + 40 \<le> blk \<or> blk + int count * int elemt_size \<le> p"
  obtains m' r' where "create_resource m p r count elemt_size offset blk = (HIXO_OK, m', r')"
    and "rsc_inv p (int elemt_size) (m', r') (rev (slot_list (int elemt_size) r'))"
    and "mp_start r' = blk" and "m_capacity r' = int count" and "m_offset r' = int offset"
    and "\<And>a. a \<noteq> free_list_cell p \<Longrightarrow> a < blk \<or> blk + int count * int elemt_size \<le> a \<Longrightarrow> m' a = m a"
proof -
  let ?e = "int elemt_size" and ?c = "free_list_cell p" and ?o = "int offset"
  let ?m1 = "mem_zero m blk (int count * ?e)"
  let ?m2 = "foldl (mark_owner p blk ?e) ?m1 [0..<count]"
  let ?m3 = "?m2(?c := 0)"
  let ?m4 = "foldl (link_element p blk ?e ?o) ?m3 [0..<count]"
  let ?r = "r\<lparr>mp_start := blk, mp_end := blk + int count * ?e, m_offset := ?o,
              m_used := 0, m_capacity := int count\<rparr>"
  have run: "create_resource m p r count elemt_size offset blk = (HIXO_OK, ?m4, ?r)"
    using assms by (simp add: create_resource_def Let_def)
  have slots: "slot_list ?e ?r = map (\<lambda>i. blk + int i * ?e) [0..<count]"
    by (simp add: slot_list_def)
  have lay: "rsc_layout p ?e ?r" using assms by (auto simp: rsc_layout_def)
  note cells = cells_apart [OF lay]
  have slotI: "blk + int i * ?e \<in> set (slot_list ?e ?r)" if "i < count" for i
    using that by (auto simp: slots)
  have ne: "blk + int i * ?e + ?o \<noteq> ?c" if "i < count" for i
    using cells(2) [OF slotI [OF that]] by simp
  have linked: "slist ?m4 ?c (rev (map (\<lambda>i. blk + int i * ?e + ?o) [0..<count]))"
    and other: "\<And>a. a \<noteq> ?c \<Longrightarrow> (\<forall>i<count. a \<noteq> blk + int i * ?e + ?o) \<Longrightarrow> ?m4 a = ?m3 a"
    using link_elements [of ?m3 p ?e blk ?o count] ne off pos by auto
  have "slist ?m4 ?c (map (\<lambda>e. e + m_offset ?r) (rev (slot_list ?e ?r)))"
    using linked by (simp add: slots rev_map o_def)
  moreover have "?m4 x = (if x \<in> set (rev (slot_list ?e ?r)) then p else p OR 1)"
    if x: "x \<in> set (slot_list ?e ?r)" for x
  proof -
    have "\<forall>i<count. x \<noteq> blk + int i * ?e + ?o"
      using cells(5) [OF x slotI] by auto
    moreover have "x \<noteq> ?c" using cells(1) [OF x] .
    ultimately have "?m4 x = ?m2 x" using other by simp
    also from x have "\<dots> = p" by (auto simp: mark_owner_all slots)
    finally show ?thesis using x by simp
  qed
  ultimately have "rsc_inv p ?e (?m4, ?r) (rev (slot_list ?e ?r))"
    by (intro rsc_invI) (use lay in simp_all)
  moreover have "?m4 a = m a" if a: "a \<noteq> ?c" "a < blk \<or> blk + int count * ?e \<le> a" for a
  proof -
    have "x \<noteq> a \<and> x + ?o \<noteq> a" if "x \<in> set (slot_list ?e ?r)" for x
      using slot_range [OF lay that] a(2) off pos by auto
    then have "\<forall>i<count. a \<noteq> blk + int i * ?e + ?o" "\<forall>i<count. a \<noteq> blk + int i * ?e"
      using slotI by auto
    with other [of a] a show ?thesis by (auto simp: mark_owner_all mem_zero_def)
  qed
  ultimately show ?thesis using run by (intro that [of ?m4 ?r]) simp_all
qed

lemma create_resource_errors:
  "count = 0 \<or> elemt_size = 0 \<or> mp_start r \<noteq> 0 \<Longrightarrow>
     create_resource m p r count elemt_size offset blk = (HIXO_ERROR, m, r)"
  "0 < count \<Longrightarrow> 0 < elemt_size \<Longrightarrow> mp_start r = 0 \<Longrightarrow>
     create_resource m p r count elemt_size offset 0 = (HIXO_ERROR, m, r)"
  by (auto simp: create_resource_def)

lemma destroy_resource_reset:
  assumes "destroy_resource m p r = (m', r', freed)"
  shows "m' (free_list_cell p) = 0" and "mp_start r' = 0" and "mp_end r' = 0"
    and "m_used r' = 0" and "m_capacity r' = 0"
    and "freed = (if mp_start r = 0 then None else Some (mp_start r))"
  using assms by (auto simp: destroy_resource_def Let_def split: if_splits)

section \<open>The contract of a pool and its clients\<close>

text \<open>A client of a pool takes elements and gives them back.  \<open>pool_run\<close> runs such a client on
  the code, with the list of the elements it holds; \<open>abs_run\<close> is the specification: a stack of
  free elements, where giving back an element that is not held is an error.\<close>

datatype 'e pool_op = Alloc | Free 'e

fun pool_step :: "('s \<Rightarrow> ('s \<times> 'e) run) \<Rightarrow> ('s \<Rightarrow> 'e \<Rightarrow> 's run) \<Rightarrow> 'e \<Rightarrow>
    's \<times> 'e list \<Rightarrow> 'e pool_op \<Rightarrow> ('s \<times> 'e list) run" where
  "pool_step alloc free null (s, held) Alloc =
     bind_run (alloc s) (\<lambda>(s', e). Inr (s', if e = null then held else e # held))"
| "pool_step alloc free null (s, held) (Free e) =
     bind_run (free s e) (\<lambda>s'. Inr (s', remove1 e held))"

fun pool_run :: "('s \<Rightarrow> ('s \<times> 'e) run) \<Rightarrow> ('s \<Rightarrow> 'e \<Rightarrow> 's run) \<Rightarrow> 'e \<Rightarrow>
    's \<times> 'e list \<Rightarrow> 'e pool_op list \<Rightarrow> ('s \<times> 'e list) run" where
  "pool_run alloc free null c [] = Inr c"
| "pool_run alloc free null c (x # xs) =
     bind_run (pool_step alloc free null c x) (\<lambda>c'. pool_run alloc free null c' xs)"

fun abs_step :: "'e list \<times> 'e list \<Rightarrow> 'e pool_op \<Rightarrow> ('e list \<times> 'e list) option" where
  "abs_step (fs, held) Alloc =
     Some (case fs of [] \<Rightarrow> ([], held) | e # fs' \<Rightarrow> (fs', e # held))"
| "abs_step (fs, held) (Free e) =
     (if e \<in> set held then Some (e # fs, remove1 e held) else None)"

fun abs_run :: "'e list \<times> 'e list \<Rightarrow> 'e pool_op list \<Rightarrow> ('e list \<times> 'e list) option" where
  "abs_run a [] = Some a"
| "abs_run a (x # xs) = (case abs_step a x of None \<Rightarrow> None | Some a' \<Rightarrow> abs_run a' xs)"

definition splits :: "'e list \<Rightarrow> 'e list \<Rightarrow> 'e list \<Rightarrow> bool" where
  "splits slots fs held \<longleftrightarrow> distinct (fs @ held) \<and> set (fs @ held) = set slots"

lemma splits_alloc: "splits sl (e # fs) held \<Longrightarrow> splits sl fs (e # held)"
  by (auto simp: splits_def)

lemma splits_free: "splits sl fs held \<Longrightarrow> e \<in> set held \<Longrightarrow> splits sl (e # fs) (remove1 e held)"
  by (auto simp: splits_def distinct_remove1 set_remove1_eq)

locale element_pool =
  fixes alloc :: "'s \<Rightarrow> ('s \<times> 'e) run"
    and free :: "'s \<Rightarrow> 'e \<Rightarrow> 's run"
    and pinv :: "'s \<Rightarrow> 'e list \<Rightarrow> bool"
    and slots :: "'s \<Rightarrow> 'e list"
    and null :: "'e"
  assumes alloc_Cons:
      "pinv s (e # fs) \<Longrightarrow> \<exists>s'. alloc s = Inr (s', e) \<and> pinv s' fs \<and> slots s' = slots s"
    and alloc_Nil: "pinv s [] \<Longrightarrow> alloc s = Inr (s, null)"
    and free_used: "pinv s fs \<Longrightarrow> e \<in> set (slots s) \<Longrightarrow> e \<notin> set fs \<Longrightarrow>
      \<exists>s'. free s e = Inr s' \<and> pinv s' (e # fs) \<and> slots s' = slots s"
    and free_unused: "pinv s fs \<Longrightarrow> e \<in> set fs \<Longrightarrow> free s e = Inl Assert_failed"
    and slots_not_null: "pinv s fs \<Longrightarrow> null \<notin> set (slots s)"
begin

lemma step_refines:
  assumes "pinv s fs" and "splits (slots s) fs held" and "\<And>e. x = Free e \<Longrightarrow> e \<in> set (slots s)"
  shows "case abs_step (fs, held) x of
      None \<Rightarrow> pool_step alloc free null (s, held) x = Inl Assert_failed
    | Some (fs', held') \<Rightarrow> \<exists>s'. pool_step alloc free null (s, held) x = Inr (s', held')
        \<and> pinv s' fs' \<and> slots s' = slots s \<and> splits (slots s) fs' held'"
proof (cases x)
  case Alloc
  show ?thesis
  proof (cases fs)
    case Nil
    with assms Alloc alloc_Nil [of s] show ?thesis by auto
  next
    case (Cons e fs')
    then have "e \<noteq> null" using assms(1,2) slots_not_null by (auto simp: splits_def)
    with assms Alloc Cons alloc_Cons [of s e fs'] show ?thesis
      by (auto simp: splits_alloc)
  qed
next
  case (Free e)
  then have slot: "e \<in> set (slots s)" using assms(3) by blast
  show ?thesis
  proof (cases "e \<in> set held")
    case True
    then have "e \<notin> set fs" using assms(2) by (auto simp: splits_def)
    with free_used [OF assms(1) slot] Free True assms(2) show ?thesis
      by (auto simp: splits_free)
  next
    case False
    then have "e \<in> set fs" using slot assms(2) by (auto simp: splits_def)
    with free_unused [OF assms(1)] Free False show ?thesis by simp
  qed
qed

lemma run_refines:
  assumes "pinv s fs" and "splits (slots s) fs held" and "\<And>e. Free e \<in> set ops \<Longrightarrow> e \<in> set (slots s)"
  shows "case abs_run (fs, held) ops of
      None \<Rightarrow> pool_run alloc free null (s, held) ops = Inl Assert_failed
    | Some (fs', held') \<Rightarrow> \<exists>s'. pool_run alloc free null (s, held) ops = Inr (s', held')
        \<and> pinv s' fs' \<and> slots s' = slots s \<and> splits (slots s) fs' held'"
  using assms
proof (induction ops arbitrary: s fs held)
  case Nil
  then show ?case by simp
next
  case (Cons x ops)
  have slot: "e \<in> set (slots s)" if "x = Free e" for e using that Cons.prems(3) by auto
  note step = step_refines [of s fs held x, OF Cons.prems(1,2) slot]
  show ?case
  proof (cases "abs_step (fs, held) x")
    case None
    with step show ?thesis by simp
  next
    case (Some a)
    obtain fs1 held1 where a: "a = (fs1, held1)" by fastforce
    with step Some obtain s1 where s1: "pool_step alloc free null (s, held) x = Inr (s1, held1)"
      "pinv s1 fs1" "slots s1 = slots s" "splits (slots s) fs1 held1"
      by auto
    have "\<And>e. Free e \<in> set ops \<Longrightarrow> e \<in> set (slots s1)" using Cons.prems(3) s1(3) by auto
    moreover have "pool_run alloc free null (s, held) (x # ops)
        = pool_run alloc free null (s1, held1) ops"
      using s1(1) by simp
    moreover have "abs_run (fs, held) (x # ops) = abs_run (fs1, held1) ops"
      using Some a by simp
    ultimately show ?thesis
      using Cons.IH [OF s1(2), of held1] s1 by (auto split: option.splits)
  qed
qed

text \<open>An element given back is the next one handed out.\<close>

lemma free_then_alloc:
  assumes "pinv s fs" and "e \<in> set (slots s)" and "e \<notin> set fs"
  shows "\<exists>s1 s2. free s e = Inr s1 \<and> alloc s1 = Inr (s2, e) \<and> pinv s2 fs"
  using free_used [OF assms] alloc_Cons by blast

end

interpretation rsc: element_pool "alloc_resource p" "free_resource p" "rsc_inv p esz"
  "\<lambda>s. slot_list esz (snd s)" 0 for p esz
proof unfold_locales
  fix s e fs
  assume "rsc_inv p esz s (e # fs)"
  then show "\<exists>s'. alloc_resource p s = Inr (s', e) \<and> rsc_inv p esz s' fs
      \<and> slot_list esz (snd s') = slot_list esz (snd s)"
    by (cases s) (auto elim: alloc_resource_Cons)
next
  fix s
  assume "rsc_inv p esz s []"
  then show "alloc_resource p s = Inr (s, 0)"
    by (cases s) (simp add: alloc_resource_Nil)
next
  fix s fs e
  assume "rsc_inv p esz s fs" "e \<in> set (slot_list esz (snd s))" "e \<notin> set fs"
  then show "\<exists>s'. free_resource p s e = Inr s' \<and> rsc_inv p esz s' (e # fs)
      \<and> slot_list esz (snd s') = slot_list esz (snd s)"
    by (cases s) (auto elim: free_resource_owned)
next
  fix s fs e
  assume "rsc_inv p esz s fs" "e \<in> set fs"
  then show "free_resource p s e = Inl Assert_failed"
    by (cases s) (simp add: free_resource_twice)
next
  fix s fs
  assume "rsc_inv p esz s fs"
  then show "0 \<notin> set (slot_list esz (snd s))"
    by (cases s) (auto simp: rsc_inv_def dest: cells_apart(3))
qed

section \<open>Properties\<close>

text \<open>C14. A pool made by \<open>create_resource\<close> behaves, under any sequence of \<open>alloc_resource\<close> and
  \<open>free_resource\<close> on its elements, like a stack of free elements: the elements handed out are
  distinct and lie in the block, an empty pool gives \<open>NULL\<close>, and the first time an element that
  is not held is given back the ownership word makes an assertion fail.\<close>

theorem pool_refines_stack:
  assumes "mp_start r = 0" and "0 < count" and "0 < blk" and "int count < 2 ^ 31"
    and "8 \<le> offset" and "offset + 8 \<le> elemt_size" and "int offset < 2 ^ 31" and "even p"
    and "p + 40 \<le> blk \<or> blk + int count * int elemt_size \<le> p"
    and "\<forall>e. Free e \<in> set ops \<longrightarrow> e \<in> set (map (\<lambda>i. blk + int i * int elemt_size) [0..<count])"
  shows "\<exists>m' r'. create_resource m p r count elemt_size offset blk = (HIXO_OK, m', r')
    \<and> (case abs_run (map (\<lambda>i. blk + int i * int elemt_size) (rev [0..<count]), []) ops of
         None \<Rightarrow> pool_run (alloc_resource p) (free_resource p) 0 ((m', r'), []) ops = Inl Assert_failed
       | Some (fs, held) \<Rightarrow> \<exists>s. pool_run (alloc_resource p) (free_resource p) 0 ((m', r'), []) ops
             = Inr (s, held)
           \<and> rsc_inv p (int elemt_size) s fs \<and> distinct (fs @ held)
           \<and> set (fs @ held) = set (map (\<lambda>i. blk + int i * int elemt_size) [0..<count]))"
proof -
  obtain m' r' where run: "create_resource m p r count elemt_size offset blk = (HIXO_OK, m', r')"
    and inv: "rsc_inv p (int elemt_size) (m', r') (rev (slot_list (int elemt_size) r'))"
    and start: "mp_start r' = blk" "m_capacity r' = int count"
    by (rule create_resource_ok [OF assms(1-9), of m]) blast
  have slots: "slot_list (int elemt_size) r' = map (\<lambda>i. blk + int i * int elemt_size) [0..<count]"
    by (simp add: slot_list_def start)
  have split: "splits (slot_list (int elemt_size) (snd (m', r'))) (rev (slot_list (int elemt_size) r')) []"
    using rsc_inv_distinct [OF inv] by (simp add: splits_def)
  have ops: "e \<in> set (slot_list (int elemt_size) (snd (m', r')))" if "Free e \<in> set ops" for e
    using assms(10) that by (simp add: slots)
  note rsc.run_refines [where ops = ops, OF inv split ops]
  with run show ?thesis
    by (auto simp: slots splits_def rev_map split: option.splits)
qed

theorem pool_refines_stack_witness:
  "\<exists>m' r'. create_resource (\<lambda>_. 0) 8 \<lparr>mp_start = 0, mp_end = 0, m_offset = 0, m_used = 0, m_capacity = 0\<rparr>
       2 16 8 64 = (HIXO_OK, m', r')
    \<and> (\<exists>s. pool_run (alloc_resource 8) (free_resource 8) 0 ((m', r'), [])
          [Alloc, Alloc, Alloc, Free 80, Alloc] = Inr (s, [80, 64]))
    \<and> pool_run (alloc_resource 8) (free_resource 8) 0 ((m', r'), [])
          [Alloc, Free 80, Free 80] = Inl Assert_failed"
  using pool_refines_stack [of "\<lparr>mp_start = 0, mp_end = 0, m_offset = 0, m_used = 0, m_capacity = 0\<rparr>"
      2 64 8 16 8 "[Alloc, Alloc, Alloc, Free 80, Alloc]" "\<lambda>_. 0"]
    pool_refines_stack [of "\<lparr>mp_start = 0, mp_end = 0, m_offset = 0, m_used = 0, m_capacity = 0\<rparr>"
      2 64 8 16 8 "[Alloc, Free 80, Free 80]" "\<lambda>_. 0"]
  by (auto simp: upt_rec)

text \<open>Every operation on a pool that is not as it should be leaves it alone: creating with a
  zero count or size, or over an existing pool, is \<open>HIXO_ERROR\<close>; an element outside the block is
  not taken back; a destroyed pool has no block, no free list and can be created again.\<close>

theorem pool_errors:
  "(count = 0 \<or> elemt_size = 0 \<or> mp_start r \<noteq> 0 \<longrightarrow>
      create_resource m p r count elemt_size offset blk = (HIXO_ERROR, m, r))
   \<and> (e < mp_start r \<or> mp_end r \<le> e \<longrightarrow> free_resource p (m, r) e = Inr (m, r))
   \<and> (\<exists>m' r'. destroy_resource m p r = (m', r', if mp_start r = 0 then None else Some (mp_start r))
        \<and> alloc_resource p (m', r') = Inr ((m', r'), 0) \<and> mp_start r' = 0)"
proof (intro conjI impI)
  obtain m' r' fr where d: "destroy_resource m p r = (m', r', fr)" by (cases "destroy_resource m p r")
  note reset = destroy_resource_reset [OF d]
  have "alloc_resource p (m', r') = Inr ((m', r'), 0)" by (simp add: alloc_resource_def reset)
  with d reset show "\<exists>m' r'. destroy_resource m p r
      = (m', r', if mp_start r = 0 then None else Some (mp_start r))
        \<and> alloc_resource p (m', r') = Inr ((m', r'), 0) \<and> mp_start r' = 0" by blast
qed (simp_all add: create_resource_errors free_resource_foreign)

theorem pool_errors_witness:
  "create_resource (\<lambda>_. 0) 8 \<lparr>mp_start = 0, mp_end = 0, m_offset = 0, m_used = 0, m_capacity = 0\<rparr>
     0 16 8 64 = (HIXO_ERROR, \<lambda>_. 0, \<lparr>mp_start = 0, mp_end = 0, m_offset = 0, m_used = 0, m_capacity = 0\<rparr>)"
  using pool_errors by blast

end
