(* ===== verification/DList.thy ===== *)
theory DList
  imports Prelude
begin

text \<open>
  The circular doubly linked list \<open>dlist_t\<close> of \<open>include/list.h\<close>.  A node is named by its
  address; \<open>dheap\<close> holds the two fields of every node.  \<open>dring d h xs\<close> says that the list
  head \<open>h\<close> closes a ring through exactly the nodes \<open>xs\<close>, in that order, in both directions.
\<close>

section \<open>The operations\<close>

record dheap =
  mp_next :: "addr \<Rightarrow> addr"
  mp_prev :: "addr \<Rightarrow> addr"

definition set_next :: "dheap \<Rightarrow> addr \<Rightarrow> addr \<Rightarrow> dheap" where
  "set_next d p v = d\<lparr>mp_next := (mp_next d)(p := v)\<rparr>"

definition set_prev :: "dheap \<Rightarrow> addr \<Rightarrow> addr \<Rightarrow> dheap" where
  "set_prev d p v = d\<lparr>mp_prev := (mp_prev d)(p := v)\<rparr>"

definition dlist_init :: "dheap \<Rightarrow> addr \<Rightarrow> dheap" where
  "dlist_init d p_list =
     (let d1 = set_next d p_list p_list
      in set_prev d1 p_list p_list)"

definition dlist_add_orig :: "dheap \<Rightarrow> addr \<Rightarrow> addr \<Rightarrow> addr \<Rightarrow> dheap" where
  "dlist_add_orig d p_new_node p_prev_node p_next_node =
     (let d1 = set_prev d p_next_node p_new_node;
          d2 = set_next d1 p_new_node p_next_node;
          d3 = set_prev d2 p_new_node p_prev_node
      in set_next d3 p_prev_node p_new_node)"

definition dlist_add_head :: "dheap \<Rightarrow> addr \<Rightarrow> addr \<Rightarrow> dheap" where
  "dlist_add_head d p_list p_node = dlist_add_orig d p_node p_list (mp_next d p_list)"

definition dlist_add_tail :: "dheap \<Rightarrow> addr \<Rightarrow> addr \<Rightarrow> dheap" where
  "dlist_add_tail d p_list p_node = dlist_add_orig d p_node (mp_prev d p_list) p_list"

definition dlist_empty :: "dheap \<Rightarrow> addr \<Rightarrow> bool" where
  "dlist_empty d p_list \<longleftrightarrow>
     mp_prev d p_list = mp_next d p_list \<and> p_list = mp_prev d p_list"

definition dlist_get_head :: "dheap \<Rightarrow> addr \<Rightarrow> addr" where
  "dlist_get_head d p_list = (if dlist_empty d p_list then 0 else mp_next d p_list)"

definition dlist_get_tail :: "dheap \<Rightarrow> addr \<Rightarrow> addr" where
  "dlist_get_tail d p_list = (if dlist_empty d p_list then 0 else mp_prev d p_list)"

definition dlist_merge :: "dheap \<Rightarrow> addr \<Rightarrow> addr \<Rightarrow> dheap" where
  "dlist_merge d p_head p_body =
     (if dlist_empty d p_body then d
      else
        let d1 = set_prev d (mp_next d p_body) (mp_prev d p_head);
            d2 = set_next d1 (mp_prev d1 p_body) p_head;
            d3 = set_next d2 (mp_prev d2 p_head) (mp_next d2 p_body);
            d4 = set_prev d3 p_head (mp_prev d3 p_body)
        in dlist_init d4 p_body)"

definition dlist_del_orig :: "dheap \<Rightarrow> addr \<Rightarrow> addr \<Rightarrow> dheap" where
  "dlist_del_orig d p_prev_node p_next_node =
     (let d1 = set_prev d p_next_node p_prev_node
      in set_next d1 p_prev_node p_next_node)"

definition dlist_del :: "dheap \<Rightarrow> addr \<Rightarrow> dheap" where
  "dlist_del d p_node = dlist_del_orig d (mp_prev d p_node) (mp_next d p_node)"

text \<open>The nodes the loops \<open>dlist_for_each_f\<close> and \<open>dlist_for_each_p\<close> visit from \<open>p_pos_node\<close>
  on, when the body leaves the links alone; \<open>None\<close> when the loop never comes back to the head.\<close>

partial_function (option) dlist_visit_f :: "dheap \<Rightarrow> addr \<Rightarrow> addr \<Rightarrow> addr list option" where
  "dlist_visit_f d p_pos_node p_list =
     (if p_pos_node = p_list then Some []
      else Option.bind (dlist_visit_f d (mp_next d p_pos_node) p_list)
             (\<lambda>rest. Some (p_pos_node # rest)))"

definition dlist_for_each_f :: "dheap \<Rightarrow> addr \<Rightarrow> addr list option" where
  "dlist_for_each_f d p_list = dlist_visit_f d (mp_next d p_list) p_list"

partial_function (option) dlist_visit_p :: "dheap \<Rightarrow> addr \<Rightarrow> addr \<Rightarrow> addr list option" where
  "dlist_visit_p d p_pos_node p_list =
     (if p_pos_node = p_list then Some []
      else Option.bind (dlist_visit_p d (mp_prev d p_pos_node) p_list)
             (\<lambda>rest. Some (p_pos_node # rest)))"

definition dlist_for_each_p :: "dheap \<Rightarrow> addr \<Rightarrow> addr list option" where
  "dlist_for_each_p d p_list = dlist_visit_p d (mp_prev d p_list) p_list"

text \<open>\<open>dlist_for_each_f_safe\<close> fetches the successor before it runs the body, so the body may
  unlink the node: the state \<open>s\<close> is threaded through the body, \<open>links\<close> reads the list links
  out of it.\<close>

partial_function (option) dlist_visit_f_safe ::
    "('s \<Rightarrow> dheap) \<Rightarrow> (addr \<Rightarrow> 's \<Rightarrow> 's) \<Rightarrow> 's \<Rightarrow> addr \<Rightarrow> addr \<Rightarrow> addr \<Rightarrow> 's option" where
  "dlist_visit_f_safe dh body s p_pos_node p_cur_next p_list =
     (if p_pos_node = p_list then Some s
      else let s' = body p_pos_node s
           in dlist_visit_f_safe dh body s' p_cur_next (mp_next (dh s') p_cur_next) p_list)"

definition dlist_for_each_f_safe ::
    "('s \<Rightarrow> dheap) \<Rightarrow> (addr \<Rightarrow> 's \<Rightarrow> 's) \<Rightarrow> 's \<Rightarrow> addr \<Rightarrow> 's option" where
  "dlist_for_each_f_safe dh body s p_list =
     (let p_pos_node = mp_next (dh s) p_list;
          p_cur_next = mp_next (dh s) p_pos_node
      in dlist_visit_f_safe dh body s p_pos_node p_cur_next p_list)"

partial_function (option) dlist_visit_p_safe ::
    "('s \<Rightarrow> dheap) \<Rightarrow> (addr \<Rightarrow> 's \<Rightarrow> 's) \<Rightarrow> 's \<Rightarrow> addr \<Rightarrow> addr \<Rightarrow> addr \<Rightarrow> 's option" where
  "dlist_visit_p_safe dh body s p_pos_node p_cur_prev p_list =
     (if p_pos_node = p_list then Some s
      else let s' = body p_pos_node s
           in dlist_visit_p_safe dh body s' p_cur_prev (mp_prev (dh s') p_cur_prev) p_list)"

definition dlist_for_each_p_safe ::
    "('s \<Rightarrow> dheap) \<Rightarrow> (addr \<Rightarrow> 's \<Rightarrow> 's) \<Rightarrow> 's \<Rightarrow> addr \<Rightarrow> 's option" where
  "dlist_for_each_p_safe dh body s p_list =
     (let p_pos_node = mp_prev (dh s) p_list;
          p_cur_prev = mp_prev (dh s) p_pos_node
      in dlist_visit_p_safe dh body s p_pos_node p_cur_prev p_list)"

section \<open>Rings\<close>

primrec linked :: "dheap \<Rightarrow> addr \<Rightarrow> addr list \<Rightarrow> bool" where
  "linked d a [] \<longleftrightarrow> True"
| "linked d a (x # xs) \<longleftrightarrow> mp_next d a = x \<and> mp_prev d x = a \<and> linked d x xs"

definition dring :: "dheap \<Rightarrow> addr \<Rightarrow> addr list \<Rightarrow> bool" where
  "dring d h xs \<longleftrightarrow> distinct (h # xs) \<and> linked d h (xs @ [h])"

lemma next_set_next [simp]: "mp_next (set_next d p v) = (mp_next d)(p := v)"
  and prev_set_next [simp]: "mp_prev (set_next d p v) = mp_prev d"
  and next_set_prev [simp]: "mp_next (set_prev d p v) = mp_next d"
  and prev_set_prev [simp]: "mp_prev (set_prev d p v) = (mp_prev d)(p := v)"
  by (simp_all add: set_next_def set_prev_def)

lemma linked_append:
  "linked d a (xs @ ys) \<longleftrightarrow> linked d a xs \<and> linked d (last (a # xs)) ys"
  by (induction xs arbitrary: a) auto

lemma linked_frame:
  assumes "linked d a xs"
    and "\<And>x. x \<in> set (butlast (a # xs)) \<Longrightarrow> mp_next d' x = mp_next d x"
    and "\<And>x. x \<in> set xs \<Longrightarrow> mp_prev d' x = mp_prev d x"
  shows "linked d' a xs"
  using assms by (induction xs arbitrary: a) auto

lemma last_notin_butlast: "distinct (a # xs) \<Longrightarrow> last (a # xs) \<notin> set (butlast (a # xs))"
  by (metis append_butlast_last_id distinct_butlast in_set_conv_decomp list.distinct(1)
      not_distinct_conv_prefix)

lemma in_butlast_Cons: "x \<in> set (butlast (a # xs)) \<Longrightarrow> x = a \<or> x \<in> set xs"
  by (auto dest: in_set_butlastD split: if_splits)

lemma snoc_eq_Cons:
  assumes "ys @ [h] = q # zs" and "distinct (h # ys)"
  shows "q \<notin> set zs" and "butlast (q # zs) = ys"
  using assms by (cases ys; auto)+

text \<open>What a ring says at a cut into \<open>xs\<close> and \<open>ys\<close>: the node before the cut and the node
  after it point at each other, and the two halves are linked.\<close>

lemma dring_cut:
  assumes "dring d h (xs @ ys)"
  obtains p q zs where "p = last (h # xs)" and "ys @ [h] = q # zs"
    and "mp_next d p = q" and "mp_prev d q = p"
    and "linked d h xs" and "linked d q zs"
proof -
  obtain q zs where q: "ys @ [h] = q # zs" by (cases "ys @ [h]") auto
  from assms have "linked d h (xs @ ys @ [h])" by (simp add: dring_def)
  then have "linked d h xs" "linked d (last (h # xs)) (q # zs)"
    by (auto simp: linked_append q simp del: last.simps)
  with that [of "last (h # xs)" q zs] q show ?thesis by simp
qed

lemma dring_next: "dring d h (xs @ ys) \<Longrightarrow> mp_next d (last (h # xs)) = hd (ys @ [h])"
  by (erule dring_cut) simp

lemma dring_prev: "dring d h (xs @ ys) \<Longrightarrow> mp_prev d (hd (ys @ [h])) = last (h # xs)"
  by (erule dring_cut) simp

lemma dring_next_head: "dring d h xs \<Longrightarrow> mp_next d h = hd (xs @ [h])"
  using dring_next [of d h "[]" xs] by simp

lemma dring_prev_head: "dring d h xs \<Longrightarrow> mp_prev d h = last (h # xs)"
  using dring_prev [of d h xs "[]"] by simp

lemma dring_distinct: "dring d h xs \<Longrightarrow> distinct (h # xs)"
  by (simp add: dring_def)

lemma dring_frame:
  assumes "dring d h xs" and "\<And>x. x \<in> insert h (set xs) \<Longrightarrow> mp_next d' x = mp_next d x"
    and "\<And>x. x \<in> insert h (set xs) \<Longrightarrow> mp_prev d' x = mp_prev d x"
  shows "dring d' h xs"
proof -
  have "linked d' h (xs @ [h])"
  proof (rule linked_frame)
    show "linked d h (xs @ [h])" using assms(1) by (simp add: dring_def)
  qed (use assms in \<open>auto dest!: in_butlast_Cons\<close>)
  with assms(1) show ?thesis by (simp add: dring_def)
qed

lemma dlist_init_ring: "dring (dlist_init d p) p []"
  by (simp add: dring_def dlist_init_def Let_def)

lemma dlist_empty_ring: "dring d h xs \<Longrightarrow> dlist_empty d h \<longleftrightarrow> xs = []"
  by (cases xs) (auto simp: dlist_empty_def dring_def)

lemma dlist_get_head_ring:
  "dring d h xs \<Longrightarrow> dlist_get_head d h = (if xs = [] then 0 else hd xs)"
  by (cases xs) (auto simp: dlist_get_head_def dlist_empty_ring dring_next_head)

lemma dlist_get_tail_ring:
  "dring d h xs \<Longrightarrow> dlist_get_tail d h = (if xs = [] then 0 else last xs)"
  by (auto simp: dlist_get_tail_def dlist_empty_ring dring_prev_head)

section \<open>What the operations do to a ring\<close>

lemma dlist_add_orig_ring:
  assumes ring: "dring d h (xs @ ys)" and n: "n \<notin> set (h # xs @ ys)"
  shows "dring (dlist_add_orig d n (last (h # xs)) (hd (ys @ [h]))) h (xs @ n # ys)"
proof -
  from ring obtain p q zs where p: "p = last (h # xs)" and q: "ys @ [h] = q # zs"
    and l: "linked d h xs" "linked d q zs"
    by (rule dring_cut)
  let ?d = "dlist_add_orig d n p q"
  have dist: "distinct (h # xs @ ys)" using ring by (rule dring_distinct)
  have p_in: "p \<in> set (h # xs)" using p by simp
  have q_in: "q \<in> set (ys @ [h])" using q by simp
  have q_notin: "q \<notin> set zs" and bl: "butlast (q # zs) = ys"
    using snoc_eq_Cons [OF q] dist by auto
  have p_notin: "p \<notin> set (butlast (h # xs))"
    using dist p last_notin_butlast [of h xs] by simp
  have nxt: "mp_next ?d = (mp_next d)(n := q, p := n)"
    and prv: "mp_prev ?d = (mp_prev d)(q := n, n := p)"
    by (simp_all add: dlist_add_orig_def Let_def)
  have "linked ?d h xs"
  proof (rule linked_frame [OF l(1)])
    fix x assume "x \<in> set (butlast (h # xs))"
    then have "x \<noteq> p" "x \<noteq> n" using p_notin n in_butlast_Cons [of x h xs] by auto
    then show "mp_next ?d x = mp_next d x" by (simp add: nxt)
  next
    fix x assume "x \<in> set xs"
    with dist q_in n show "mp_prev ?d x = mp_prev d x" by (auto simp: prv)
  qed
  moreover have "linked ?d q zs"
  proof (rule linked_frame [OF l(2)])
    fix x assume x: "x \<in> set (butlast (q # zs))"
    with dist p_in n show "mp_next ?d x = mp_next d x"
      unfolding bl by (auto simp: nxt)
  next
    fix x assume x: "x \<in> set zs"
    then have "x \<in> set (ys @ [h])" using q by simp
    with n q_notin x show "mp_prev ?d x = mp_prev d x" by (auto simp: prv)
  qed
  moreover have "n \<noteq> p" "n \<noteq> q" using n p_in q_in by auto
  ultimately have "linked ?d h (xs @ n # ys @ [h])"
    by (simp add: linked_append q nxt prv p [symmetric] del: last.simps)
  with dist n p q show ?thesis by (auto simp: dring_def)
qed

lemma dlist_add_head_ring:
  "dring d h xs \<Longrightarrow> n \<notin> set (h # xs) \<Longrightarrow> dring (dlist_add_head d h n) h (n # xs)"
  using dlist_add_orig_ring [of d h "[]" xs n]
  by (simp add: dlist_add_head_def dring_next_head)

lemma dlist_add_tail_ring:
  "dring d h xs \<Longrightarrow> n \<notin> set (h # xs) \<Longrightarrow> dring (dlist_add_tail d h n) h (xs @ [n])"
  using dlist_add_orig_ring [of d h xs "[]" n]
  by (simp add: dlist_add_tail_def dring_prev_head)

lemma dlist_del_ring:
  assumes ring: "dring d h (xs @ n # ys)"
  shows "dring (dlist_del d n) h (xs @ ys)"
proof -
  from ring have dist: "distinct (h # xs @ n # ys)" by (rule dring_distinct)
  from ring obtain p zs where p: "p = last (h # xs)" "mp_prev d n = p" and l: "linked d h xs"
    by (auto elim: dring_cut)
  from ring have "dring d h ((xs @ [n]) @ ys)" by simp
  then obtain q zs where q: "ys @ [h] = q # zs" "mp_next d n = q" and l': "linked d q zs"
    by (rule dring_cut) auto
  let ?d = "dlist_del d n"
  have p_in: "p \<in> set (h # xs)" using p by simp
  have q_in: "q \<in> set (ys @ [h])" using q by simp
  have q_notin: "q \<notin> set zs" and bl: "butlast (q # zs) = ys"
    using snoc_eq_Cons [OF q(1)] dist by auto
  have p_notin: "p \<notin> set (butlast (h # xs))"
    using dist p last_notin_butlast [of h xs] by simp
  have nxt: "mp_next ?d = (mp_next d)(p := q)" and prv: "mp_prev ?d = (mp_prev d)(q := p)"
    using p q by (simp_all add: dlist_del_def dlist_del_orig_def Let_def)
  have "linked ?d h xs"
  proof (rule linked_frame [OF l])
    fix x assume "x \<in> set xs"
    with dist q_in show "mp_prev ?d x = mp_prev d x" by (auto simp: prv)
  qed (use p_notin in \<open>auto simp: nxt\<close>)
  moreover have "linked ?d q zs"
  proof (rule linked_frame [OF l'])
    fix x assume "x \<in> set (butlast (q # zs))"
    with dist p_in show "mp_next ?d x = mp_next d x" unfolding bl by (auto simp: nxt)
  qed (use q_notin in \<open>auto simp: prv\<close>)
  ultimately have "linked ?d h (xs @ ys @ [h])"
    using p by (simp add: linked_append q nxt prv del: last.simps)
  with dist show ?thesis by (auto simp: dring_def)
qed

lemma dlist_del_head_ring: "dring d h (n # ys) \<Longrightarrow> dring (dlist_del d n) h ys"
  using dlist_del_ring [of d h "[]" n ys] by simp

lemma dlist_del_other:
  assumes "dring d h (xs @ n # ys)" and "x \<notin> set (h # xs @ ys)"
  shows "mp_next (dlist_del d n) x = mp_next d x" and "mp_prev (dlist_del d n) x = mp_prev d x"
proof -
  have "mp_prev d n = last (h # xs)" using dring_prev [of d h xs "n # ys"] assms(1) by simp
  moreover have "mp_next d n = hd (ys @ [h])"
    using dring_next [of d h "xs @ [n]" ys] assms(1) by simp
  moreover have "last (h # xs) \<noteq> x" "hd (ys @ [h]) \<noteq> x"
    using assms(2) by (auto simp: hd_append split: if_splits)
  ultimately show "mp_next (dlist_del d n) x = mp_next d x"
    and "mp_prev (dlist_del d n) x = mp_prev d x"
    by (simp_all add: dlist_del_def dlist_del_orig_def Let_def del: last.simps)
qed

text \<open>\<open>dlist_merge\<close> moves the whole body behind the nodes of the head and empties the body.\<close>

lemma dlist_merge_ring:
  assumes ringh: "dring d h xs" and ringb: "dring d b ys"
    and disj: "set (h # xs) \<inter> set (b # ys) = {}"
  shows "dring (dlist_merge d h b) h (xs @ ys) \<and> dring (dlist_merge d h b) b []"
proof (cases ys)
  case Nil
  with assms show ?thesis by (simp add: dlist_merge_def dlist_empty_ring)
next
  case (Cons y ys')
  let ?l = "last (h # xs)" and ?z = "last (y # ys')" and ?d = "dlist_merge d h b"
  have ne: "\<not> dlist_empty d b" using ringb Cons by (simp add: dlist_empty_ring)
  have distb: "distinct (b # y # ys')" using ringb Cons by (simp add: dring_def)
  have disth: "distinct (h # xs)" using ringh by (simp add: dring_def)
  have lh: "linked d h xs" using ringh by (simp add: dring_def linked_append)
  have lb: "linked d y ys'" using ringb Cons by (simp add: dring_def linked_append)
  have ends: "mp_next d b = y" "mp_prev d b = ?z" "mp_prev d h = ?l"
    using dring_next_head [OF ringb] dring_prev_head [OF ringb] dring_prev_head [OF ringh] Cons
    by simp_all
  have l_in: "?l \<in> set (h # xs)" and z_in: "?z \<in> set (y # ys')" by simp_all
  have sep: "b \<noteq> h" "y \<noteq> h" "?z \<noteq> h" "?l \<noteq> b" "?l \<noteq> y" "?l \<noteq> ?z" "b \<noteq> y" "b \<noteq> ?z"
    using disj distb l_in z_in Cons by (auto simp del: last.simps)
  have nxt: "mp_next ?d = (mp_next d)(?z := h, ?l := y, b := b)"
    and prv: "mp_prev ?d = (mp_prev d)(y := ?l, h := ?z, b := b)"
    using ne ends sep by (auto simp: dlist_merge_def dlist_init_def Let_def simp del: last.simps)
  have "linked ?d h xs"
  proof (rule linked_frame [OF lh])
    fix x assume x: "x \<in> set (butlast (h # xs))"
    then have "x \<noteq> ?l" using last_notin_butlast [OF disth] by blast
    moreover have "x \<in> set (h # xs)" using in_butlast_Cons [OF x] by simp
    then have "x \<noteq> ?z" "x \<noteq> b" using z_in disj Cons by (auto simp del: last.simps)
    ultimately show "mp_next ?d x = mp_next d x" by (simp add: nxt del: last.simps)
  qed (use disth disj Cons in \<open>auto simp: prv simp del: last.simps\<close>)
  moreover have "linked ?d y ys'"
  proof (rule linked_frame [OF lb])
    fix x assume x: "x \<in> set (butlast (y # ys'))"
    then have "x \<noteq> ?z" using last_notin_butlast [of y ys'] distb by auto
    moreover have "x \<in> set (y # ys')" using in_butlast_Cons [OF x] by simp
    then have "x \<noteq> ?l" "x \<noteq> b" using l_in disj distb Cons by (auto simp del: last.simps)
    ultimately show "mp_next ?d x = mp_next d x" by (simp add: nxt del: last.simps)
  qed (use distb disj Cons in \<open>auto simp: prv simp del: last.simps\<close>)
  ultimately have "linked ?d h (xs @ (y # ys') @ [h])"
    using sep by (simp add: linked_append nxt prv del: last.simps)
  then have "dring ?d h (xs @ ys)"
    using disth distb disj Cons by (auto simp: dring_def)
  moreover have "dring ?d b []" using sep by (simp add: dring_def nxt prv)
  ultimately show ?thesis by simp
qed

lemma dlist_visit_f_linked:
  "linked d a (xs @ [h]) \<Longrightarrow> h \<notin> set xs \<Longrightarrow> dlist_visit_f d (mp_next d a) h = Some xs"
  by (induction xs arbitrary: a) (auto simp: dlist_visit_f.simps)

lemma dlist_for_each_f_ring: "dring d h xs \<Longrightarrow> dlist_for_each_f d h = Some xs"
  by (auto simp: dlist_for_each_f_def dring_def intro: dlist_visit_f_linked)

lemma dlist_visit_p_linked:
  "linked d h (xs @ [b]) \<Longrightarrow> h \<notin> set xs \<Longrightarrow> dlist_visit_p d (mp_prev d b) h = Some (rev xs)"
proof (induction xs arbitrary: b rule: rev_induct)
  case Nil
  then show ?case by (simp add: dlist_visit_p.simps)
next
  case (snoc x xs)
  then have "dlist_visit_p d (mp_prev d x) h = Some (rev xs)"
    by (simp add: linked_append)
  moreover have "mp_prev d b = x" "x \<noteq> h"
    using snoc.prems by (auto simp: linked_append)
  ultimately show ?case by (simp add: dlist_visit_p.simps [of d x])
qed

lemma dlist_for_each_p_ring: "dring d h xs \<Longrightarrow> dlist_for_each_p d h = Some (rev xs)"
  by (auto simp: dlist_for_each_p_def dring_def intro: dlist_visit_p_linked)

text \<open>The safe loop may unlink the node it stands on: it visits every node once, in order,
  and leaves an empty ring.\<close>

lemma dlist_visit_f_safe_drain:
  assumes "\<And>p s. dh (body p s) = dlist_del (dh s) p"
  shows "dring (dh s) h xs \<Longrightarrow>
    dlist_visit_f_safe dh body s (hd (xs @ [h])) (mp_next (dh s) (hd (xs @ [h]))) h
      = Some (fold body xs s) \<and> dring (dh (fold body xs s)) h []"
proof (induction xs arbitrary: s)
  case Nil
  then show ?case by (simp add: dlist_visit_f_safe.simps)
next
  case (Cons x xs)
  have ring: "dring (dh (body x s)) h xs"
    using Cons.prems by (simp add: assms dlist_del_head_ring)
  have "mp_next (dh s) x = hd (xs @ [h])"
    using dring_next [of "dh s" h "[x]" xs] Cons.prems by simp
  moreover have "x \<noteq> h" using dring_distinct [OF Cons.prems] by auto
  ultimately show ?case
    using Cons.IH [OF ring] by (simp add: dlist_visit_f_safe.simps [of _ _ s] Let_def)
qed

lemma dlist_for_each_f_safe_drain:
  assumes "\<And>p s. dh (body p s) = dlist_del (dh s) p" and "dring (dh s) h xs"
  shows "dlist_for_each_f_safe dh body s h = Some (fold body xs s)"
    and "dring (dh (fold body xs s)) h []"
  using dlist_visit_f_safe_drain [of dh body s h xs] assms
  by (simp_all add: dlist_for_each_f_safe_def Let_def dring_next_head)

lemma dlist_visit_p_safe_drain:
  assumes "\<And>p s. dh (body p s) = dlist_del (dh s) p"
  shows "dring (dh s) h xs \<Longrightarrow>
    dlist_visit_p_safe dh body s (last (h # xs)) (mp_prev (dh s) (last (h # xs))) h
      = Some (fold body (rev xs) s) \<and> dring (dh (fold body (rev xs) s)) h []"
proof (induction xs arbitrary: s rule: rev_induct)
  case Nil
  then show ?case by (simp add: dlist_visit_p_safe.simps)
next
  case (snoc x xs)
  have ring: "dring (dh (body x s)) h xs"
    using dlist_del_ring [of "dh s" h xs x "[]"] snoc.prems by (simp add: assms)
  have "mp_prev (dh s) x = last (h # xs)"
    using dring_prev [of "dh s" h xs "[x]"] snoc.prems by simp
  moreover have "x \<noteq> h" using dring_distinct [OF snoc.prems] by auto
  ultimately show ?case
    using snoc.IH [OF ring] by (simp add: dlist_visit_p_safe.simps [of _ _ s] Let_def)
qed

lemma dlist_for_each_p_safe_drain:
  assumes "\<And>p s. dh (body p s) = dlist_del (dh s) p" and "dring (dh s) h xs"
  shows "dlist_for_each_p_safe dh body s h = Some (fold body (rev xs) s)"
    and "dring (dh (fold body (rev xs) s)) h []"
  using dlist_visit_p_safe_drain [of dh body s h xs] assms
  by (simp_all add: dlist_for_each_p_safe_def Let_def dring_prev_head)

section \<open>Rings side by side\<close>

text \<open>The links outside of \<open>X\<close> are the same.\<close>

definition apart :: "dheap \<Rightarrow> dheap \<Rightarrow> addr set \<Rightarrow> bool" where
  "apart d d' X \<longleftrightarrow> (\<forall>x. x \<notin> X \<longrightarrow> mp_next d' x = mp_next d x \<and> mp_prev d' x = mp_prev d x)"

lemma apartD: "apart d d' X \<Longrightarrow> x \<notin> X \<Longrightarrow> mp_next d' x = mp_next d x \<and> mp_prev d' x = mp_prev d x"
  by (simp add: apart_def)

lemma apart_ring:
  assumes "dring d h xs" and d': "apart d d' X" and X: "set (h # xs) \<inter> X = {}"
  shows "dring d' h xs"
proof (rule dring_frame [OF assms(1)])
  fix x assume "x \<in> insert h (set xs)"
  then have "x \<notin> X" using X by auto
  with apartD [OF d'] show "mp_next d' x = mp_next d x" "mp_prev d' x = mp_prev d x" by simp_all
qed

lemma apart_trans: "apart d d1 X \<Longrightarrow> apart d1 d2 Y \<Longrightarrow> X \<union> Y \<subseteq> Z \<Longrightarrow> apart d d2 Z"
  unfolding apart_def by (metis UnCI subsetD)

lemma apart_sets:
  "apart d d X" "apart d e X \<Longrightarrow> p \<in> X \<Longrightarrow> apart d (set_next e p v) X" "apart d e X \<Longrightarrow> p \<in> X \<Longrightarrow> apart d (set_prev e p v) X"
  by (auto simp: apart_def)

lemma apart_merge:
  assumes h: "dring d h xs" and b: "dring d b ys"
  shows "apart d (dlist_merge d h b) (set (h # xs @ b # ys))"
proof -
  define X where "X = set (h # xs @ b # ys)"
  have "mp_next d b \<in> X" using dring_next_head [OF b] by (cases ys) (simp_all add: X_def)
  moreover have "mp_prev d b \<in> X" using dring_prev_head [OF b] last_in_set [of "b # ys"] by (auto simp: X_def)
  moreover have "mp_prev d h \<in> X" using dring_prev_head [OF h] last_in_set [of "h # xs"] by (auto simp: X_def)
  moreover have "h \<in> X" "b \<in> X" by (simp_all add: X_def)
  ultimately have "apart d (dlist_merge d h b) X"
    unfolding dlist_merge_def dlist_init_def Let_def
    by (auto intro!: apart_sets)
  then show ?thesis by (simp add: X_def)
qed

lemma apart_ops:
  "apart d (dlist_init d p) {p}"
  "dring d h xs \<Longrightarrow> apart d (dlist_add_tail d h n) (insert n (set (h # xs)))"
  "dring d h (xs @ n # ys) \<Longrightarrow> apart d (dlist_del d n) (set (h # xs @ ys))"
proof -
  show "apart d (dlist_init d p) {p}" by (simp add: apart_def dlist_init_def Let_def)
  show "apart d (dlist_add_tail d h n) (insert n (set (h # xs)))" if r: "dring d h xs"
  proof -
    have "mp_prev d h \<in> set (h # xs)" using dring_prev_head [OF r] last_in_set [of "h # xs"] by auto
    then have "x \<noteq> mp_prev d h" if "x \<notin> set (h # xs)" for x using that by metis
    then show ?thesis by (simp add: apart_def dlist_add_tail_def dlist_add_orig_def Let_def)
  qed
  show "dring d h (xs @ n # ys) \<Longrightarrow> apart d (dlist_del d n) (set (h # xs @ ys))"
    using dlist_del_other [of d h xs n ys] by (simp add: apart_def)
qed

section \<open>Loops over arbitrary links\<close>

text \<open>Whatever the links are, a loop ends exactly when following them comes back to the head.\<close>

lemma visit_f_returns: "dlist_visit_f d p h \<noteq> None \<longleftrightarrow> (\<exists>k. (mp_next d ^^ k) p = h)"
proof
  have "(mp_next d ^^ length xs) p = h" if "dlist_visit_f d p h = Some xs" for xs
    using that
  proof (induction xs arbitrary: p)
    case Nil
    then show ?case by (subst (asm) dlist_visit_f.simps) (auto split: if_splits bind_splits)
  next
    case (Cons x xs)
    then have "dlist_visit_f d (mp_next d p) h = Some xs"
      by (subst (asm) dlist_visit_f.simps) (auto split: if_splits bind_splits)
    from Cons.IH [OF this] show ?case by (simp add: funpow_swap1)
  qed
  then show "dlist_visit_f d p h \<noteq> None \<Longrightarrow> \<exists>k. (mp_next d ^^ k) p = h" by auto
next
  assume "\<exists>k. (mp_next d ^^ k) p = h"
  then obtain k where "(mp_next d ^^ k) p = h" by blast
  then show "dlist_visit_f d p h \<noteq> None"
  proof (induction k arbitrary: p)
    case (Suc k)
    then have "dlist_visit_f d (mp_next d p) h \<noteq> None" by (simp add: funpow_swap1)
    then show ?case by (subst dlist_visit_f.simps) auto
  qed (simp add: dlist_visit_f.simps)
qed

text \<open>The other direction is the same loop with the links exchanged.\<close>

definition turned :: "dheap \<Rightarrow> dheap" where
  "turned d = \<lparr>mp_next = mp_prev d, mp_prev = mp_next d\<rparr>"

lemma visit_p_turned: "dlist_visit_p d p h = dlist_visit_f (turned d) p h"
proof -
  have nxt: "mp_next (turned d) = mp_prev d" by (simp add: turned_def)
  have "dlist_visit_p d p h = Some xs \<longleftrightarrow> dlist_visit_f (turned d) p h = Some xs" for xs
  proof (induction xs arbitrary: p)
    case Nil
    then show ?case
      by (subst dlist_visit_p.simps, subst dlist_visit_f.simps) (auto simp: nxt split: bind_splits)
  next
    case (Cons x xs)
    have "Option.bind r (\<lambda>rest. Some (p # rest)) = Some (x # xs) \<longleftrightarrow> p = x \<and> r = Some xs" for r
      by (cases r) auto
    with Cons.IH show ?case
      by (subst dlist_visit_p.simps, subst dlist_visit_f.simps) (simp add: nxt)
  qed
  then show ?thesis by (metis option.exhaust)
qed

section \<open>Properties\<close>

text \<open>\<open>dlist_merge\<close> appends the nodes of the body to those of the head and leaves the
  body empty.\<close>

theorem dlist_merge_appends:
  assumes "dring d h xs" and "dring d b ys" and "set (h # xs) \<inter> set (b # ys) = {}"
  shows "dring (dlist_merge d h b) h (xs @ ys) \<and> dring (dlist_merge d h b) b []
    \<and> dlist_for_each_f (dlist_merge d h b) h = Some (xs @ ys)
    \<and> dlist_for_each_p (dlist_merge d h b) h = Some (rev ys @ rev xs)
    \<and> dlist_empty (dlist_merge d h b) b"
  using dlist_merge_ring [OF assms] dlist_for_each_f_ring dlist_for_each_p_ring dlist_empty_ring
  by fastforce

definition two_rings :: dheap where
  "two_rings = dlist_add_tail (dlist_add_tail (dlist_add_tail
     (dlist_init (dlist_init \<lparr>mp_next = \<lambda>_. 0, mp_prev = \<lambda>_. 0\<rparr> 16) 32) 16 48) 32 64) 32 80"

lemma two_rings: "dring two_rings 16 [48]" "dring two_rings 32 [64, 80]"
  by (simp_all add: dring_def two_rings_def dlist_add_tail_def dlist_add_orig_def dlist_init_def Let_def)

theorem dlist_merge_appends_witness:
  "dlist_for_each_f (dlist_merge two_rings 16 32) 16 = Some [48, 64, 80]"
  using dlist_merge_appends [OF two_rings] by simp

text \<open>C37. The loops over a double list end exactly when the links lead from the head back to the head;
  the safe loops end on every ring although their body takes the node it stands on out of the list,
  run it once for every node in the order of the direction, and leave an empty ring.\<close>

theorem dlist_loops_end:
  shows "(dlist_for_each_f d h \<noteq> None \<longleftrightarrow> (\<exists>k. (mp_next d ^^ Suc k) h = h))
    \<and> (dlist_for_each_p d h \<noteq> None \<longleftrightarrow> (\<exists>k. (mp_prev d ^^ Suc k) h = h))
    \<and> (dring (dh s) b xs \<and> (\<forall>p s. dh (body p s) = dlist_del (dh s) p) \<longrightarrow>
        dlist_for_each_f_safe dh body s b = Some (fold body xs s) \<and> dring (dh (fold body xs s)) b []
        \<and> dlist_for_each_p_safe dh body s b = Some (fold body (rev xs) s) \<and> dring (dh (fold body (rev xs) s)) b [])"
proof (intro conjI)
  show "dlist_for_each_f d h \<noteq> None \<longleftrightarrow> (\<exists>k. (mp_next d ^^ Suc k) h = h)"
    unfolding dlist_for_each_f_def visit_f_returns by (simp add: funpow_swap1)
  show "dlist_for_each_p d h \<noteq> None \<longleftrightarrow> (\<exists>k. (mp_prev d ^^ Suc k) h = h)"
    unfolding dlist_for_each_p_def visit_p_turned visit_f_returns by (simp add: turned_def funpow_swap1)
qed (use dlist_for_each_f_safe_drain [of dh body s b xs] dlist_for_each_p_safe_drain [of dh body s b xs] in blast)

text \<open>A list whose second node leads to itself, and a ring of two nodes that is drained.\<close>

theorem dlist_loops_end_witness:
  "dlist_for_each_f \<lparr>mp_next = id(16 := 48), mp_prev = id\<rparr> 16 = None
    \<and> dlist_for_each_p \<lparr>mp_next = id(16 := 48), mp_prev = id\<rparr> 16 = Some []
    \<and> dlist_for_each_f_safe snd (\<lambda>p (ps, d). (ps @ [p], dlist_del d p)) ([], two_rings) 32
        = Some ([64, 80], dlist_del (dlist_del two_rings 64) 80)"
proof -
  let ?d = "\<lparr>mp_next = id(16 := 48), mp_prev = id\<rparr>" and ?body = "\<lambda>p (ps, d). (ps @ [p], dlist_del d p)"
  have "(mp_next ?d ^^ Suc k) 16 = 48" for k by (induction k) simp_all
  then have "\<nexists>k. (mp_next ?d ^^ Suc k) 16 = 16" by simp
  moreover have ring: "dring (snd ([], two_rings)) 32 [64, 80]" using two_rings(2) by simp
  moreover have "\<forall>p s. snd (?body p s) = dlist_del (snd s) p" by (simp split: prod.split)
  ultimately show ?thesis
    using dlist_loops_end [where d = ?d and h = 16 and dh = snd and s = "([], two_rings)" and b = 32 and xs = "[64, 80]" and body = ?body]
    by (simp add: dlist_for_each_p_def dlist_visit_p.simps)
qed

text \<open>C36. \<open>dlist_add_tail\<close>, \<open>dlist_get_head\<close> and \<open>dlist_del\<close> make the double list a queue:
  a node added at the tail goes behind the others, the head is the oldest node, and deleting a
  node anywhere removes just that node.\<close>

theorem dlist_is_queue:
  assumes "dring d h xs"
  shows "dlist_get_head d h = (case xs of [] \<Rightarrow> 0 | x # _ \<Rightarrow> x)
    \<and> (n \<notin> set (h # xs) \<longrightarrow> dring (dlist_add_tail d h n) h (xs @ [n])
          \<and> dring (dlist_add_head d h n) h (n # xs))
    \<and> (n \<in> set xs \<longrightarrow> dring (dlist_del d n) h (remove1 n xs))"
proof -
  have "dring (dlist_del d n) h (remove1 n xs)" if n: "n \<in> set xs"
  proof -
    from split_list_first [OF n] obtain ys zs where xs: "xs = ys @ n # zs" "n \<notin> set ys" by blast
    then show ?thesis using dlist_del_ring assms by (simp add: remove1_append_notin)
  qed
  then show ?thesis
    using assms dlist_add_tail_ring dlist_add_head_ring dlist_get_head_ring
    by (auto split: list.splits)
qed

theorem dlist_is_queue_witness:
  "dring (dlist_del two_rings 64) 32 [80] \<and> dlist_get_head two_rings 32 = 64"
  using dlist_is_queue [OF two_rings(2), of 64] by simp

end
