(* ===== verification/Buffer.thy ===== *)
theory Buffer
  imports DList
begin

text \<open>
  The byte arrays and buffers of \<open>include/buffer.h\<close> and \<open>src/buffer.c\<close>.  \<open>blocks\<close> maps the
  address of every block that \<open>calloc\<close> gave out and that was not freed to its bytes; the
  address a call of \<open>calloc\<close> returns is an argument of the operation, 0 when it fails.  The
  link node of a buffer at address \<open>b\<close> is the \<open>dlist_t\<close> at \<open>buffer_node b\<close>.
\<close>

section \<open>The code\<close>

type_synonym blocks = "addr \<rightharpoonup> byte list"

definition calloc :: "blocks \<Rightarrow> addr \<Rightarrow> int \<Rightarrow> blocks" where
  "calloc bl p n = (if p = 0 then bl else bl(p \<mapsto> replicate (nat n) 0))"

definition c_free :: "blocks \<Rightarrow> addr \<Rightarrow> blocks" where
  "c_free bl p = bl(p := None)"

record hixo_array =
  mp_data :: addr
  arr_capacity :: int

definition hixo_create_byte_array ::
    "blocks \<Rightarrow> hixo_array \<Rightarrow> int \<Rightarrow> addr \<Rightarrow> blocks \<times> hixo_array" where
  "hixo_create_byte_array bl arr capacity p =
     (if capacity > 0 then (calloc bl p capacity, arr\<lparr>mp_data := p, arr_capacity := capacity\<rparr>)
      else (bl, arr\<lparr>mp_data := 0, arr_capacity := 0\<rparr>))"

definition hixo_byte_array_transfer ::
    "blocks \<Rightarrow> hixo_array \<Rightarrow> hixo_array \<Rightarrow> blocks \<times> hixo_array \<times> hixo_array" where
  "hixo_byte_array_transfer bl recv send =
     (let bl1 = (if mp_data recv \<noteq> 0 then c_free bl (mp_data recv) else bl);
          recv1 = recv\<lparr>mp_data := mp_data send, arr_capacity := arr_capacity send\<rparr>;
          send1 = send\<lparr>mp_data := 0, arr_capacity := 0\<rparr>
      in (bl1, recv1, send1))"

definition hixo_destroy_byte_array :: "blocks \<Rightarrow> hixo_array \<Rightarrow> blocks \<times> hixo_array" where
  "hixo_destroy_byte_array bl arr =
     (if mp_data arr \<noteq> 0 then (c_free bl (mp_data arr), arr\<lparr>mp_data := 0\<rparr>) else (bl, arr))"

record hixo_buffer =
  buf_offset :: int
  buf_size :: int
  m_byte_array :: hixo_array

text \<open>\<open>m_node\<close> follows the two sizes.\<close>

definition buffer_node :: "addr \<Rightarrow> addr" where
  "buffer_node p_buf = p_buf + 16"

definition hixo_buffer_get_data :: "hixo_buffer \<Rightarrow> addr" where
  "hixo_buffer_get_data buf = mp_data (m_byte_array buf)"

definition hixo_buffer_full :: "hixo_buffer \<Rightarrow> bool" where
  "hixo_buffer_full buf \<longleftrightarrow> buf_size buf \<ge> arr_capacity (m_byte_array buf)"

definition hixo_buffer_clean :: "hixo_buffer \<Rightarrow> hixo_buffer" where
  "hixo_buffer_clean buf = buf"

definition hixo_buffer_set_size :: "hixo_buffer \<Rightarrow> int \<Rightarrow> hixo_buffer" where
  "hixo_buffer_set_size buf size' =
     (let s = (if size' > 0 then size' else 0) in buf\<lparr>buf_size := s\<rparr>)"

definition hixo_buffer_get_size :: "hixo_buffer \<Rightarrow> int" where
  "hixo_buffer_get_size buf = buf_size buf"

definition hixo_buffer_get_capacity :: "hixo_buffer \<Rightarrow> int" where
  "hixo_buffer_get_capacity buf = arr_capacity (m_byte_array buf)"

definition hixo_create_buffer ::
    "blocks \<Rightarrow> dheap \<Rightarrow> addr \<Rightarrow> hixo_buffer \<Rightarrow> int \<Rightarrow> addr \<Rightarrow> (int \<times> blocks \<times> dheap \<times> hixo_buffer) run" where
  "hixo_create_buffer bl d p_buf buf capacity p =
     assert_run (mp_data (m_byte_array buf) = 0)
       (if capacity < 0 then Inr (HIXO_ERROR, bl, d, buf)
        else
          let r = hixo_create_byte_array bl (m_byte_array buf) (if capacity > 0 then capacity else 0) p;
              buf1 = buf\<lparr>m_byte_array := snd r, buf_offset := 0, buf_size := 0\<rparr>
          in Inr (HIXO_OK, fst r, dlist_init d (buffer_node p_buf), buf1))"

definition hixo_expand_buffer :: "blocks \<Rightarrow> hixo_buffer \<Rightarrow> addr \<Rightarrow> (blocks \<times> hixo_buffer) run" where
  "hixo_expand_buffer bl buf p =
     bind_run (intptr_run (2 * arr_capacity (m_byte_array buf))) (\<lambda>data_size.
       assert_run (data_size > 0)
         (let r = hixo_create_byte_array bl \<lparr>mp_data = 0, arr_capacity = 0\<rparr> data_size p;
              t = hixo_byte_array_transfer (fst r) (m_byte_array buf) (snd r)
          in Inr (fst t, buf\<lparr>m_byte_array := fst (snd t)\<rparr>)))"

definition hixo_destroy_buffer :: "blocks \<Rightarrow> hixo_buffer \<Rightarrow> blocks \<times> hixo_buffer" where
  "hixo_destroy_buffer bl buf =
     (let r = hixo_destroy_byte_array bl (m_byte_array buf)
      in (fst r, buf\<lparr>m_byte_array := snd r\<rparr>))"

section \<open>Well-formed buffers\<close>

text \<open>The array of a buffer is a live block of its capacity, and the size is within it.\<close>

definition array_ok :: "blocks \<Rightarrow> hixo_array \<Rightarrow> bool" where
  "array_ok bl arr \<longleftrightarrow>
     (if mp_data arr = 0 then arr_capacity arr = 0
      else \<exists>bs. bl (mp_data arr) = Some bs \<and> arr_capacity arr = int (length bs))"

definition buffer_ok :: "blocks \<Rightarrow> hixo_buffer \<Rightarrow> bool" where
  "buffer_ok bl buf \<longleftrightarrow> array_ok bl (m_byte_array buf)
     \<and> 0 \<le> buf_size buf \<and> buf_size buf \<le> arr_capacity (m_byte_array buf)"

lemma hixo_create_buffer_ok:
  assumes "mp_data (m_byte_array buf) = 0" and "0 \<le> capacity" and "0 < capacity \<Longrightarrow> p \<noteq> 0"
  obtains buf' where "hixo_create_buffer bl d p_buf buf capacity p
      = Inr (HIXO_OK, if 0 < capacity then calloc bl p capacity else bl,
             dlist_init d (buffer_node p_buf), buf')"
    and "buffer_ok (if 0 < capacity then calloc bl p capacity else bl) buf'"
    and "hixo_buffer_get_capacity buf' = capacity" and "hixo_buffer_get_size buf' = 0"
proof -
  let ?a = "(m_byte_array buf)\<lparr>mp_data := if 0 < capacity then p else 0, arr_capacity := capacity\<rparr>"
  let ?b = "buf\<lparr>m_byte_array := ?a, buf_offset := 0, buf_size := 0\<rparr>"
  show ?thesis
    by (rule that [of ?b])
      (use assms in \<open>auto simp: hixo_create_buffer_def hixo_create_byte_array_def run_simps
        Let_def buffer_ok_def array_ok_def calloc_def hixo_buffer_get_capacity_def
        hixo_buffer_get_size_def\<close>)
qed

section \<open>Properties\<close>

text \<open>A created buffer is empty, has the requested capacity, and destroying it gives back
  exactly the block it took; a negative capacity is refused, and creating over a live array
  fails the assertion.\<close>

theorem buffer_create_destroy:
  assumes "bl p = None" and "p \<noteq> 0"
  shows "if mp_data (m_byte_array buf) \<noteq> 0
      then hixo_create_buffer bl d p_buf buf capacity p = Inl Assert_failed
    else if capacity < 0
      then hixo_create_buffer bl d p_buf buf capacity p = Inr (HIXO_ERROR, bl, d, buf)
    else \<exists>bl' buf'. hixo_create_buffer bl d p_buf buf capacity p
          = Inr (HIXO_OK, bl', dlist_init d (buffer_node p_buf), buf')
        \<and> buffer_ok bl' buf' \<and> hixo_buffer_get_size buf' = 0
        \<and> hixo_buffer_get_capacity buf' = capacity
        \<and> fst (hixo_destroy_buffer bl' buf') = bl"
proof -
  have erased: "bl(p := None) = bl" using assms(1) by auto
  show ?thesis
    using assms(2) erased
    by (auto simp: hixo_create_buffer_def hixo_create_byte_array_def run_simps Let_def
        buffer_ok_def array_ok_def calloc_def hixo_buffer_get_capacity_def
        hixo_buffer_get_size_def hixo_destroy_buffer_def hixo_destroy_byte_array_def c_free_def)
qed

theorem buffer_create_destroy_witness:
  "\<exists>bl' buf'. hixo_create_buffer (\<lambda>_. None) \<lparr>mp_next = \<lambda>_. 0, mp_prev = \<lambda>_. 0\<rparr> 8
       \<lparr>buf_offset = 0, buf_size = 0, m_byte_array = \<lparr>mp_data = 0, arr_capacity = 0\<rparr>\<rparr> 4096 64
     = Inr (HIXO_OK, bl', dlist_init \<lparr>mp_next = \<lambda>_. 0, mp_prev = \<lambda>_. 0\<rparr> 24, buf')
     \<and> fst (hixo_destroy_buffer bl' buf') = (\<lambda>_. None)"
  using buffer_create_destroy [of "\<lambda>_. None" 64
      "\<lparr>buf_offset = 0, buf_size = 0, m_byte_array = \<lparr>mp_data = 0, arr_capacity = 0\<rparr>\<rparr>"
      "\<lparr>mp_next = \<lambda>_. 0, mp_prev = \<lambda>_. 0\<rparr>" 8 4096]
  by (auto simp: buffer_node_def)

text \<open>\<open>hixo_expand_buffer\<close> doubles the capacity and leaks nothing, but the bytes stored so
  far are lost: the new block is all zero while the size of the buffer stays.\<close>

theorem buffer_expand_loses_data:
  assumes "buffer_ok bl buf" and "bl (mp_data (m_byte_array buf)) = Some bs" and "bs \<noteq> []"
    and "int (length bs) < 2 ^ 62" and "bl p = None" and "p \<noteq> 0" and "mp_data (m_byte_array buf) \<noteq> 0"
  shows "\<exists>buf'. hixo_expand_buffer bl buf p
        = Inr (bl(p \<mapsto> replicate (2 * length bs) 0, mp_data (m_byte_array buf) := None), buf')
    \<and> hixo_buffer_get_capacity buf' = 2 * int (length bs)
    \<and> hixo_buffer_get_data buf' = p \<and> hixo_buffer_get_size buf' = hixo_buffer_get_size buf"
proof -
  have cap: "arr_capacity (m_byte_array buf) = int (length bs)"
    using assms(1,2,7) by (auto simp: buffer_ok_def array_ok_def)
  moreover have "is_intptr (2 * int (length bs))"
    using assms(4) by (simp add: is_intptr_def INTEGER_MIN_def INTEGER_MAX_def)
  moreover have "nat (2 * int (length bs)) = 2 * length bs" by simp
  moreover have "p \<noteq> mp_data (m_byte_array buf)" using assms(2,5) by auto
  ultimately show ?thesis
    using assms(3,6,7)
    by (simp add: hixo_expand_buffer_def intptr_run_def run_simps hixo_create_byte_array_def
        hixo_byte_array_transfer_def Let_def calloc_def c_free_def
        hixo_buffer_get_capacity_def hixo_buffer_get_data_def hixo_buffer_get_size_def)
qed

theorem buffer_expand_loses_data_witness:
  "\<exists>buf'. hixo_expand_buffer [64 \<mapsto> [1, 2]]
       \<lparr>buf_offset = 0, buf_size = 2, m_byte_array = \<lparr>mp_data = 64, arr_capacity = 2\<rparr>\<rparr> 128
     = Inr ([64 \<mapsto> [1, 2], 128 \<mapsto> replicate 4 0](64 := None), buf') \<and> hixo_buffer_get_size buf' = 2"
  using buffer_expand_loses_data [of "[64 \<mapsto> [1, 2]]"
      "\<lparr>buf_offset = 0, buf_size = 2, m_byte_array = \<lparr>mp_data = 64, arr_capacity = 2\<rparr>\<rparr>" "[1, 2]" 128]
  by (auto simp: buffer_ok_def array_ok_def hixo_buffer_get_size_def)

end
