(* ===== verification/Spinlock.thy ===== *)
theory Spinlock
  imports Prelude
begin

text \<open>
  The lock of \<open>include/spinlock.h\<close> and its use by the workers.  All workers map the same
  shared memory page; \<open>epoll_process_events\<close> tries the lock at its head and, if it got it,
  releases it at its exit, so a worker is either outside a round or inside one, with or
  without the lock.  \<open>enter_round\<close> and \<open>leave_round\<close> are those two statements, of which the function
  is made in Epoll.thy; \<open>lock_step\<close> interleaves them for any number of workers.
\<close>

unbundle bit_operations_syntax

section \<open>The code\<close>

type_synonym shm = "addr \<Rightarrow> 64 word"

text \<open>\<open>cmpxchgl\<close> compares and replaces the low 32 bits of the 64-bit \<open>atomic_t\<close>; the result
  is the zero flag.\<close>

definition atomic_cmp_set :: "shm \<Rightarrow> addr \<Rightarrow> 32 word \<Rightarrow> 32 word \<Rightarrow> (bool \<times> shm) run" where
  "atomic_cmp_set m lock old new =
     assert_run (lock \<noteq> 0)
       (if ucast (m lock) = old
        then Inr (True, m(lock := (m lock AND NOT (mask 32)) OR ucast new))
        else Inr (False, m))"

definition spinlock_try :: "shm \<Rightarrow> addr \<Rightarrow> (bool \<times> shm) run" where
  "spinlock_try m lock = atomic_cmp_set m lock 0 1"

definition spinlock_unlock :: "shm \<Rightarrow> addr \<Rightarrow> shm" where
  "spinlock_unlock m lock = m(lock := 0)"

lemma spinlock_try_free:
  "lock \<noteq> 0 \<Longrightarrow> m lock = 0 \<Longrightarrow> spinlock_try m lock = Inr (True, m(lock := 1))"
  by (simp add: spinlock_try_def atomic_cmp_set_def run_simps)

lemma spinlock_try_held:
  "lock \<noteq> 0 \<Longrightarrow> m lock = 1 \<Longrightarrow> spinlock_try m lock = Inr (False, m)"
  by (simp add: spinlock_try_def atomic_cmp_set_def run_simps)

text \<open>What \<open>epoll_process_events\<close> does with the lock at its head and at its exit; the first component is
  \<open>m_hold_lock\<close>.\<close>

definition enter_round :: "int \<Rightarrow> shm \<Rightarrow> addr \<Rightarrow> (bool \<times> shm) run" where
  "enter_round pw m lock = (if pw > 0 then spinlock_try m lock else Inr (False, m))"

definition leave_round :: "bool \<Rightarrow> shm \<Rightarrow> addr \<Rightarrow> bool \<times> shm" where
  "leave_round hold m lock = (if hold then (False, spinlock_unlock m lock) else (False, m))"

lemma spinlock_try_taken:
  "lock \<noteq> 0 \<Longrightarrow> ucast (m lock) \<noteq> (0 :: 32 word) \<Longrightarrow> spinlock_try m lock = Inr (False, m)"
  by (simp add: spinlock_try_def atomic_cmp_set_def run_simps)

lemma enter_round_taken:
  "lock \<noteq> 0 \<Longrightarrow> ucast (m lock) \<noteq> (0 :: 32 word) \<Longrightarrow> enter_round pw m lock = Inr (False, m)"
  by (simp add: enter_round_def spinlock_try_taken)

lemma enter_round_returns:
  assumes "lock \<noteq> 0"
  obtains got m' where "enter_round pw m lock = Inr (got, m')"
  using assms by (cases "pw > 0"; cases "ucast (m lock) = (0 :: 32 word)")
    (auto simp: enter_round_def spinlock_try_def atomic_cmp_set_def run_simps)

section \<open>The workers\<close>

datatype place = Outside | Inside bool | Dead bool

record workers =
  page :: shm
  at :: "nat \<Rightarrow> place"

text \<open>\<open>Inside True\<close> is a worker whose \<open>m_hold_lock\<close> is set.  A worker may die inside a round:
  by a signal, or by an assertion that fails; then it leaves the page as it is, for the kernel releases
  only what it knows of.\<close>

inductive lock_step :: "addr \<Rightarrow> workers \<Rightarrow> workers \<Rightarrow> bool" for p where
  enter: "at w i = Outside \<Longrightarrow> enter_round pw (page w) p = Inr (got, m') \<Longrightarrow>
     lock_step p w (w\<lparr>page := m', at := (at w)(i := Inside got)\<rparr>)"
| leave: "at w i = Inside hold \<Longrightarrow>
     lock_step p w (w\<lparr>page := snd (leave_round hold (page w) p), at := (at w)(i := Outside)\<rparr>)"
| die: "at w i = Inside hold \<Longrightarrow> lock_step p w (w\<lparr>at := (at w)(i := Dead hold)\<rparr>)"

inductive lock_reachable :: "addr \<Rightarrow> workers \<Rightarrow> workers \<Rightarrow> bool" for p where
  start: "lock_reachable p w w"
| step: "lock_reachable p w w' \<Longrightarrow> lock_step p w' w'' \<Longrightarrow> lock_reachable p w w''"

inductive_cases lock_stepE: "lock_step p w w'"

definition has_lock :: "workers \<Rightarrow> nat \<Rightarrow> bool" where
  "has_lock w i \<longleftrightarrow> at w i = Inside True \<or> at w i = Dead True"

definition fresh_workers :: "addr \<Rightarrow> workers \<Rightarrow> bool" where
  "fresh_workers p w \<longleftrightarrow> p \<noteq> 0 \<and> page w p = 0 \<and> (\<forall>i. at w i = Outside)"

definition lock_inv :: "addr \<Rightarrow> workers \<Rightarrow> bool" where
  "lock_inv p w \<longleftrightarrow> p \<noteq> 0
     \<and> (if \<exists>i. has_lock w i then page w p = 1 else page w p = 0)
     \<and> (\<forall>i j. has_lock w i \<and> has_lock w j \<longrightarrow> i = j)"

lemma lock_inv_has: "lock_inv p w \<Longrightarrow> has_lock w i \<Longrightarrow> page w p = 1"
  and lock_inv_one: "lock_inv p w \<Longrightarrow> has_lock w i \<Longrightarrow> has_lock w j \<Longrightarrow> j = i"
  and lock_inv_none: "lock_inv p w \<Longrightarrow> \<not> (\<exists>i. has_lock w i) \<Longrightarrow> page w p = 0"
  by (auto simp: lock_inv_def split: if_splits)

lemma lock_inv_step:
  assumes inv: "lock_inv p w" and step: "lock_step p w w'"
  shows "lock_inv p w'"
  using step
proof cases
  case 1: (enter i pw got m')
  then have i: "\<not> has_lock w i" by (simp add: has_lock_def)
  show ?thesis
  proof (cases "\<exists>k. has_lock w k")
    case True
    then have "p \<noteq> 0" "ucast (page w p) \<noteq> (0 :: 32 word)" using inv by (simp_all add: lock_inv_def)
    then have "got = False" "m' = page w" using 1 enter_round_taken [of p "page w" pw] by simp_all
    then have "has_lock w' k = has_lock w k" for k using 1 i by (auto simp: has_lock_def)
    then show ?thesis using inv 1 \<open>m' = page w\<close> by (simp add: lock_inv_def)
  next
    case False
    then have "if pw > 0 then got = True \<and> m' = (page w)(p := 1) else got = False \<and> m' = page w"
      using inv 1 spinlock_try_free [of p "page w"] by (auto simp: lock_inv_def enter_round_def split: if_splits)
    moreover have "has_lock w' k \<longleftrightarrow> got \<and> k = i" for k using 1 False by (auto simp: has_lock_def)
    ultimately show ?thesis using inv 1 False by (auto simp: lock_inv_def split: if_splits)
  qed
next
  case 3: (leave i hold)
  show ?thesis
  proof (cases hold)
    case True
    then have "has_lock w i" using 3 by (simp add: has_lock_def)
    then have "\<not> has_lock w' k" for k using inv 3 by (auto simp: has_lock_def lock_inv_def)
    then show ?thesis using inv 3 True by (simp add: lock_inv_def leave_round_def spinlock_unlock_def)
  next
    case False
    then have "has_lock w' k = has_lock w k" for k using 3 by (auto simp: has_lock_def)
    then show ?thesis using inv 3 False by (simp add: lock_inv_def leave_round_def)
  qed
next
  case 4: (die i hold)
  then have "has_lock w' k = has_lock w k" for k by (auto simp: has_lock_def)
  then show ?thesis using inv 4 by (simp add: lock_inv_def)
qed

lemma lock_inv_reachable: "lock_reachable p w w' \<Longrightarrow> lock_inv p w \<Longrightarrow> lock_inv p w'"
  by (induction rule: lock_reachable.induct) (auto intro: lock_inv_step)

lemma fresh_lock_inv: "fresh_workers p w \<Longrightarrow> lock_inv p w"
  by (auto simp: fresh_workers_def lock_inv_def has_lock_def)

section \<open>Properties\<close>

text \<open>C13. At most one worker holds the accept lock, whatever the interleaving, and the lock word
  says whether one does.\<close>

theorem accept_lock_exclusive:
  assumes "fresh_workers p w" and "lock_reachable p w w'" and "has_lock w' i"
  shows "page w' p = 1 \<and> (\<forall>j. has_lock w' j \<longrightarrow> j = i)"
proof -
  have "lock_inv p w'" using lock_inv_reachable [OF assms(2)] fresh_lock_inv [OF assms(1)] .
  with assms(3) show ?thesis using lock_inv_has lock_inv_one by blast
qed

definition two_workers :: workers where
  "two_workers = \<lparr>page = (\<lambda>_. 0)(64 := 1), at = (\<lambda>_. Outside)(1 := Inside True)\<rparr>"

lemma two_workers_reachable:
  "lock_reachable 64 \<lparr>page = \<lambda>_. 0, at = \<lambda>_. Outside\<rparr> two_workers"
proof -
  let ?w = "\<lparr>page = \<lambda>_. 0, at = \<lambda>_. Outside\<rparr>"
  have "lock_step 64 ?w (?w\<lparr>page := (\<lambda>_. 0)(64 := 1), at := (at ?w)(1 := Inside True)\<rparr>)"
    by (rule enter [where pw = 1]) (simp_all add: spinlock_try_free enter_round_def)
  then show ?thesis
    using lock_reachable.step [OF lock_reachable.start] by (simp add: two_workers_def)
qed

theorem accept_lock_exclusive_witness:
  "has_lock two_workers 1 \<and> page two_workers 64 = 1 \<and> \<not> has_lock two_workers 0"
  using accept_lock_exclusive [OF _ two_workers_reachable, of 1]
  by (auto simp: fresh_workers_def has_lock_def two_workers_def)

text \<open>The lock is never stuck while its holder lives: leaving the round frees it, and then
  the next worker that tries gets it.\<close>

theorem accept_lock_released:
  assumes "fresh_workers p w" and "lock_reachable p w w'" and "at w' i = Inside True"
    and "at w' j = Outside"
  shows "\<exists>w1 w2. lock_step p w' w1 \<and> at w1 i = Outside \<and> page w1 p = 0
    \<and> lock_step p w1 w2 \<and> has_lock w2 j"
proof -
  let ?w1 = "w'\<lparr>page := spinlock_unlock (page w') p, at := (at w')(i := Outside)\<rparr>"
  let ?w2 = "?w1\<lparr>page := (page ?w1)(p := 1), at := (at ?w1)(j := Inside True)\<rparr>"
  have p: "p \<noteq> 0" using assms(1) by (simp add: fresh_workers_def)
  have s1: "lock_step p w' ?w1" using leave [of w' i True] assms(3) by (simp add: leave_round_def)
  have "spinlock_try (page ?w1) p = Inr (True, (page ?w1)(p := 1))"
    by (rule spinlock_try_free) (simp_all add: p spinlock_unlock_def)
  then have "enter_round 1 (page ?w1) p = Inr (True, (page ?w1)(p := 1))" by (simp add: enter_round_def)
  then have "lock_step p ?w1 ?w2" by (intro enter) (use assms(3,4) in auto)
  with s1 show ?thesis
    by (intro exI [of _ ?w1] exI [of _ ?w2]) (simp add: spinlock_unlock_def has_lock_def)
qed

theorem accept_lock_released_witness:
  "\<exists>w1 w2. lock_step 64 two_workers w1 \<and> lock_step 64 w1 w2 \<and> has_lock w2 0"
  using accept_lock_released [OF _ two_workers_reachable, of 1 0]
  by (auto simp: fresh_workers_def two_workers_def)

end
