(* ===== verification/Socket.thy ===== *)
theory Socket
  imports Resource Buffer Spinlock
begin

text \<open>
  The state of a worker process and the sockets of \<open>include/socket.h\<close> and \<open>src/socket.c\<close>.

  A \<open>hixo_socket_t\<close> at address \<open>s\<close> is an element of the pool \<open>m_sockets_cache\<close>.  Its ownership
  word and its two \<open>list_t\<close> nodes are cells of \<open>cells\<close>, its two buffer queues are heads of
  \<open>dlinks\<close>, the rest is the record \<open>hixo_socket\<close> that \<open>socks\<close> holds at \<open>s\<close>.  A function pointer
  is a value of \<open>fptr\<close>; the handlers of an application module are named by the address of the
  \<open>m_node\<close> of its context.

  The operating system is the record \<open>kernel\<close>: what it answers during one round of the event
  loop; \<open>new_fd\<close> chooses the descriptor of a new connection from those that are open.  Descriptors are open or not, and registered with \<open>epoll\<close> or
  not; closing a descriptor removes its registration, adding a registered one is \<open>EEXIST\<close>,
  deleting one that is not is \<open>ENOENT\<close>, as documented.
\<close>

unbundle bit_operations_syntax

section \<open>State\<close>

type_synonym fd = int
type_synonym errno = int

definition EAGAIN :: errno where "EAGAIN = 11"
definition EEXIST :: errno where "EEXIST = 17"
definition ENOENT :: errno where "ENOENT = 2"
definition EINTR :: errno where "EINTR = 4"
definition ECONNABORTED :: errno where "ECONNABORTED = 103"
definition ECONNRESET :: errno where "ECONNRESET = 104"

definition HIXO_EVENT_IN :: "32 word" where "HIXO_EVENT_IN = 0x001"
definition HIXO_EVENT_OUT :: "32 word" where "HIXO_EVENT_OUT = 0x004"
definition HIXO_EVENT_ERR :: "32 word" where "HIXO_EVENT_ERR = 0x008"
definition HIXO_EVENT_HUP :: "32 word" where "HIXO_EVENT_HUP = 0x010"
definition HIXO_EVENT_FLAGS :: "32 word" where "HIXO_EVENT_FLAGS = 0x80000000"

definition HIXO_LISTEN_SOCKET :: int where "HIXO_LISTEN_SOCKET = 1"
definition HIXO_CMNCT_SOCKET :: int where "HIXO_CMNCT_SOCKET = 2"

datatype fptr = Null | Handle_accept | App_read addr | App_write addr | App_disconnect addr

record hixo_socket =
  m_fd :: fd
  mpf_read_handler :: fptr
  mpf_write_handler :: fptr
  mpf_disconnect_handler :: fptr
  m_event_types :: "32 word"
  m_stale :: bool
  m_readable :: bool
  m_writable :: bool
  m_close :: bool

text \<open>Layout of \<open>hixo_socket_t\<close> on LP64 with \<open>DEBUG_FLAG\<close>.\<close>

definition sizeof_hixo_socket :: nat where "sizeof_hixo_socket = 104"
definition node_offset :: nat where "node_offset = 40"

definition socket_node :: "addr \<Rightarrow> addr" where "socket_node s = s + 40"
definition posted_node :: "addr \<Rightarrow> addr" where "posted_node s = s + 48"
definition readbuf_queue :: "addr \<Rightarrow> addr" where "readbuf_queue s = s + 64"
definition writebuf_queue :: "addr \<Rightarrow> addr" where "writebuf_queue s = s + 80"

text \<open>\<open>registered f\<close> is the event mask and the user data of descriptor \<open>f\<close>.  \<open>sent\<close> collects
  the bytes written to each descriptor.\<close>

record os_state =
  open_fds :: "fd list"
  registered :: "fd \<Rightarrow> (32 word \<times> int) option"
  unblocked :: "fd \<Rightarrow> bool"
  nodelay :: "fd \<Rightarrow> bool"
  shut :: "fd \<Rightarrow> bool"
  sent :: "fd \<Rightarrow> byte list"

definition opened :: "os_state \<Rightarrow> fd \<Rightarrow> bool" where
  "opened ost f \<longleftrightarrow> f \<in> set (open_fds ost)"

record world =
  rt_ctx :: addr
  cells :: mem
  m_sockets_cache :: hixo_resource
  socks :: "addr \<Rightarrow> hixo_socket"
  dlinks :: dheap
  mpp_servers :: "addr list"
  m_power :: int
  shm :: "Spinlock.shm"
  accept_lock :: addr
  has_ev_ctx :: bool
  m_hold_lock :: bool
  app_ctx_list :: addr
  bufs :: "addr \<Rightarrow> hixo_buffer"
  heap :: blocks
  os :: os_state

text \<open>\<open>has_ev_ctx\<close>: whether the pointer \<open>mp_ev_ctx\<close> to the event module has been set.
  The fields of \<open>g_rt_ctx\<close> that are list heads or are passed by address.\<close>

definition connections_cell :: "world \<Rightarrow> addr" where "connections_cell w = rt_ctx w + 32"
definition posted_cell :: "world \<Rightarrow> addr" where "posted_cell w = rt_ctx w + 40"
definition cache_addr :: "world \<Rightarrow> addr" where "cache_addr w = rt_ctx w + 48"

text \<open>What the system calls give.  \<open>incoming\<close>, \<open>reads\<close> and \<open>writes\<close> are the results of the
  successive calls on a descriptor; when they run out, the non-blocking call gives \<open>EAGAIN\<close>.
  The port of an accepted connection is what \<open>getsockname\<close> gives for it, \<open>None\<close> when that call fails.\<close>

record accept_result =
  acc_errno :: errno
  acc_port :: "int option"

record epoll_event =
  ev_events :: "32 word"
  ev_data :: int

record kernel =
  add_errno :: "fd \<Rightarrow> errno"
  del_errno :: "fd \<Rightarrow> errno"
  opt_errno :: "fd \<Rightarrow> errno"
  new_fd :: "fd list \<Rightarrow> fd"
  incoming :: "fd \<Rightarrow> accept_result list"
  reads :: "fd \<Rightarrow> (errno + byte list) list"
  writes :: "fd \<Rightarrow> (errno + nat) list"
  wait_errno :: errno
  wait_events :: "epoll_event list"

section \<open>Sockets\<close>

definition set_sock :: "world \<Rightarrow> addr \<Rightarrow> (hixo_socket \<Rightarrow> hixo_socket) \<Rightarrow> world" where
  "set_sock w s f = w\<lparr>socks := (socks w)(s := f (socks w s))\<rparr>"

definition hixo_create_socket ::
    "world \<Rightarrow> addr \<Rightarrow> fd \<Rightarrow> int \<Rightarrow> fptr \<Rightarrow> fptr \<Rightarrow> fptr \<Rightarrow> (int \<times> world) run" where
  "hixo_create_socket w s fd type pf_read_handler pf_write_handler pf_disconnect_handler =
     (let w1 = set_sock w s (\<lambda>k. k\<lparr>mpf_read_handler := pf_read_handler\<rparr>)
      in bind_run
        (if type = HIXO_LISTEN_SOCKET then
           Inr (set_sock w1 s (\<lambda>k. k\<lparr>mpf_write_handler := Null, mpf_disconnect_handler := Null,
                  m_event_types := HIXO_EVENT_IN OR HIXO_EVENT_FLAGS\<rparr>))
         else if type = HIXO_CMNCT_SOCKET then
           Inr (set_sock w1 s (\<lambda>k. k\<lparr>mpf_write_handler := pf_write_handler,
                  mpf_disconnect_handler := pf_disconnect_handler,
                  m_event_types := HIXO_EVENT_IN OR HIXO_EVENT_OUT OR HIXO_EVENT_FLAGS\<rparr>))
         else Inl Assert_failed)
        (\<lambda>w2.
          let w3 = set_sock w2 s (\<lambda>k. k\<lparr>m_fd := fd\<rparr>);
              w4 = w3\<lparr>dlinks := dlist_init (dlinks w3) (readbuf_queue s)\<rparr>;
              w5 = w4\<lparr>dlinks := dlist_init (dlinks w4) (writebuf_queue s)\<rparr>;
              w6 = set_sock w5 s (\<lambda>k. k\<lparr>m_stale := \<not> m_stale k, m_readable := False,
                     m_writable := False, m_close := False\<rparr>)
          in Inr (HIXO_OK, w6)))"

definition hixo_socket_nodelay :: "kernel \<Rightarrow> world \<Rightarrow> addr \<Rightarrow> world" where
  "hixo_socket_nodelay K w s =
     (let f = m_fd (socks w s);
          tmp_err = opt_errno K f
      in if tmp_err \<noteq> 0 then w
         else w\<lparr>os := (os w)\<lparr>nodelay := (nodelay (os w))(f := True)\<rparr>\<rparr>)"

definition hixo_socket_unblock :: "kernel \<Rightarrow> world \<Rightarrow> addr \<Rightarrow> world" where
  "hixo_socket_unblock K w s =
     (let f = m_fd (socks w s);
          tmp_err = opt_errno K f
      in if tmp_err \<noteq> 0 then w
         else w\<lparr>os := (os w)\<lparr>unblocked := (unblocked (os w))(f := True)\<rparr>\<rparr>)"

definition hixo_socket_shutdown :: "world \<Rightarrow> addr \<Rightarrow> world" where
  "hixo_socket_shutdown w s =
     w\<lparr>os := (os w)\<lparr>shut := (shut (os w))(m_fd (socks w s) := True)\<rparr>\<rparr>"

definition hixo_socket_close :: "world \<Rightarrow> addr \<Rightarrow> world" where
  "hixo_socket_close w s = set_sock w s (\<lambda>k. k\<lparr>m_close := True\<rparr>)"

definition close_fd :: "world \<Rightarrow> fd \<Rightarrow> world" where
  "close_fd w f = w\<lparr>os := (os w)\<lparr>open_fds := removeAll f (open_fds (os w)),
                                 registered := (registered (os w))(f := None)\<rparr>\<rparr>"

definition hixo_destroy_socket :: "world \<Rightarrow> addr \<Rightarrow> world" where
  "hixo_destroy_socket w s = close_fd w (m_fd (socks w s))"

section \<open>Lemmas\<close>

lemma opened_simps [simp]:
  "opened (ost\<lparr>registered := r\<rparr>) = opened ost" "opened (ost\<lparr>unblocked := u\<rparr>) = opened ost"
  "opened (ost\<lparr>nodelay := v\<rparr>) = opened ost" "opened (ost\<lparr>shut := sh\<rparr>) = opened ost"
  "opened (ost\<lparr>sent := se\<rparr>) = opened ost"
  "opened (ost\<lparr>open_fds := removeAll f (open_fds ost)\<rparr>) = (opened ost)(f := False)"
  "opened (ost\<lparr>open_fds := f # open_fds ost\<rparr>) = (opened ost)(f := True)"
  by (auto simp: opened_def fun_eq_iff)

lemma opened_cong: "open_fds a = open_fds b \<Longrightarrow> opened a = opened b"
  by (simp add: opened_def fun_eq_iff)

lemma opened_set [simp]: "opened (ost\<lparr>open_fds := fs\<rparr>) = (\<lambda>f. f \<in> set fs)"
  by (simp add: opened_def fun_eq_iff)

lemma set_sock_simps [simp]:
  "cells (set_sock w s f) = cells w" "m_sockets_cache (set_sock w s f) = m_sockets_cache w"
  "dlinks (set_sock w s f) = dlinks w" "mpp_servers (set_sock w s f) = mpp_servers w"
  "m_power (set_sock w s f) = m_power w" "os (set_sock w s f) = os w"
  "rt_ctx (set_sock w s f) = rt_ctx w" "shm (set_sock w s f) = shm w"
  "accept_lock (set_sock w s f) = accept_lock w" "has_ev_ctx (set_sock w s f) = has_ev_ctx w" "m_hold_lock (set_sock w s f) = m_hold_lock w"
  "app_ctx_list (set_sock w s f) = app_ctx_list w" "bufs (set_sock w s f) = bufs w"
  "heap (set_sock w s f) = heap w"
  "socks (set_sock w s f) = (socks w)(s := f (socks w s))"
  by (simp_all add: set_sock_def)

lemma set_sock_set_sock [simp]: "set_sock (set_sock w s f) s g = set_sock w s (g \<circ> f)"
  by (simp add: set_sock_def)

lemma set_sock_dlinks [simp]: "set_sock (w\<lparr>dlinks := d\<rparr>) s f = (set_sock w s f)\<lparr>dlinks := d\<rparr>"
  by (simp add: set_sock_def)

text \<open>A new communication socket: its queues are empty rings, its flags are down and its stale
  bit is flipped.\<close>

definition new_socket :: "fd \<Rightarrow> fptr \<Rightarrow> fptr \<Rightarrow> fptr \<Rightarrow> 32 word \<Rightarrow> bool \<Rightarrow> hixo_socket" where
  "new_socket fd rd wr dc ev stale = \<lparr>m_fd = fd, mpf_read_handler = rd, mpf_write_handler = wr,
     mpf_disconnect_handler = dc, m_event_types = ev, m_stale = stale, m_readable = False,
     m_writable = False, m_close = False\<rparr>"

definition empty_queues :: "dheap \<Rightarrow> addr \<Rightarrow> dheap" where
  "empty_queues d s = dlist_init (dlist_init d (readbuf_queue s)) (writebuf_queue s)"

lemma hixo_create_socket_cmnct:
  "hixo_create_socket w s fd HIXO_CMNCT_SOCKET rd wr dc =
     Inr (HIXO_OK, (set_sock w s (\<lambda>k. new_socket fd rd wr dc
        (HIXO_EVENT_IN OR HIXO_EVENT_OUT OR HIXO_EVENT_FLAGS) (\<not> m_stale k)))
        \<lparr>dlinks := empty_queues (dlinks w) s\<rparr>)"
  by (cases "socks w s") (simp add: hixo_create_socket_def HIXO_CMNCT_SOCKET_def HIXO_LISTEN_SOCKET_def Let_def
      new_socket_def empty_queues_def o_def set_sock_def)

lemma hixo_create_socket_listen:
  "hixo_create_socket w s fd HIXO_LISTEN_SOCKET rd wr dc =
     Inr (HIXO_OK, (set_sock w s (\<lambda>k. new_socket fd rd Null Null
        (HIXO_EVENT_IN OR HIXO_EVENT_FLAGS) (\<not> m_stale k)))
        \<lparr>dlinks := empty_queues (dlinks w) s\<rparr>)"
  by (cases "socks w s") (simp add: hixo_create_socket_def HIXO_LISTEN_SOCKET_def Let_def
      new_socket_def empty_queues_def o_def set_sock_def)

lemma empty_queues_ring:
  "dring (empty_queues d s) (readbuf_queue s) []" "dring (empty_queues d s) (writebuf_queue s) []"
  by (simp_all add: empty_queues_def dlist_init_def dring_def readbuf_queue_def writebuf_queue_def
      Let_def)

lemma empty_queues_frame:
  assumes "dring d h xs" and "readbuf_queue s \<notin> set (h # xs)" and "writebuf_queue s \<notin> set (h # xs)"
  shows "dring (empty_queues d s) h xs"
  by (rule dring_frame [OF assms(1)])
    (use assms(2,3) in \<open>auto simp: empty_queues_def dlist_init_def Let_def\<close>)

end
