(* ===== verification/Worker.thy ===== *)
theory Worker
  imports Socket
begin

text \<open>
  The lists a worker threads its sockets on: the free list of \<open>m_sockets_cache\<close>,
  \<open>mp_connections\<close> and \<open>mp_posted_events\<close>.  All three run through cells of the same pool
  block, the first two even through the same cell \<open>m_node\<close> of a socket.  \<open>core_inv\<close> says which
  socket is on which list; the lemmas say how the list operations of the event core move a
  socket from one to the other.
\<close>

section \<open>Which socket is where\<close>

definition slots :: "world \<Rightarrow> addr list" where
  "slots w = slot_list (int sizeof_hixo_socket) (m_sockets_cache w)"

text \<open>\<open>core_inv w conns ps fs xs\<close>: the sockets \<open>conns\<close> are connected, \<open>ps\<close> have a posted event,
  \<open>fs\<close> are free and \<open>xs\<close> are allocated but on neither list.\<close>

definition core_inv :: "world \<Rightarrow> addr list \<Rightarrow> addr list \<Rightarrow> addr list \<Rightarrow> addr list \<Rightarrow> bool" where
  "core_inv w conns ps fs xs \<longleftrightarrow>
     rsc_inv (cache_addr w) (int sizeof_hixo_socket) (cells w, m_sockets_cache w) fs
     \<and> m_offset (m_sockets_cache w) = int node_offset
     \<and> even (mp_start (m_sockets_cache w))
     \<and> (rt_ctx w + 88 \<le> mp_start (m_sockets_cache w) \<or> mp_end (m_sockets_cache w) \<le> rt_ctx w)
     \<and> slist (cells w) (connections_cell w) (map socket_node conns)
     \<and> slist (cells w) (posted_cell w) (map posted_node ps)
     \<and> distinct (conns @ fs @ xs) \<and> set (conns @ fs @ xs) = set (slots w)
     \<and> set ps \<subseteq> set (slots w)"

definition put_cells :: "world \<Rightarrow> mem \<Rightarrow> world" where
  "put_cells w m = w\<lparr>cells := m\<rparr>"

definition put_pool :: "world \<Rightarrow> mem \<times> hixo_resource \<Rightarrow> world" where
  "put_pool w s = w\<lparr>cells := fst s, m_sockets_cache := snd s\<rparr>"

definition pool_of :: "world \<Rightarrow> mem \<times> hixo_resource" where
  "pool_of w = (cells w, m_sockets_cache w)"

lemma put_cells_simps [simp]:
  "cells (put_cells w m) = m" "m_sockets_cache (put_cells w m) = m_sockets_cache w"
  "connections_cell (put_cells w m) = connections_cell w" "posted_cell (put_cells w m) = posted_cell w"
  "cache_addr (put_cells w m) = cache_addr w" "rt_ctx (put_cells w m) = rt_ctx w"
  "slots (put_cells w m) = slots w" "socks (put_cells w m) = socks w" "os (put_cells w m) = os w"
  "dlinks (put_cells w m) = dlinks w" "mpp_servers (put_cells w m) = mpp_servers w"
  "m_power (put_cells w m) = m_power w" "app_ctx_list (put_cells w m) = app_ctx_list w"
  "shm (put_cells w m) = shm w" "accept_lock (put_cells w m) = accept_lock w" "has_ev_ctx (put_cells w m) = has_ev_ctx w"
  "m_hold_lock (put_cells w m) = m_hold_lock w" "bufs (put_cells w m) = bufs w"
  "heap (put_cells w m) = heap w"
  by (simp_all add: put_cells_def connections_cell_def posted_cell_def cache_addr_def slots_def)

lemma put_pool_simps [simp]:
  "cells (put_pool w s) = fst s" "m_sockets_cache (put_pool w s) = snd s"
  "connections_cell (put_pool w s) = connections_cell w" "posted_cell (put_pool w s) = posted_cell w"
  "cache_addr (put_pool w s) = cache_addr w" "rt_ctx (put_pool w s) = rt_ctx w"
  "socks (put_pool w s) = socks w" "os (put_pool w s) = os w"
  "dlinks (put_pool w s) = dlinks w" "mpp_servers (put_pool w s) = mpp_servers w"
  "m_power (put_pool w s) = m_power w" "app_ctx_list (put_pool w s) = app_ctx_list w"
  "shm (put_pool w s) = shm w" "accept_lock (put_pool w s) = accept_lock w" "has_ev_ctx (put_pool w s) = has_ev_ctx w"
  "m_hold_lock (put_pool w s) = m_hold_lock w" "bufs (put_pool w s) = bufs w"
  "heap (put_pool w s) = heap w"
  by (simp_all add: put_pool_def connections_cell_def posted_cell_def cache_addr_def)

lemma core_inv_cong:
  assumes "core_inv w conns ps fs xs" and "cells w' = cells w"
    and "m_sockets_cache w' = m_sockets_cache w" and "rt_ctx w' = rt_ctx w"
  shows "core_inv w' conns ps fs xs"
  using assms by (simp add: core_inv_def slots_def cache_addr_def connections_cell_def posted_cell_def)

section \<open>Cells of different lists\<close>

lemma core_layout:
  assumes "core_inv w conns ps fs xs"
  shows "rsc_layout (cache_addr w) 104 (m_sockets_cache w)" and "m_offset (m_sockets_cache w) = 40"
    and "even (mp_start (m_sockets_cache w))"
    and "rt_ctx w + 88 \<le> mp_start (m_sockets_cache w) \<or> mp_end (m_sockets_cache w) \<le> rt_ctx w"
  using assms by (simp_all add: core_inv_def rsc_inv_def sizeof_hixo_socket_def node_offset_def)

lemma slots_slot_list: "slots w = slot_list 104 (m_sockets_cache w)"
  by (simp add: slots_def sizeof_hixo_socket_def)

lemma slot_cells:
  assumes inv: "core_inv w conns ps fs xs" and s: "s \<in> set (slots w)"
  shows "s \<notin> {connections_cell w, posted_cell w, free_list_cell (cache_addr w), 0}"
    and "socket_node s \<notin> {connections_cell w, posted_cell w, free_list_cell (cache_addr w), 0}"
    and "posted_node s \<notin> {connections_cell w, posted_cell w, free_list_cell (cache_addr w), 0}"
    and "even s"
proof -
  note lay = core_layout [OF inv]
  have s': "s \<in> set (slot_list 104 (m_sockets_cache w))" using s by (simp add: slots_slot_list)
  note range = slot_range [OF lay(1) s']
  have pos: "0 < s" using range lay(1) by (simp add: rsc_layout_def)
  show "s \<notin> {connections_cell w, posted_cell w, free_list_cell (cache_addr w), 0}"
    and "socket_node s \<notin> {connections_cell w, posted_cell w, free_list_cell (cache_addr w), 0}"
    and "posted_node s \<notin> {connections_cell w, posted_cell w, free_list_cell (cache_addr w), 0}"
    using range lay(4) pos
    by (auto simp: connections_cell_def posted_cell_def free_list_cell_def cache_addr_def
        socket_node_def posted_node_def)
  from s' obtain i where "s = mp_start (m_sockets_cache w) + int i * 104" by (rule slot_listE)
  then show "even s" using lay(3) by simp
qed

lemma slot_cells_apart:
  assumes inv: "core_inv w conns ps fs xs" and s: "s \<in> set (slots w)" "t \<in> set (slots w)"
  shows "s \<noteq> socket_node t" "s \<noteq> posted_node t" "socket_node s \<noteq> posted_node t"
    "posted_node t \<noteq> socket_node s"
proof -
  have s': "s \<in> set (slot_list 104 (m_sockets_cache w))" "t \<in> set (slot_list 104 (m_sockets_cache w))"
    using s by (simp_all add: slots_slot_list)
  have "s = t \<or> s + 104 \<le> t \<or> t + 104 \<le> s"
    using slot_distance [OF core_layout(1) [OF inv] s'] by blast
  then show "s \<noteq> socket_node t" "s \<noteq> posted_node t" "socket_node s \<noteq> posted_node t"
    "posted_node t \<noteq> socket_node s"
    by (auto simp: socket_node_def posted_node_def)
qed

lemma list_cells_apart:
  "connections_cell w \<noteq> posted_cell w" "connections_cell w \<noteq> free_list_cell (cache_addr w)"
  "posted_cell w \<noteq> free_list_cell (cache_addr w)"
  by (simp_all add: connections_cell_def posted_cell_def free_list_cell_def cache_addr_def)

lemma node_eq [simp]: "socket_node s = socket_node t \<longleftrightarrow> s = t" "posted_node s = posted_node t \<longleftrightarrow> s = t"
  by (simp_all add: socket_node_def posted_node_def)

lemma rsc_inv_frame:
  assumes "rsc_inv p esz (m, r) fs"
    and "m' (free_list_cell p) = m (free_list_cell p)"
    and "\<And>e. e \<in> set (slot_list esz r) \<Longrightarrow> m' e = m e"
    and "\<And>e. e \<in> set fs \<Longrightarrow> m' (e + m_offset r) = m (e + m_offset r)"
  shows "rsc_inv p esz (m', r) fs"
proof -
  have "slist m' (free_list_cell p) (map (\<lambda>e. e + m_offset r) fs)"
    using assms(1) by (auto simp: rsc_inv_def assms(2,4) intro!: slist_frame [of m])
  with assms(1,3) show ?thesis by (simp add: rsc_inv_def)
qed

lemma core_sets:
  assumes "core_inv w conns ps fs xs"
  shows "distinct (conns @ fs @ xs)" and "set conns \<subseteq> set (slots w)" and "set fs \<subseteq> set (slots w)"
    and "set xs \<subseteq> set (slots w)" and "set ps \<subseteq> set (slots w)" and "distinct ps"
    and "slist (cells w) (connections_cell w) (map socket_node conns)"
    and "slist (cells w) (posted_cell w) (map posted_node ps)"
    and "rsc_inv (cache_addr w) 104 (cells w, m_sockets_cache w) fs"
    and "set (slots w) = set conns \<union> set fs \<union> set xs"
  using assms slist_distinct [of "cells w" "posted_cell w" "map posted_node ps"]
  by (auto simp: core_inv_def distinct_map sizeof_hixo_socket_def)

lemma cell_ne:
  assumes inv: "core_inv w conns ps fs xs" and s: "s \<in> set (slots w)"
  shows "socket_node s \<noteq> connections_cell w" "connections_cell w \<noteq> socket_node s"
    "socket_node s \<noteq> posted_cell w" "posted_cell w \<noteq> socket_node s"
    "posted_node s \<noteq> connections_cell w" "connections_cell w \<noteq> posted_node s"
    "posted_node s \<noteq> posted_cell w" "posted_cell w \<noteq> posted_node s"
    "socket_node s \<noteq> free_list_cell (cache_addr w)" "free_list_cell (cache_addr w) \<noteq> socket_node s"
    "posted_node s \<noteq> free_list_cell (cache_addr w)" "free_list_cell (cache_addr w) \<noteq> posted_node s"
    "connections_cell w \<noteq> s" "posted_cell w \<noteq> s" "socket_node s \<noteq> 0" "posted_node s \<noteq> 0"
    "connections_cell w \<noteq> posted_cell w" "posted_cell w \<noteq> connections_cell w"
    "free_list_cell (cache_addr w) \<noteq> connections_cell w" "free_list_cell (cache_addr w) \<noteq> posted_cell w"
  using slot_cells [OF inv s] list_cells_apart [of w] by auto

definition conn_cells :: "world \<Rightarrow> addr set" where
  "conn_cells w = insert (connections_cell w) (socket_node ` set (slots w))"

definition post_cells :: "world \<Rightarrow> addr set" where
  "post_cells w = insert (posted_cell w) (posted_node ` set (slots w))"

lemma list_cells_disjoint:
  assumes inv: "core_inv w conns ps fs xs"
  shows "conn_cells w \<inter> post_cells w = {}"
proof -
  have "a \<notin> post_cells w" if "a \<in> conn_cells w" for a
    using that unfolding conn_cells_def
  proof (rule insertE)
    assume "a = connections_cell w"
    then show ?thesis using list_cells_apart(1) [of w] cell_ne(6) [OF inv] by (auto simp: post_cells_def)
  next
    assume "a \<in> socket_node ` set (slots w)"
    then show ?thesis using cell_ne(3) [OF inv] slot_cells_apart(3) [OF inv] by (auto simp: post_cells_def)
  qed
  then show ?thesis by blast
qed

lemma conn_cellsI: "set cs \<subseteq> set (slots w) \<Longrightarrow> a \<in> insert (connections_cell w) (set (map socket_node cs)) \<Longrightarrow> a \<in> conn_cells w"
  and post_cellsI: "set cs \<subseteq> set (slots w) \<Longrightarrow> a \<in> insert (posted_cell w) (set (map posted_node cs)) \<Longrightarrow> a \<in> post_cells w"
  by (auto simp: conn_cells_def post_cells_def)

text \<open>What the pool writes when it moves \<open>s\<close> is not on the other lists.\<close>

lemma pool_cells:
  assumes inv: "core_inv w conns ps fs xs" and s: "s \<in> set (slots w)"
  shows "free_list_cell (cache_addr w) \<notin> conn_cells w" "free_list_cell (cache_addr w) \<notin> post_cells w"
    and "s \<notin> conn_cells w" "s \<notin> post_cells w" "socket_node s \<notin> post_cells w"
proof -
  show "free_list_cell (cache_addr w) \<notin> conn_cells w"
    using cell_ne(10) [OF inv] cell_ne(19) [OF inv s] by (auto simp: conn_cells_def)
  show "free_list_cell (cache_addr w) \<notin> post_cells w"
    using cell_ne(12) [OF inv] cell_ne(20) [OF inv s] by (auto simp: post_cells_def)
  show "s \<notin> conn_cells w"
    using slot_cells_apart(1) [OF inv s] cell_ne(13) [OF inv s] by (auto simp: conn_cells_def)
  show "s \<notin> post_cells w"
    using slot_cells_apart(2) [OF inv s] cell_ne(14) [OF inv s] by (auto simp: post_cells_def)
  show "socket_node s \<notin> post_cells w"
    using list_cells_disjoint [OF inv] s by (auto simp: conn_cells_def)
qed

lemma other_lists_frame:
  assumes inv: "core_inv w conns ps fs xs" and s: "s \<in> set (slots w)"
    and other: "\<And>a. a \<notin> {free_list_cell (cache_addr w), s, s + 40} \<Longrightarrow> m' a = cells w a"
    and off: "s \<notin> set conns"
  shows "slist m' (connections_cell w) (map socket_node conns)"
    and "slist m' (posted_cell w) (map posted_node ps)"
proof -
  note sets = core_sets [OF inv] and cells = pool_cells [OF inv s]
  have other': "m' a = cells w a" if "a \<notin> {free_list_cell (cache_addr w), s, socket_node s}" for a
    using other [of a] that by (simp add: socket_node_def)
  have node: "socket_node s \<notin> insert (connections_cell w) (set (map socket_node conns))"
    using cell_ne(1) [OF inv s] off by (simp add: image_iff)
  show "slist m' (connections_cell w) (map socket_node conns)"
    by (rule slist_frame [OF sets(7)], rule other')
      (use cells(1,3) node conn_cellsI [OF sets(2)] in blast)
  show "slist m' (posted_cell w) (map posted_node ps)"
    by (rule slist_frame [OF sets(8)], rule other')
      (use cells(2,4,5) post_cellsI [OF sets(5)] in blast)
qed

section \<open>Moving a socket\<close>

lemma core_alloc:
  assumes inv: "core_inv w conns ps (s # fs) xs"
  obtains p' where "alloc_resource (cache_addr w) (pool_of w) = Inr (p', s)"
    and "core_inv (put_pool w p') conns ps fs (s # xs)" and "slots (put_pool w p') = slots w"
proof -
  note sets = core_sets [OF inv]
  have s: "s \<in> set (slots w)" using sets(3) by simp
  note cells = slot_cells [OF inv s]
  obtain m' where run: "alloc_resource (cache_addr w) (cells w, m_sockets_cache w) =
      Inr ((m', (m_sockets_cache w)\<lparr>m_used := m_used (m_sockets_cache w) + 1\<rparr>), s)"
    and inv': "rsc_inv (cache_addr w) 104 (m', (m_sockets_cache w)\<lparr>m_used := m_used (m_sockets_cache w) + 1\<rparr>) fs"
    and other: "\<And>a. a \<notin> {free_list_cell (cache_addr w), s, s + 40} \<Longrightarrow> m' a = cells w a"
    using alloc_resource_Cons [OF sets(9)] core_layout(2) [OF inv] by metis
  let ?r = "(m_sockets_cache w)\<lparr>m_used := m_used (m_sockets_cache w) + 1\<rparr>"
  let ?w = "put_pool w (m', ?r)"
  have sl: "slots ?w = slots w" by (simp add: slots_def)
  have "slist m' (connections_cell w) (map socket_node conns)"
    and "slist m' (posted_cell w) (map posted_node ps)"
    using other_lists_frame [OF inv s other] sets(1) by auto
  then have "core_inv ?w conns ps fs (s # xs)"
    using inv inv' sets(1) unfolding core_inv_def sl
    by (auto simp: sizeof_hixo_socket_def)
  with run show ?thesis using sl by (intro that) (simp_all add: pool_of_def)
qed

lemma core_alloc_none:
  "core_inv w conns ps [] xs \<Longrightarrow> alloc_resource (cache_addr w) (pool_of w) = Inr (pool_of w, 0)"
  unfolding pool_of_def by (rule alloc_resource_Nil [where esz = "int sizeof_hixo_socket"])
    (simp add: core_inv_def)

lemma core_free:
  assumes inv: "core_inv w conns ps fs (s # xs)"
  obtains p' where "free_resource (cache_addr w) (pool_of w) s = Inr p'"
    and "core_inv (put_pool w p') conns ps (s # fs) xs" and "slots (put_pool w p') = slots w"
proof -
  note sets = core_sets [OF inv]
  have s: "s \<in> set (slots w)" "s \<notin> set fs" using sets(1,4) by auto
  note cells = slot_cells [OF inv s(1)]
  have slot: "s \<in> set (slot_list 104 (m_sockets_cache w))" using s(1) by (simp add: slots_slot_list)
  obtain m' where run: "free_resource (cache_addr w) (cells w, m_sockets_cache w) s =
      Inr (m', (m_sockets_cache w)\<lparr>m_used := m_used (m_sockets_cache w) - 1\<rparr>)"
    and inv': "rsc_inv (cache_addr w) 104 (m', (m_sockets_cache w)\<lparr>m_used := m_used (m_sockets_cache w) - 1\<rparr>) (s # fs)"
    and other: "\<And>a. a \<notin> {free_list_cell (cache_addr w), s, s + 40} \<Longrightarrow> m' a = cells w a"
    using free_resource_owned [OF sets(9) slot s(2)] core_layout(2) [OF inv] by metis
  let ?r = "(m_sockets_cache w)\<lparr>m_used := m_used (m_sockets_cache w) - 1\<rparr>"
  let ?w = "put_pool w (m', ?r)"
  have sl: "slots ?w = slots w" by (simp add: slots_def)
  have "slist m' (connections_cell w) (map socket_node conns)"
    and "slist m' (posted_cell w) (map posted_node ps)"
    using other_lists_frame [OF inv s(1) other] sets(1) by auto
  then have "core_inv ?w conns ps (s # fs) xs"
    using inv inv' sets(1) unfolding core_inv_def sl
    by (auto simp: sizeof_hixo_socket_def)
  with run show ?thesis using sl by (intro that) (simp_all add: pool_of_def)
qed

text \<open>A list operation on \<open>mp_connections\<close> or \<open>mp_posted_events\<close> only writes the head cell
  and cells of the sockets it concerns; the pool does not see it.\<close>

lemma pool_frame:
  assumes inv: "core_inv w conns ps fs xs" and A: "A \<subseteq> set (slots w)" "A \<inter> set fs = {}"
    and P: "P \<subseteq> set (slots w)"
    and other: "\<And>a. a \<notin> {connections_cell w, posted_cell w} \<union> socket_node ` A \<union> posted_node ` P \<Longrightarrow>
      m' a = cells w a"
  shows "rsc_inv (cache_addr w) 104 (m', m_sockets_cache w) fs"
proof (rule rsc_inv_frame [OF core_sets(9) [OF inv]])
  note sets = core_sets [OF inv]
  have A': "x \<in> set (slots w)" if "x \<in> A" for x using A(1) that by blast
  have P': "x \<in> set (slots w)" if "x \<in> P" for x using P that by blast
  note ne = cell_ne [OF inv] and apart = slot_cells_apart [OF inv]
  show "m' (free_list_cell (cache_addr w)) = cells w (free_list_cell (cache_addr w))"
    by (rule other) (use list_cells_apart [of w] ne(10,12) A' P' in auto)
  show "m' e = cells w e" if "e \<in> set (slot_list 104 (m_sockets_cache w))" for e
  proof (rule other)
    have e: "e \<in> set (slots w)" using that by (simp add: slots_slot_list)
    show "e \<notin> {connections_cell w, posted_cell w} \<union> socket_node ` A \<union> posted_node ` P"
      using ne(13,14) [OF e] apart(1,2) [OF e] A' P' by auto
  qed
  show "m' (e + m_offset (m_sockets_cache w)) = cells w (e + m_offset (m_sockets_cache w))"
    if "e \<in> set fs" for e
  proof -
    have e: "e \<in> set (slots w)" "e \<notin> A" using that sets(3) A(2) by auto
    have node: "e + m_offset (m_sockets_cache w) = socket_node e"
      by (simp add: core_layout(2) [OF inv] socket_node_def)
    have "socket_node e \<notin> {connections_cell w, posted_cell w} \<union> socket_node ` A \<union> posted_node ` P"
      using ne(1,3) [OF e(1)] apart(3) [OF e(1)] e(2) P' by auto
    then show ?thesis unfolding node by (rule other)
  qed
qed

lemma core_connect:
  assumes inv: "core_inv w conns ps fs (s # xs)"
  shows "core_inv (put_cells w (add_node (cells w) (connections_cell w) (socket_node s)))
           (s # conns) ps fs xs"
proof -
  note sets = core_sets [OF inv]
  have s: "s \<in> set (slots w)" "s \<notin> set fs" "s \<notin> set conns" using sets(1,4) by auto
  note cells = slot_cells [OF inv s(1)]
  let ?m = "add_node (cells w) (connections_cell w) (socket_node s)"
  have other: "?m a = cells w a" if "a \<notin> {connections_cell w, socket_node s}" for a
    using that by (auto intro: add_node_other)
  have "slist ?m (connections_cell w) (map socket_node (s # conns))"
    using add_node_slist [OF sets(7), of "socket_node s"] cells(2) s(3) by (auto simp: image_iff)
  moreover have "slist ?m (posted_cell w) (map posted_node ps)"
    by (rule slist_frame [OF sets(8)], rule other)
      (use post_cellsI [OF sets(5)] conn_cellsI [of "[s]" w] s(1) list_cells_disjoint [OF inv] in auto)
  moreover have "rsc_inv (cache_addr w) 104 (?m, m_sockets_cache w) fs"
    by (rule pool_frame [OF inv, of "{s}" "{}"]) (use s other in auto)
  ultimately show ?thesis
    using inv sets(1) unfolding core_inv_def by (auto simp: sizeof_hixo_socket_def)
qed

lemma core_disconnect:
  assumes inv: "core_inv w conns ps fs xs" and s: "s \<in> set conns"
  obtains m' where "rm_node (cells w) (connections_cell w) (socket_node s) = Some (m', True)"
    and "core_inv (put_cells w m') (remove1 s conns) ps fs (s # xs)"
proof -
  note sets = core_sets [OF inv]
  have map_remove: "remove1 (socket_node s) (map socket_node ys) = map socket_node (remove1 s ys)" for ys
    by (induction ys) auto
  obtain m' where run: "rm_node (cells w) (connections_cell w) (socket_node s) = Some (m', True)"
    and list: "slist m' (connections_cell w) (map socket_node (remove1 s conns))"
    and other: "\<And>a. a \<notin> insert (connections_cell w) (set (map socket_node conns)) \<Longrightarrow> m' a = cells w a"
    using rm_node_slist [OF sets(7), of "socket_node s"] s unfolding map_remove by auto
  have "slist m' (posted_cell w) (map posted_node ps)"
    by (rule slist_frame [OF sets(8)], rule other)
      (use post_cellsI [OF sets(5)] conn_cellsI [OF sets(2)] list_cells_disjoint [OF inv] in blast)
  moreover have "rsc_inv (cache_addr w) 104 (m', m_sockets_cache w) fs"
    by (rule pool_frame [OF inv, of "set conns" "{}"]) (use sets(1,2) other in auto)
  moreover have "distinct (remove1 s conns @ fs @ s # xs)"
    and "set (remove1 s conns @ fs @ s # xs) = set (conns @ fs @ xs)"
    using sets(1) s by (auto simp: distinct_remove1 set_remove1_eq)
  ultimately have "core_inv (put_cells w m') (remove1 s conns) ps fs (s # xs)"
    using inv list unfolding core_inv_def by (simp add: sizeof_hixo_socket_def)
  with run show ?thesis by (rule that)
qed

lemma core_unpost:
  assumes inv: "core_inv w conns ps fs xs" and s: "s \<in> set ps"
  obtains m' where "rm_node (cells w) (posted_cell w) (posted_node s) = Some (m', True)"
    and "core_inv (put_cells w m') conns (remove1 s ps) fs xs"
proof -
  note sets = core_sets [OF inv]
  have map_remove: "remove1 (posted_node s) (map posted_node ys) = map posted_node (remove1 s ys)" for ys
    by (induction ys) auto
  obtain m' where run: "rm_node (cells w) (posted_cell w) (posted_node s) = Some (m', True)"
    and list: "slist m' (posted_cell w) (map posted_node (remove1 s ps))"
    and other: "\<And>a. a \<notin> insert (posted_cell w) (set (map posted_node ps)) \<Longrightarrow> m' a = cells w a"
    using rm_node_slist [OF sets(8), of "posted_node s"] s unfolding map_remove by auto
  have "slist m' (connections_cell w) (map socket_node conns)"
    by (rule slist_frame [OF sets(7)], rule other)
      (use post_cellsI [OF sets(5)] conn_cellsI [OF sets(2)] list_cells_disjoint [OF inv] in blast)
  moreover have "rsc_inv (cache_addr w) 104 (m', m_sockets_cache w) fs"
    by (rule pool_frame [OF inv, of "{}" "set ps"]) (use sets(5) other in auto)
  ultimately have "core_inv (put_cells w m') conns (remove1 s ps) fs xs"
    using inv list set_remove1_subset [of s ps] unfolding core_inv_def
    by (auto simp: sizeof_hixo_socket_def)
  with run show ?thesis by (rule that)
qed

lemma core_post:
  assumes inv: "core_inv w conns ps fs xs" and s: "s \<in> set (slots w)" "s \<notin> set ps"
  shows "core_inv (put_cells w (add_node (cells w) (posted_cell w) (posted_node s))) conns (s # ps) fs xs"
proof -
  note sets = core_sets [OF inv] and cells = slot_cells [OF inv s(1)]
  let ?m = "add_node (cells w) (posted_cell w) (posted_node s)"
  have other: "?m a = cells w a" if "a \<notin> {posted_cell w, posted_node s}" for a
    using that by (auto intro: add_node_other)
  have "slist ?m (posted_cell w) (map posted_node (s # ps))"
    using add_node_slist [OF sets(8), of "posted_node s"] cells(3) s(2) by (auto simp: image_iff)
  moreover have "slist ?m (connections_cell w) (map socket_node conns)"
    by (rule slist_frame [OF sets(7)], rule other)
      (use conn_cellsI [OF sets(2)] post_cellsI [of "[s]" w] s(1) list_cells_disjoint [OF inv] in auto)
  moreover have "rsc_inv (cache_addr w) 104 (?m, m_sockets_cache w) fs"
    by (rule pool_frame [OF inv, of "{}" "{s}"]) (use s other in auto)
  ultimately show ?thesis
    using inv s unfolding core_inv_def by (auto simp: sizeof_hixo_socket_def)
qed

lemma core_posted_head:
  "core_inv w conns ps fs xs \<Longrightarrow> cells w (posted_cell w) = (case ps of [] \<Rightarrow> 0 | s # _ \<Rightarrow> posted_node s)"
  by (cases ps) (auto simp: core_inv_def slist_Cons_head)

lemma core_posted_next:
  assumes "core_inv w conns (qs @ s # ps) fs xs"
  shows "cells w (posted_node s) = (case ps of [] \<Rightarrow> 0 | t # _ \<Rightarrow> posted_node t)"
proof -
  have "links (cells w) (cells w (posted_cell w)) (map posted_node qs @ posted_node s # map posted_node ps)"
    using core_sets(8) [OF assms] by (simp add: slist_def)
  then have "links (cells w) (cells w (posted_node s)) (map posted_node ps)" by (rule links_suffix)
  then show ?thesis by (cases ps) auto
qed

end
