(* ===== verification/Epoll.thy ===== *)
theory Epoll
  imports Worker
begin

text \<open>
  The event module \<open>src/modules/epoll_module.c\<close>: registration of sockets, and one call of
  \<open>epoll_process_events\<close>, which takes the accept lock, registers the listeners while it has
  it, waits, and turns the events into the list \<open>mp_posted_events\<close>.

  \<open>s_epoll_private\<close> is split: \<open>m_hold_lock\<close> is a field of the worker state, the descriptor and
  the event array, which only \<open>epoll_init\<close> and \<open>epoll_exit\<close> change, are the record
  \<open>epoll_private\<close>.  Bit 0 of an entry of \<open>mpp_servers\<close> marks a listener that could not be
  registered in this round.
\<close>

unbundle bit_operations_syntax

section \<open>The code\<close>

definition EBADF :: errno where "EBADF = 9"

text \<open>\<open>epoll_ctl\<close>: the documented errors, then what the kernel gives.\<close>

definition ctl_add :: "kernel \<Rightarrow> world \<Rightarrow> fd \<Rightarrow> 32 word \<Rightarrow> int \<Rightarrow> errno \<times> world" where
  "ctl_add K w f ev d =
     (if \<not> opened (os w) f then (EBADF, w)
      else if registered (os w) f \<noteq> None then (EEXIST, w)
      else if add_errno K f \<noteq> 0 then (add_errno K f, w)
      else (0, w\<lparr>os := (os w)\<lparr>registered := (registered (os w))(f \<mapsto> (ev, d))\<rparr>\<rparr>))"

definition ctl_del :: "kernel \<Rightarrow> world \<Rightarrow> fd \<Rightarrow> errno \<times> world" where
  "ctl_del K w f =
     (if \<not> opened (os w) f then (EBADF, w)
      else if registered (os w) f = None then (ENOENT, w)
      else if del_errno K f \<noteq> 0 then (del_errno K f, w)
      else (0, w\<lparr>os := (os w)\<lparr>registered := (registered (os w))(f := None)\<rparr>\<rparr>))"

definition epoll_add_event :: "kernel \<Rightarrow> world \<Rightarrow> addr \<Rightarrow> int \<times> world" where
  "epoll_add_event K w p_sock =
     (let k = socks w p_sock;
          r = ctl_add K w (m_fd k) (m_event_types k) (p_sock OR (if m_stale k then 1 else 0));
          tmp_err = fst r
      in if tmp_err = 0 \<or> tmp_err = EEXIST then (HIXO_OK, snd r) else (HIXO_ERROR, snd r))"

definition epoll_mod_event :: int where
  "epoll_mod_event = HIXO_OK"

definition epoll_del_event :: "kernel \<Rightarrow> world \<Rightarrow> addr \<Rightarrow> int \<times> world" where
  "epoll_del_event K w p_sock =
     (let r = ctl_del K w (m_fd (socks w p_sock));
          tmp_err = fst r
      in if tmp_err = 0 \<or> tmp_err = ENOENT then (HIXO_OK, snd r) else (HIXO_ERROR, snd r))"

text \<open>The two loops over \<open>mpp_servers\<close>.\<close>

fun add_servers :: "kernel \<Rightarrow> world \<Rightarrow> nat list \<Rightarrow> world run" where
  "add_servers K w [] = Inr w"
| "add_servers K w (i # is) =
     (let srv = mpp_servers w ! i
      in assert_run (srv AND 1 = 0)
        (let r = epoll_add_event K w srv
         in if fst r = HIXO_ERROR then
              Inr ((snd r)\<lparr>mpp_servers := (mpp_servers (snd r))[i := srv OR 1]\<rparr>)
            else add_servers K (snd r) is))"

fun del_servers :: "kernel \<Rightarrow> world \<Rightarrow> nat list \<Rightarrow> world" where
  "del_servers K w [] = w"
| "del_servers K w (i # is) =
     (let srv = mpp_servers w ! i
      in if srv AND 1 \<noteq> 0 then
           del_servers K (w\<lparr>mpp_servers := (mpp_servers w)[i := srv AND NOT 1]\<rparr>) is
         else
           (let r = epoll_del_event K w srv
            in if fst r = HIXO_ERROR then snd r else del_servers K (snd r) is))"

definition post_event :: "world \<Rightarrow> epoll_event \<Rightarrow> world" where
  "post_event w ev =
     (let stale = ev_data ev AND 1;
          p_sock = ev_data ev AND NOT 1;
          k = socks w p_sock
      in if m_fd k = -1 \<or> stale \<noteq> (if m_stale k then 1 else 0) then w
         else
           let events = (if (HIXO_EVENT_ERR OR HIXO_EVENT_HUP) AND ev_events ev \<noteq> 0
                         then ev_events ev OR (HIXO_EVENT_IN OR HIXO_EVENT_OUT) else ev_events ev);
               w1 = set_sock w p_sock (\<lambda>k. k\<lparr>m_readable := HIXO_EVENT_IN AND events \<noteq> 0,
                                             m_writable := HIXO_EVENT_OUT AND events \<noteq> 0\<rparr>)
           in if m_writable (socks w1 p_sock) \<or> m_readable (socks w1 p_sock)
              then w1\<lparr>cells := add_node (cells w1) (posted_cell w1) (posted_node p_sock)\<rparr>
              else w1)"

definition epoll_process_events :: "kernel \<Rightarrow> world \<Rightarrow> int \<Rightarrow> (int \<times> world) run" where
  "epoll_process_events K w timer =
     bind_run (enter_round (m_power w) (shm w) (accept_lock w))
       (\<lambda>(got, m).
        let w1 = w\<lparr>shm := m, m_hold_lock := got\<rparr>;
            indices = [0..<length (mpp_servers w1)]
        in bind_run (if m_hold_lock w1 then add_servers K w1 indices else Inr w1) (\<lambda>w2.
           assert_run (cells w2 (posted_cell w2) = 0)
             (let tmp_err = wait_errno K;
                  w3 = (if m_hold_lock w2 then del_servers K w2 indices else w2);
                  r = (if tmp_err \<noteq> 0 then (if tmp_err = EINTR then (HIXO_OK, w3) else (HIXO_ERROR, w3))
                       else (HIXO_OK, foldl post_event w3 (wait_events K)));
                  w4 = (let (hold, m') = leave_round (m_hold_lock (snd r)) (shm (snd r)) (accept_lock (snd r))
                        in (snd r)\<lparr>shm := m', m_hold_lock := hold\<rparr>)
              in Inr (fst r, w4))))"

text \<open>\<open>ret\<close>, \<open>err\<close> and \<open>p\<close> are what \<open>epoll_create\<close> and \<open>calloc\<close> give; the last component is
  the descriptor that is closed again, if any.\<close>

record epoll_private =
  m_epfd :: fd
  mp_epevs :: addr

definition epoll_init :: "epoll_private \<Rightarrow> fd \<Rightarrow> errno \<Rightarrow> addr \<Rightarrow> int \<times> epoll_private \<times> fd option" where
  "epoll_init e ret err p =
     (let tmp_err = (if ret = -1 then err else 0)
      in if tmp_err \<noteq> 0 then (HIXO_ERROR, e\<lparr>m_epfd := -1\<rparr>, None)
         else
           let e1 = e\<lparr>m_epfd := ret\<rparr>; e2 = e1\<lparr>mp_epevs := p\<rparr>
           in if mp_epevs e2 = 0 then (HIXO_ERROR, e2, Some (m_epfd e2)) else (HIXO_OK, e2, None))"

definition epoll_exit :: "epoll_private \<Rightarrow> epoll_private \<times> fd \<times> addr" where
  "epoll_exit e = (e\<lparr>mp_epevs := 0\<rparr>, m_epfd e, mp_epevs e)"

section \<open>What a round changes\<close>

text \<open>Registration touches nothing but the registrations.\<close>

definition same_but_os :: "world \<Rightarrow> world \<Rightarrow> bool" where
  "same_but_os w w' \<longleftrightarrow> (\<exists>r. w' = w\<lparr>os := (os w)\<lparr>registered := r\<rparr>\<rparr>)"

lemma same_but_os_reg: "same_but_os w (w\<lparr>os := (os w)\<lparr>registered := r\<rparr>\<rparr>)"
  unfolding same_but_os_def by (rule exI [of _ r]) (rule refl)

lemma same_but_os_refl: "same_but_os w w"
  using same_but_os_reg [of w "registered (os w)"] by simp

lemma epoll_add_event_same: "same_but_os w (snd (epoll_add_event K w s))"
  unfolding epoll_add_event_def ctl_add_def Let_def
  by (simp add: same_but_os_refl same_but_os_reg split: if_split)

lemma epoll_del_event_same: "same_but_os w (snd (epoll_del_event K w s))"
  unfolding epoll_del_event_def ctl_del_def Let_def
  by (simp add: same_but_os_refl same_but_os_reg split: if_split)

lemma same_but_os_simps:
  assumes "same_but_os w w'"
  shows "cells w' = cells w" "m_sockets_cache w' = m_sockets_cache w" "rt_ctx w' = rt_ctx w"
    "socks w' = socks w" "dlinks w' = dlinks w" "mpp_servers w' = mpp_servers w"
    "m_power w' = m_power w" "shm w' = shm w" "accept_lock w' = accept_lock w" "has_ev_ctx w' = has_ev_ctx w"
    "m_hold_lock w' = m_hold_lock w" "app_ctx_list w' = app_ctx_list w" "bufs w' = bufs w"
    "heap w' = heap w"
    "open_fds (os w') = open_fds (os w)" "opened (os w') = opened (os w)" "sent (os w') = sent (os w)" "shut (os w') = shut (os w)"
  using assms by (auto simp: same_but_os_def)

end
