(* ===== verification/EventCore.thy ===== *)
theory EventCore
  imports Epoll
begin

text \<open>
  The core of a worker, \<open>src/modules/event_core_module.c\<close>: accepting and closing connections
  and the event loop.  Application modules are the parameter \<open>A\<close>: the context whose link
  node \<open>m_node\<close> is at address \<open>a\<close> is \<open>A a\<close>; the list \<open>m_app_ctx_list\<close> is a ring of \<open>dlinks\<close>.
  A handler is a function of what the kernel answers, the socket and the worker state.
\<close>

unbundle bit_operations_syntax

section \<open>The code\<close>

record hixo_listen_conf =
  mp_ip :: string
  m_port :: int
  m_backlog :: int

type_synonym handler = "kernel \<Rightarrow> addr \<Rightarrow> world \<Rightarrow> world run"

record app_ctx =
  mpf_handle_connect :: handler
  mpf_handle_read :: handler
  mpf_handle_write :: handler
  mpf_handle_disconnect :: handler
  mpa_servers :: "hixo_listen_conf list"

text \<open>The two nested loops of \<open>hixo_handle_accept\<close>: over the servers of a context, each of which asks
  \<open>getsockname\<close> again and asserts its success, and over the contexts, left at the first one that has a
  server with the port.  \<open>sockname\<close> is the port that \<open>getsockname\<close> gives.\<close>

fun find_server :: "int option \<Rightarrow> hixo_listen_conf list \<Rightarrow> bool run" where
  "find_server sockname [] = Inr False"
| "find_server sockname (srv # srvs) =
     assert_run (sockname \<noteq> None)
       (if the sockname \<noteq> m_port srv then find_server sockname srvs else Inr True)"

partial_function (option) dlist_find_f ::
    "dheap \<Rightarrow> (addr \<Rightarrow> bool run) \<Rightarrow> addr \<Rightarrow> addr \<Rightarrow> addr option run option" where
  "dlist_find_f d found p_pos_node p_list =
     (if p_pos_node = p_list then Some (Inr None)
      else case found p_pos_node of
             Inl e \<Rightarrow> Some (Inl e)
           | Inr b \<Rightarrow> if b then Some (Inr (Some p_pos_node))
                      else dlist_find_f d found (mp_next d p_pos_node) p_list)"

definition serves :: "app_ctx \<Rightarrow> int \<Rightarrow> bool" where
  "serves ctx port \<longleftrightarrow> (\<exists>srv \<in> set (mpa_servers ctx). port = m_port srv)"

lemma find_server_port: "find_server (Some port) (mpa_servers ctx) = Inr (serves ctx port)"
proof -
  have "find_server (Some port) srvs = Inr (\<exists>srv \<in> set srvs. port = m_port srv)" for srvs
    by (induction srvs) (auto simp: assert_run_def)
  then show ?thesis by (simp add: serves_def)
qed

definition free_sock :: "world \<Rightarrow> addr \<Rightarrow> world run" where
  "free_sock w s = bind_run (free_resource (cache_addr w) (pool_of w) s) (\<lambda>p'. Inr (put_pool w p'))"

text \<open>The part of the accept loop behind a successful \<open>accept\<close>: it gives the context for the
  next round of the loop and the new state.\<close>

definition accept_one ::
    "(addr \<Rightarrow> app_ctx) \<Rightarrow> kernel \<Rightarrow> world \<Rightarrow> addr \<Rightarrow> fd \<Rightarrow> int option \<Rightarrow> addr \<Rightarrow> (addr \<times> world) run" where
  "accept_one A K w p_cmnct fd sockname p_app_ctx =
     assert_run (fd \<ge> 0)
      (bind_run (of_option (dlist_find_f (dlinks w) (\<lambda>a. find_server sockname (mpa_servers (A a)))
           (mp_next (dlinks w) (app_ctx_list w)) (app_ctx_list w))) (\<lambda>r. bind_run r (\<lambda>found.
        let app = (case found of Some a \<Rightarrow> a | None \<Rightarrow> p_app_ctx)
        in assert_run (app \<noteq> 0)
          (bind_run (hixo_create_socket w p_cmnct fd HIXO_CMNCT_SOCKET
              (App_read app) (App_write app) (App_disconnect app)) (\<lambda>(rslt, w1).
            if rslt = HIXO_ERROR then bind_run (free_sock w1 p_cmnct) (\<lambda>w2. Inr (app, w2))
            else
              let w2 = hixo_socket_unblock K w1 p_cmnct;
                  w3 = hixo_socket_nodelay K w2 p_cmnct;
                  e = epoll_add_event K w3 p_cmnct
              in if fst e = HIXO_ERROR then
                   bind_run (free_sock (hixo_destroy_socket (snd e) p_cmnct) p_cmnct)
                     (\<lambda>w5. Inr (app, w5))
                 else
                   let w4 = snd e;
                       w5 = w4\<lparr>cells := add_node (cells w4) (connections_cell w4) (socket_node p_cmnct)\<rparr>;
                       w6 = w5\<lparr>m_power := m_power w5 - 1\<rparr>
                   in bind_run (mpf_handle_connect (A app) K p_cmnct w6) (\<lambda>w7. Inr (app, w7)))))))"

definition open_fd :: "world \<Rightarrow> fd \<Rightarrow> world" where
  "open_fd w f = w\<lparr>os := (os w)\<lparr>open_fds := f # open_fds (os w)\<rparr>\<rparr>"

text \<open>The accept loop.  \<open>EWOULDBLOCK\<close> is \<open>EAGAIN\<close>.\<close>

fun accept_loop ::
    "(addr \<Rightarrow> app_ctx) \<Rightarrow> kernel \<Rightarrow> addr \<Rightarrow> accept_result list \<Rightarrow> world \<Rightarrow> world run" where
  "accept_loop A K p_app_ctx [] w =
     bind_run (alloc_resource (cache_addr w) (pool_of w)) (\<lambda>(p', p_cmnct).
       if p_cmnct = 0 then Inr (put_pool w p') else free_sock (put_pool w p') p_cmnct)"
| "accept_loop A K p_app_ctx (r # rs) w =
     bind_run (alloc_resource (cache_addr w) (pool_of w)) (\<lambda>(p', p_cmnct).
       let w1 = put_pool w p'
       in if p_cmnct = 0 then Inr w1
          else if acc_errno r \<noteq> 0 then
            bind_run (free_sock w1 p_cmnct) (\<lambda>w2.
              if acc_errno r = EAGAIN then Inr w2
              else if acc_errno r = ECONNABORTED then accept_loop A K p_app_ctx rs w2
              else Inr w2)
          else
            let fd = new_fd K (open_fds (os w1))
            in bind_run (accept_one A K (open_fd w1 fd) p_cmnct fd (acc_port r) p_app_ctx)
                 (\<lambda>(app, w2). accept_loop A K app rs w2))"

definition hixo_handle_accept :: "(addr \<Rightarrow> app_ctx) \<Rightarrow> handler" where
  "hixo_handle_accept A K p_sock w =
     assert_run (has_ev_ctx w) (accept_loop A K 0 (incoming K (m_fd (socks w p_sock))) w)"

text \<open>The event module is called through \<open>p_ev_ctx\<close>, which is not tested here nor in \<open>event_loop\<close>.\<close>

definition hixo_handle_close :: handler where
  "hixo_handle_close K p_sock w =
     (if \<not> has_ev_ctx w then Inl Bad_access else
      let w1 = set_sock w p_sock (\<lambda>k. k\<lparr>m_readable := False, m_writable := False\<rparr>);
          w2 = snd (epoll_del_event K w1 p_sock);
          w3 = hixo_destroy_socket w2 p_sock
      in bind_run (of_option (rm_node (cells w3) (connections_cell w3) (socket_node p_sock))) (\<lambda>(m, removed).
         assert_run removed
           (bind_run (free_sock (put_cells w3 m) p_sock) (\<lambda>w4.
              Inr (w4\<lparr>m_power := m_power w4 + 1\<rparr>)))))"

text \<open>Calling through a function pointer; the code tests for \<open>NULL\<close> first.\<close>

definition call :: "(addr \<Rightarrow> app_ctx) \<Rightarrow> fptr \<Rightarrow> handler" where
  "call A f K s w =
     (case f of
        Null \<Rightarrow> Inr w
      | Handle_accept \<Rightarrow> hixo_handle_accept A K s w
      | App_read a \<Rightarrow> mpf_handle_read (A a) K s w
      | App_write a \<Rightarrow> mpf_handle_write (A a) K s w
      | App_disconnect a \<Rightarrow> mpf_handle_disconnect (A a) K s w)"

text \<open>What the loop over the posted events does with one socket.\<close>

definition serve_socket :: "(addr \<Rightarrow> app_ctx) \<Rightarrow> handler" where
  "serve_socket A K p_sock w =
     bind_run (if m_readable (socks w p_sock) \<and> mpf_read_handler (socks w p_sock) \<noteq> Null
               then call A (mpf_read_handler (socks w p_sock)) K p_sock w else Inr w) (\<lambda>w1.
     bind_run (if m_close (socks w1 p_sock) then
                 bind_run (if mpf_disconnect_handler (socks w1 p_sock) \<noteq> Null
                           then call A (mpf_disconnect_handler (socks w1 p_sock)) K p_sock w1
                           else Inr w1)
                   (\<lambda>w2. hixo_handle_close K p_sock w2)
               else Inr w1) (\<lambda>w3.
     if m_writable (socks w3 p_sock) \<and> mpf_write_handler (socks w3 p_sock) \<noteq> Null
     then call A (mpf_write_handler (socks w3 p_sock)) K p_sock w3 else Inr w3))"

text \<open>The body of the loop over the posted events; it gives \<open>p_next_iter\<close> and the state.\<close>

definition dispatch_one :: "(addr \<Rightarrow> app_ctx) \<Rightarrow> kernel \<Rightarrow> addr \<Rightarrow> world \<Rightarrow> (addr \<times> world) run" where
  "dispatch_one A K p_iter w =
     (let p_next_iter = cells w p_iter;
          p_sock = p_iter - 48
      in bind_run (serve_socket A K p_sock w) (\<lambda>w1.
         bind_run (of_option (rm_node (cells w1) (posted_cell w1) (posted_node p_sock))) (\<lambda>(m, removed).
           assert_run removed (Inr (p_next_iter, put_cells w1 m)))))"

partial_function (option) dispatch ::
    "(addr \<Rightarrow> app_ctx) \<Rightarrow> kernel \<Rightarrow> addr \<Rightarrow> world \<Rightarrow> world run option" where
  "dispatch A K p_iter w =
     (if p_iter = 0 then Some (Inr w)
      else case dispatch_one A K p_iter w of
             Inl e \<Rightarrow> Some (Inl e)
           | Inr (p_next_iter, w') \<Rightarrow> dispatch A K p_next_iter w')"

text \<open>One round of \<open>event_loop\<close>: \<open>Inl rslt\<close> when the loop is left with that result.\<close>

definition event_round :: "(addr \<Rightarrow> app_ctx) \<Rightarrow> kernel \<Rightarrow> int \<Rightarrow> world \<Rightarrow> (int \<times> world + world) run option" where
  "event_round A K timer w =
     (if \<not> has_ev_ctx w then Some (Inl Bad_access) else
      case epoll_process_events K w timer of
        Inl e \<Rightarrow> Some (Inl e)
      | Inr (rslt, w1) \<Rightarrow>
          if rslt = -1 then Some (Inr (Inl (rslt, w1)))
          else Option.bind (dispatch A K (cells w1 (posted_cell w1)) w1)
                 (\<lambda>x. Some (case x of Inl e \<Rightarrow> Inl e | Inr w2 \<Rightarrow> Inr (Inr w2))))"

text \<open>The loop, whose rounds get the answers \<open>Ks\<close> of the kernel: \<open>Inr (Inr w)\<close> is the state in which it
  waits in \<open>epoll_wait\<close> for the next answer, \<open>Inr (Inl r)\<close> the end of the loop; \<open>None\<close> only when a loop inside
  a round never ends.\<close>

fun event_loop :: "(addr \<Rightarrow> app_ctx) \<Rightarrow> kernel list \<Rightarrow> int \<Rightarrow> world \<Rightarrow> (int \<times> world + world) run option" where
  "event_loop A [] timer w = Some (Inr (Inr w))"
| "event_loop A (K # Ks) timer w =
     (case event_round A K timer w of
        None \<Rightarrow> None
      | Some (Inl e) \<Rightarrow> Some (Inl e)
      | Some (Inr (Inl r)) \<Rightarrow> Some (Inr (Inl r))
      | Some (Inr (Inr w1)) \<Rightarrow> event_loop A Ks timer w1)"

end
