(* ===== verification/Engine.thy ===== *)
theory Engine
  imports EventCore
begin

text \<open>
  The event loop keeps its invariant.  \<open>app_modules\<close> is the contract between the event core and
  the application modules: what a handler may change, and a predicate \<open>J\<close> of the modules about
  the buffers of the connected sockets that the core has to keep.  Inside the locale, accepting,
  closing and dispatching are shown to move sockets between the free list, the connections and
  the posted events as \<open>worker_inv\<close> says, without a failing assertion.
\<close>

unbundle bit_operations_syntax

section \<open>Ports to modules\<close>

lemma dlist_find_f_linked:
  "linked d a (xs @ [h]) \<Longrightarrow> h \<notin> set xs \<Longrightarrow>
     dlist_find_f d (\<lambda>a. Inr (P a)) (mp_next d a) h = Some (Inr (List.find P xs))"
  by (induction xs arbitrary: a) (auto simp: dlist_find_f.simps)

lemma dlist_find_f_ring:
  "dring d h xs \<Longrightarrow> dlist_find_f d (\<lambda>a. Inr (P a)) (mp_next d h) h = Some (Inr (List.find P xs))"
  by (auto simp: dring_def intro: dlist_find_f_linked)

section \<open>The invariant of a worker\<close>

text \<open>What a handler of socket \<open>s\<close> leaves alone: everything but the flags of \<open>s\<close>, the queues
  and buffers, and what has been sent.\<close>

definition flags_only :: "hixo_socket \<Rightarrow> hixo_socket \<Rightarrow> bool" where
  "flags_only k k' \<longleftrightarrow>
     (\<exists>r wr c. k' = k\<lparr>m_readable := r, m_writable := wr, m_close := c\<rparr>)"

definition core_same :: "world \<Rightarrow> world \<Rightarrow> bool" where
  "core_same w w' \<longleftrightarrow> cells w' = cells w \<and> m_sockets_cache w' = m_sockets_cache w
     \<and> rt_ctx w' = rt_ctx w \<and> mpp_servers w' = mpp_servers w \<and> m_power w' = m_power w
     \<and> shm w' = shm w \<and> accept_lock w' = accept_lock w \<and> has_ev_ctx w' = has_ev_ctx w \<and> m_hold_lock w' = m_hold_lock w
     \<and> app_ctx_list w' = app_ctx_list w \<and> open_fds (os w') = open_fds (os w)
     \<and> registered (os w') = registered (os w)"

definition app_frame :: "addr \<Rightarrow> world \<Rightarrow> world \<Rightarrow> bool" where
  "app_frame s w w' \<longleftrightarrow> core_same w w' \<and> flags_only (socks w s) (socks w' s)
     \<and> (\<forall>t. t \<noteq> s \<longrightarrow> socks w' t = socks w t)"

lemma flags_only_refl [simp]: "flags_only k k"
  by (cases k) (auto simp: flags_only_def)

lemma flags_only_simps:
  assumes "flags_only k k'"
  shows "m_fd k' = m_fd k" "mpf_read_handler k' = mpf_read_handler k"
    "mpf_write_handler k' = mpf_write_handler k" "mpf_disconnect_handler k' = mpf_disconnect_handler k"
    "m_event_types k' = m_event_types k" "m_stale k' = m_stale k"
  using assms by (auto simp: flags_only_def)

text \<open>The descriptors and handlers of the connected sockets.  \<open>apps\<close> are the nodes on
  \<open>m_app_ctx_list\<close>.\<close>

definition listener :: "hixo_socket \<Rightarrow> bool" where
  "listener k \<longleftrightarrow> mpf_read_handler k = Handle_accept \<and> mpf_write_handler k = Null \<and> \<not> m_close k"

definition client :: "addr list \<Rightarrow> hixo_socket \<Rightarrow> bool" where
  "client apps k \<longleftrightarrow> (\<exists>a \<in> set apps. mpf_read_handler k = App_read a
     \<and> mpf_write_handler k = App_write a \<and> mpf_disconnect_handler k = App_disconnect a)"

definition socks_inv :: "world \<Rightarrow> addr list \<Rightarrow> addr list \<Rightarrow> bool" where
  "socks_inv w conns apps \<longleftrightarrow>
     distinct (mpp_servers w) \<and> set (mpp_servers w) \<subseteq> set conns
     \<and> (\<forall>s \<in> set conns. 0 \<le> m_fd (socks w s) \<and> opened (os w) (m_fd (socks w s)))
     \<and> inj_on (\<lambda>s. m_fd (socks w s)) (set conns)
     \<and> (\<forall>s \<in> set (mpp_servers w). listener (socks w s))
     \<and> (\<forall>s \<in> set conns - set (mpp_servers w). client apps (socks w s))
     \<and> (\<forall>f ev d. registered (os w) f = Some (ev, d) \<longrightarrow>
          (\<exists>s \<in> set conns - set (mpp_servers w). m_fd (socks w s) = f
             \<and> d = s OR (if m_stale (socks w s) then 1 else 0)))"

text \<open>The worker has been initialised: it has the address of the lock and the event module.\<close>

abbreviation attached :: "world \<Rightarrow> bool" where
  "attached w \<equiv> accept_lock w \<noteq> 0 \<and> has_ev_ctx w"

text \<open>What the core needs to know after a handler of \<open>s\<close> has run.\<close>

definition handler_ok :: "(world \<Rightarrow> addr set \<Rightarrow> bool) \<Rightarrow> addr set \<Rightarrow> addr \<Rightarrow> world \<Rightarrow> world run \<Rightarrow> bool" where
  "handler_ok J S s w res \<longleftrightarrow>
     (\<exists>w'. res = Inr w' \<and> app_frame s w w' \<and> J w' S
        \<and> (\<forall>apps. dring (dlinks w) (app_ctx_list w) apps \<longrightarrow> dring (dlinks w') (app_ctx_list w) apps))"

definition base_inv :: "addr list \<Rightarrow> world \<Rightarrow> addr list \<Rightarrow> addr list \<Rightarrow> addr list \<Rightarrow> bool" where
  "base_inv apps w conns ps fs \<longleftrightarrow>
     core_inv w conns ps fs [] \<and> socks_inv w conns apps
     \<and> dring (dlinks w) (app_ctx_list w) apps \<and> 0 \<notin> set apps \<and> attached w"

definition worker_inv :: "(world \<Rightarrow> addr set \<Rightarrow> bool) \<Rightarrow> addr list \<Rightarrow> world \<Rightarrow>
    addr list \<Rightarrow> addr list \<Rightarrow> addr list \<Rightarrow> bool" where
  "worker_inv J apps w conns ps fs \<longleftrightarrow>
     base_inv apps w conns ps fs \<and> J w (set conns - set (mpp_servers w))"

section \<open>Sockets\<close>

lemma socks_inv_flags:
  assumes "socks_inv w conns apps" and "mpp_servers w' = mpp_servers w"
    and "opened (os w') = opened (os w)" and "registered (os w') = registered (os w)"
    and "\<And>s. s \<in> set conns \<Longrightarrow> flags_only (socks w s) (socks w' s)"
    and "\<And>s. s \<in> set (mpp_servers w) \<Longrightarrow> \<not> m_close (socks w' s)"
  shows "socks_inv w' conns apps"
proof -
  note same = flags_only_simps [OF assms(5)]
  have sub: "s \<in> set conns" if "s \<in> set (mpp_servers w)" for s
    using assms(1) that by (auto simp: socks_inv_def)
  have "inj_on (\<lambda>s. m_fd (socks w' s)) (set conns) = inj_on (\<lambda>s. m_fd (socks w s)) (set conns)"
    by (rule inj_on_cong) (simp add: same)
  moreover have "(\<exists>s \<in> set conns - set (mpp_servers w). m_fd (socks w' s) = f \<and> d = s OR (if m_stale (socks w' s) then 1 else 0))
      = (\<exists>s \<in> set conns - set (mpp_servers w). m_fd (socks w s) = f \<and> d = s OR (if m_stale (socks w s) then 1 else 0))" for f d
    by (rule bex_cong) (simp_all add: same)
  ultimately show ?thesis
    using assms(1-4,6) sub unfolding socks_inv_def listener_def client_def by (simp add: same)
qed

lemma core_inv_socket_change:
  assumes "core_inv w conns ps fs xs" and "core_same w w'"
  shows "core_inv w' conns ps fs xs"
  by (rule core_inv_cong [OF assms(1)]) (use assms(2) in \<open>simp_all add: core_same_def\<close>)

lemma registered_del:
  "f \<noteq> m_fd (socks w s) \<Longrightarrow>
     registered (os (snd (epoll_del_event K w s))) f = registered (os w) f"
  by (simp add: epoll_del_event_def ctl_del_def Let_def split: if_split)

lemma free_sock_ok:
  assumes "core_inv w conns ps fs (s # xs)"
  obtains p' where "free_sock w s = Inr (put_pool w p')"
    and "core_inv (put_pool w p') conns ps (s # fs) xs" and "slots (put_pool w p') = slots w"
proof -
  from core_free [OF assms] obtain p' where
    "free_resource (cache_addr w) (pool_of w) s = Inr p'"
    "core_inv (put_pool w p') conns ps (s # fs) xs" "slots (put_pool w p') = slots w" by blast
  then show ?thesis by (intro that [of p']) (simp_all add: free_sock_def)
qed

text \<open>What closing a socket does to the state.\<close>

lemma handle_close_run:
  assumes inv: "core_inv w conns ps fs []" and ev: "has_ev_ctx w" and s: "s \<in> set conns"
  obtains w' where "hixo_handle_close K s w = Inr w'"
    and "core_inv w' (remove1 s conns) ps (s # fs) []"
    and "m_power w' = m_power w + 1" and "mpp_servers w' = mpp_servers w"
    and "socks w' = (socks w)(s := (socks w s)\<lparr>m_readable := False, m_writable := False\<rparr>)"
    and "slots w' = slots w" and "dlinks w' = dlinks w" and "bufs w' = bufs w" and "heap w' = heap w"
    and "app_ctx_list w' = app_ctx_list w" and "accept_lock w' = accept_lock w"
    and "has_ev_ctx w' = has_ev_ctx w" and "shm w' = shm w"
    and "opened (os w') = (opened (os w))(m_fd (socks w s) := False)"
    and "\<And>f. registered (os w') f = (if f = m_fd (socks w s) then None else registered (os w) f)"
    and "sent (os w') = sent (os w)" and "shut (os w') = shut (os w)"
proof -
  let ?w1 = "set_sock w s (\<lambda>k. k\<lparr>m_readable := False, m_writable := False\<rparr>)"
  define w2 where "w2 = snd (epoll_del_event K ?w1 s)"
  define w3 where "w3 = hixo_destroy_socket w2 s"
  have "same_but_os ?w1 w2" unfolding w2_def by (rule epoll_del_event_same)
  note eq = same_but_os_simps [OF this]
  have core3: "core_inv w3 conns ps fs []"
    by (rule core_inv_cong [OF inv]) (simp_all add: w3_def hixo_destroy_socket_def close_fd_def eq)
  from core_disconnect [OF core3 s] obtain m where
    rm: "rm_node (cells w3) (connections_cell w3) (socket_node s) = Some (m, True)"
    and core4: "core_inv (put_cells w3 m) (remove1 s conns) ps fs [s]" by blast
  from free_sock_ok [OF core4] obtain p' where
    fr: "free_sock (put_cells w3 m) s = Inr (put_pool (put_cells w3 m) p')"
    and core5: "core_inv (put_pool (put_cells w3 m) p') (remove1 s conns) ps (s # fs) []"
    and sl: "slots (put_pool (put_cells w3 m) p') = slots (put_cells w3 m)" by blast
  define w5 where "w5 = put_pool (put_cells w3 m) p'"
  let ?w6 = "w5\<lparr>m_power := m_power w5 + 1\<rparr>"
  have run: "hixo_handle_close K s w = Inr ?w6"
    by (simp add: hixo_handle_close_def ev Let_def rm [unfolded w3_def w2_def] fr [unfolded w3_def w2_def]
        run_simps w5_def w3_def w2_def)
  have reg: "registered (os w2) f = registered (os w) f" if "f \<noteq> m_fd (socks w s)" for f
    using registered_del [of f ?w1 s K] that by (simp add: w2_def)
  show ?thesis
  proof (rule that [OF run])
    show "opened (os ?w6) = (opened (os w))(m_fd (socks w s) := False)"
      by (auto simp: w5_def w3_def hixo_destroy_socket_def close_fd_def eq opened_def fun_eq_iff)
    show "core_inv ?w6 (remove1 s conns) ps (s # fs) []"
      by (rule core_inv_cong [OF core5]) (simp_all add: w5_def)
    show "slots ?w6 = slots w"
      using sl by (simp add: w5_def slots_def w3_def hixo_destroy_socket_def close_fd_def eq)
  qed (use reg in \<open>simp_all add: w5_def w3_def hixo_destroy_socket_def close_fd_def eq\<close>)
qed

lemma socks_inv_close:
  assumes si: "socks_inv w conns apps" and s: "s \<in> set conns" "s \<notin> set (mpp_servers w)"
    and set': "set conns' = set conns - {s}"
    and fields: "mpp_servers w' = mpp_servers w"
      "socks w' = (socks w)(s := k)" "opened (os w') = (opened (os w))(m_fd (socks w s) := False)"
      "\<And>f. registered (os w') f = (if f = m_fd (socks w s) then None else registered (os w) f)"
  shows "socks_inv w' conns' apps"
  unfolding socks_inv_def fields set'
proof (intro conjI ballI allI impI)
  have other: "m_fd (socks w t) \<noteq> m_fd (socks w s)" if "t \<in> set conns - {s}" for t
    using si s that unfolding socks_inv_def inj_on_def by blast
  show "inj_on (\<lambda>t. m_fd (((socks w)(s := k)) t)) (set conns - {s})"
    using si unfolding socks_inv_def by (auto simp: inj_on_def)
  fix f ev d
  assume "(if f = m_fd (socks w s) then None else registered (os w) f) = Some (ev, d)"
  then have f: "f \<noteq> m_fd (socks w s)" and "registered (os w) f = Some (ev, d)"
    by (auto split: if_splits)
  then obtain t where "t \<in> set conns - set (mpp_servers w)" "m_fd (socks w t) = f"
    "d = t OR (if m_stale (socks w t) then 1 else 0)" using si unfolding socks_inv_def by blast
  with f show "\<exists>t \<in> set conns - {s} - set (mpp_servers w). m_fd (((socks w)(s := k)) t) = f
      \<and> d = t OR (if m_stale (((socks w)(s := k)) t) then 1 else 0)"
    by (intro bexI [of _ t]) auto
next
  fix t assume t: "t \<in> set conns - {s}"
  have "m_fd (socks w t) \<noteq> m_fd (socks w s)"
    using si s t unfolding socks_inv_def inj_on_def by blast
  then show "((opened (os w))(m_fd (socks w s) := False)) (m_fd (((socks w)(s := k)) t))"
    using si t by (auto simp: socks_inv_def)
qed (use si s in \<open>auto simp: socks_inv_def\<close>)

lemma socks_inv_add:
  assumes si: "socks_inv w conns apps" and s: "s \<notin> set conns" and a: "a \<in> set apps"
    and fd: "0 \<le> fd" "opened (os w') fd" "\<And>t. t \<in> set conns \<Longrightarrow> m_fd (socks w t) \<noteq> fd"
    and fields: "mpp_servers w' = mpp_servers w"
      "socks w' = (socks w)(s := new_socket fd (App_read a) (App_write a) (App_disconnect a) ev st)"
      "\<And>t. t \<in> set conns \<Longrightarrow> opened (os w') (m_fd (socks w t)) = opened (os w) (m_fd (socks w t))"
    and reg: "\<And>f. f \<noteq> fd \<Longrightarrow> registered (os w') f = registered (os w) f"
      "\<And>ev' d. registered (os w') fd = Some (ev', d) \<Longrightarrow> d = s OR (if st then 1 else 0)"
  shows "socks_inv w' (s # conns) apps"
  unfolding socks_inv_def fields(1)
proof (intro conjI ballI allI impI)
  have same: "socks w' t = socks w t" if "t \<in> set conns" for t using s that by (auto simp: fields(2))
  have new: "socks w' s = new_socket fd (App_read a) (App_write a) (App_disconnect a) ev st"
    by (simp add: fields(2))
  show "inj_on (\<lambda>t. m_fd (socks w' t)) (set (s # conns))"
    using si fd(3) s unfolding socks_inv_def by (auto simp: inj_on_def same new new_socket_def)
  fix f ev' d assume r: "registered (os w') f = Some (ev', d)"
  show "\<exists>t \<in> set (s # conns) - set (mpp_servers w). m_fd (socks w' t) = f \<and> d = t OR (if m_stale (socks w' t) then 1 else 0)"
  proof (cases "f = fd")
    case True
    moreover have "s \<notin> set (mpp_servers w)" using si s by (auto simp: socks_inv_def)
    ultimately show ?thesis using reg(2) r by (intro bexI [of _ s]) (auto simp: new new_socket_def)
  next
    case False
    with r reg(1) obtain t where "t \<in> set conns - set (mpp_servers w)" "m_fd (socks w t) = f"
      "d = t OR (if m_stale (socks w t) then 1 else 0)" using si unfolding socks_inv_def by metis
    then show ?thesis by (intro bexI [of _ t]) (auto simp: same)
  qed
next
  fix t assume t: "t \<in> set (s # conns) - set (mpp_servers w)"
  show "client apps (socks w' t)"
  proof (cases "t = s")
    case True
    with a show ?thesis by (auto simp: fields(2) new_socket_def client_def)
  next
    case False
    then show ?thesis using si t by (auto simp: fields(2) socks_inv_def)
  qed
next
  fix t assume "t \<in> set (mpp_servers w)"
  moreover from this have "t \<noteq> s" using si s by (auto simp: socks_inv_def)
  ultimately show "listener (socks w' t)" using si by (auto simp: fields(2) socks_inv_def)
next
  fix t assume t: "t \<in> set (s # conns)"
  then show "opened (os w') (m_fd (socks w' t))"
    using si fd(2) fields(3) by (cases "t = s") (auto simp: fields(2) new_socket_def socks_inv_def)
qed (use si s fd(1) in \<open>auto simp: socks_inv_def fields(2) new_socket_def\<close>)

lemma socks_inv_cong:
  assumes "socks_inv w conns apps" and "mpp_servers w' = mpp_servers w"
    and "\<And>t. t \<in> set conns \<Longrightarrow> socks w' t = socks w t"
    and "\<And>t. t \<in> set conns \<Longrightarrow> opened (os w') (m_fd (socks w t))"
    and "\<And>f ev d. registered (os w') f = Some (ev, d) \<Longrightarrow> registered (os w) f = Some (ev, d)"
  shows "socks_inv w' conns apps"
  unfolding socks_inv_def assms(2)
proof (intro conjI ballI allI impI)
  have sub: "s \<in> set conns" if "s \<in> set (mpp_servers w)" for s
    using assms(1) that by (auto simp: socks_inv_def)
  show "inj_on (\<lambda>s. m_fd (socks w' s)) (set conns)"
    using assms(1) unfolding socks_inv_def by (auto simp: inj_on_def assms(3))
  show "listener (socks w' t)" if "t \<in> set (mpp_servers w)" for t
    using assms(1) that sub assms(3) by (auto simp: socks_inv_def)
  fix f ev d assume "registered (os w') f = Some (ev, d)"
  then have "registered (os w) f = Some (ev, d)" by (rule assms(5))
  then obtain t where "t \<in> set conns - set (mpp_servers w)" "m_fd (socks w t) = f"
    "d = t OR (if m_stale (socks w t) then 1 else 0)" using assms(1) unfolding socks_inv_def by blast
  then show "\<exists>t \<in> set conns - set (mpp_servers w). m_fd (socks w' t) = f \<and> d = t OR (if m_stale (socks w' t) then 1 else 0)"
    by (intro bexI [of _ t]) (auto simp: assms(3))
qed (use assms(1) in \<open>auto simp: socks_inv_def assms(3,4)\<close>)

section \<open>The contract of the modules\<close>

locale app_modules =
  fixes A :: "addr \<Rightarrow> app_ctx" and J :: "world \<Rightarrow> addr set \<Rightarrow> bool"
    and M :: "addr \<Rightarrow> world \<Rightarrow> addr set \<Rightarrow> bool" and ready :: "kernel \<Rightarrow> bool"
  assumes J_cong: "J w S \<Longrightarrow> dlinks w' = dlinks w \<Longrightarrow> bufs w' = bufs w \<Longrightarrow> heap w' = heap w \<Longrightarrow>
      slots w' = slots w \<Longrightarrow> app_ctx_list w' = app_ctx_list w \<Longrightarrow> J w' S"
    and J_mono: "J w S \<Longrightarrow> T \<subseteq> S \<Longrightarrow> J w T"
    and J_create: "core_inv w conns ps fs xs \<Longrightarrow> J w S \<Longrightarrow> S \<subseteq> set (slots w) \<Longrightarrow> s \<in> set (slots w) \<Longrightarrow>
      s \<notin> S \<Longrightarrow> dring (dlinks w) (app_ctx_list w) apps \<Longrightarrow>
      J (w\<lparr>dlinks := empty_queues (dlinks w) s\<rparr>) (insert s S)
      \<and> dring (empty_queues (dlinks w) s) (app_ctx_list w) apps"
    and J_M: "J w S \<Longrightarrow> s \<in> S \<Longrightarrow> S \<subseteq> set (slots w) \<Longrightarrow> M s w S"
    and M_J: "M s w S \<Longrightarrow> s \<in> S \<Longrightarrow> \<not> m_close (socks w s) \<Longrightarrow> J w S"
    and connect_ok: "J w S \<Longrightarrow> s \<in> S \<Longrightarrow> S \<subseteq> set (slots w) \<Longrightarrow> handler_ok J S s w (mpf_handle_connect (A a) K s w)"
    and read_ok: "J w S \<Longrightarrow> s \<in> S \<Longrightarrow> S \<subseteq> set (slots w) \<Longrightarrow>
      mpf_disconnect_handler (socks w s) = App_disconnect a \<Longrightarrow> m_readable (socks w s) \<Longrightarrow> ready K \<Longrightarrow>
      handler_ok (M s) S s w (mpf_handle_read (A a) K s w)"
    and write_ok: "J w S \<Longrightarrow> s \<in> S \<Longrightarrow> S \<subseteq> set (slots w) \<Longrightarrow> handler_ok J S s w (mpf_handle_write (A a) K s w)"
    and disconnect_ok: "M s w S \<Longrightarrow> s \<in> S \<Longrightarrow> S \<subseteq> set (slots w) \<Longrightarrow>
      mpf_disconnect_handler (socks w s) = App_disconnect a \<Longrightarrow>
      handler_ok J (S - {s}) s w (mpf_handle_disconnect (A a) K s w)"
begin

lemma J_same:
  assumes "J w S" and "dlinks w' = dlinks w" and "bufs w' = bufs w" and "heap w' = heap w"
    and "slots w' = slots w" and "app_ctx_list w' = app_ctx_list w"
  shows "J w' S"
  by (rule J_cong [OF assms])

lemma handle_close_ok:
  assumes inv: "base_inv apps w conns ps fs" and s: "s \<in> set conns - set (mpp_servers w)"
    and J: "J w (set conns - set (mpp_servers w) - {s})"
  obtains w' where "hixo_handle_close K s w = Inr w'"
    and "worker_inv J apps w' (remove1 s conns) ps (s # fs)"
    and "m_power w' = m_power w + 1" and "mpp_servers w' = mpp_servers w"
    and "socks w' = (socks w)(s := (socks w s)\<lparr>m_readable := False, m_writable := False\<rparr>)"
    and "slots w' = slots w" and "opened (os w') = (opened (os w))(m_fd (socks w s) := False)"
    and "shm w' = shm w" and "accept_lock w' = accept_lock w"
proof -
  have core: "core_inv w conns ps fs []" and si: "socks_inv w conns apps"
    and ring: "dring (dlinks w) (app_ctx_list w) apps" "0 \<notin> set apps"
    and lock: "attached w"
    using inv by (simp_all add: base_inv_def)
  have set': "set (remove1 s conns) = set conns - {s}"
    using core_sets(1) [OF core] by (simp add: set_remove1_eq)
  show ?thesis
  proof (rule handle_close_run [OF core conjunct2 [OF lock], of s K])
    show "s \<in> set conns" using s by simp
    fix w' assume w': "hixo_handle_close K s w = Inr w'" "core_inv w' (remove1 s conns) ps (s # fs) []"
      "m_power w' = m_power w + 1" "mpp_servers w' = mpp_servers w"
      "socks w' = (socks w)(s := (socks w s)\<lparr>m_readable := False, m_writable := False\<rparr>)"
      "slots w' = slots w" "dlinks w' = dlinks w" "bufs w' = bufs w" "heap w' = heap w"
      "app_ctx_list w' = app_ctx_list w" "accept_lock w' = accept_lock w" "has_ev_ctx w' = has_ev_ctx w" "shm w' = shm w"
      "opened (os w') = (opened (os w))(m_fd (socks w s) := False)"
      "\<And>f. registered (os w') f = (if f = m_fd (socks w s) then None else registered (os w) f)"
    have "socks_inv w' (remove1 s conns) apps"
      by (rule socks_inv_close [OF si _ _ set' w'(4,5,14,15)]) (use s in auto)
    moreover have "set conns - {s} - set (mpp_servers w) = set conns - set (mpp_servers w) - {s}" by auto
    ultimately have "worker_inv J apps w' (remove1 s conns) ps (s # fs)"
      unfolding worker_inv_def base_inv_def w'(4) set'
      using ring lock J_same [OF J w'(7,8,9,6,10)] w'(2,7,10,11,12) by simp
    then show ?thesis by (rule that [OF w'(1) _ w'(3,4,5,6,14,13,11)])
  qed
qed

end

text \<open>Registering a socket: the descriptor is new to \<open>epoll\<close>.\<close>

lemma add_event_outcome:
  assumes "opened (os w) (m_fd (socks w s))" and "registered (os w) (m_fd (socks w s)) = None"
  obtains "epoll_add_event K w s = (HIXO_ERROR, w)" and "add_errno K (m_fd (socks w s)) \<notin> {0, EEXIST}"
  | w' where "epoll_add_event K w s = (HIXO_OK, w')" and "add_errno K (m_fd (socks w s)) \<in> {0, EEXIST}"
    and "same_but_os w w'"
    and "\<And>f. f \<noteq> m_fd (socks w s) \<Longrightarrow> registered (os w') f = registered (os w) f"
    and "\<And>ev d. registered (os w') (m_fd (socks w s)) = Some (ev, d) \<Longrightarrow>
           d = s OR (if m_stale (socks w s) then 1 else 0)"
proof (cases "add_errno K (m_fd (socks w s)) = 0 \<or> add_errno K (m_fd (socks w s)) = EEXIST")
  case True
  define w' where "w' = snd (epoll_add_event K w s)"
  have same: "same_but_os w w'" unfolding w'_def by (rule epoll_add_event_same)
  have "epoll_add_event K w s = (HIXO_OK, w')"
    using True assms by (auto simp: w'_def epoll_add_event_def ctl_add_def Let_def EEXIST_def)
  moreover have "registered (os w') f = registered (os w) f" if "f \<noteq> m_fd (socks w s)" for f
    using that by (simp add: w'_def epoll_add_event_def ctl_add_def Let_def split: if_split)
  moreover have "d = s OR (if m_stale (socks w s) then 1 else 0)"
    if "registered (os w') (m_fd (socks w s)) = Some (ev, d)" for ev d
    using that assms(2) by (simp add: w'_def epoll_add_event_def ctl_add_def Let_def split: if_splits)
  ultimately show ?thesis using same that(2) True by blast
next
  case False
  then have "epoll_add_event K w s = (HIXO_ERROR, w)"
    using assms by (simp add: epoll_add_event_def ctl_add_def Let_def)
  then show ?thesis using False by (intro that(1)) simp_all
qed

lemma registered_opened: "socks_inv w conns apps \<Longrightarrow> registered (os w) f \<noteq> None \<Longrightarrow>
    \<exists>t \<in> set conns - set (mpp_servers w). m_fd (socks w t) = f"
  unfolding socks_inv_def by fastforce

lemma base_inv_frame:
  assumes inv: "base_inv apps w conns ps fs" and frame: "app_frame s w w'"
    and s: "s \<notin> set (mpp_servers w)" and ring: "dring (dlinks w') (app_ctx_list w) apps"
  shows "base_inv apps w' conns ps fs"
proof -
  have same: "core_same w w'" and flags: "flags_only (socks w s) (socks w' s)"
    and others: "\<And>t. t \<noteq> s \<Longrightarrow> socks w' t = socks w t"
    using frame by (auto simp: app_frame_def)
  have si: "socks_inv w conns apps" using inv by (simp add: base_inv_def)
  have "socks_inv w' conns apps"
  proof (rule socks_inv_flags [OF si])
    show "flags_only (socks w t) (socks w' t)" for t
      using flags others [of t] by (cases "t = s") simp_all
    show "\<not> m_close (socks w' t)" if "t \<in> set (mpp_servers w)" for t
      using that s si others [of t] by (cases "t = s") (auto simp: socks_inv_def listener_def)
    show "opened (os w') = opened (os w)" using same by (intro opened_cong) (simp add: core_same_def)
  qed (use same in \<open>simp_all add: core_same_def\<close>)
  then show ?thesis
    using inv ring core_inv_socket_change [OF _ same] same
    by (simp add: base_inv_def core_same_def)
qed

context app_modules
begin

lemma accept_one_ok:
  assumes core: "core_inv w conns ps fs [s]" and si: "socks_inv w conns apps"
    and ring: "dring (dlinks w) (app_ctx_list w) apps" "0 \<notin> set apps" "attached w"
    and J: "J w (set conns - set (mpp_servers w))"
    and fd: "0 \<le> fd" "opened (os w) (fd)" "\<And>t. t \<in> set conns \<Longrightarrow> m_fd (socks w t) \<noteq> fd"
    and served: "List.find (\<lambda>a. serves (A a) port) apps = Some a"
  shows "\<exists>w' conns' fs'. accept_one A K w s fd (Some port) p_app = Inr (a, w')
    \<and> worker_inv J apps w' conns' ps fs'
    \<and> conns' = (if add_errno K fd \<in> {0, EEXIST} then s # conns else conns)
    \<and> m_fd (socks w' s) = fd \<and> mpf_read_handler (socks w' s) = App_read a
    \<and> mpf_write_handler (socks w' s) = App_write a \<and> mpf_disconnect_handler (socks w' s) = App_disconnect a
    \<and> m_power w' + int (length conns') = m_power w + int (length conns)
    \<and> mpp_servers w' = mpp_servers w \<and> slots w' = slots w
    \<and> (\<forall>t. t \<noteq> s \<longrightarrow> socks w' t = socks w t)
    \<and> (\<forall>f. f \<noteq> fd \<longrightarrow> opened (os w') f = opened (os w) f)"
proof -
  let ?ev = "HIXO_EVENT_IN OR HIXO_EVENT_OUT OR HIXO_EVENT_FLAGS"
  let ?k = "new_socket (fd) (App_read a) (App_write a) (App_disconnect a) ?ev (\<not> m_stale (socks w s))"
  let ?C = "set conns - set (mpp_servers w)"
  note sets = core_sets [OF core]
  have s: "s \<notin> set conns" "s \<in> set (slots w)" using sets(1,4) by auto
  have "a \<in> set apps" using served by (auto simp: find_Some_iff)
  with ring(2) have a: "a \<in> set apps" "a \<noteq> 0" by auto
  have find: "dlist_find_f (dlinks w) (\<lambda>a. find_server (Some port) (mpa_servers (A a)))
      (mp_next (dlinks w) (app_ctx_list w)) (app_ctx_list w) = Some (Inr (Some a))"
    using dlist_find_f_ring [OF ring(1)] served by (simp add: find_server_port)
  define w1 where "w1 = (set_sock w s (\<lambda>k. ?k))\<lparr>dlinks := empty_queues (dlinks w) s\<rparr>"
  have create: "hixo_create_socket w s (fd) HIXO_CMNCT_SOCKET (App_read a) (App_write a) (App_disconnect a)
      = Inr (HIXO_OK, w1)"
    unfolding w1_def hixo_create_socket_cmnct by (simp add: set_sock_def)
  define w3 where "w3 = hixo_socket_nodelay K (hixo_socket_unblock K w1 s) s"
  have w3: "cells w3 = cells w" "m_sockets_cache w3 = m_sockets_cache w" "rt_ctx w3 = rt_ctx w"
    "mpp_servers w3 = mpp_servers w" "m_power w3 = m_power w" "app_ctx_list w3 = app_ctx_list w"
    "bufs w3 = bufs w" "heap w3 = heap w" "dlinks w3 = empty_queues (dlinks w) s"
    "accept_lock w3 = accept_lock w" "has_ev_ctx w3 = has_ev_ctx w" "socks w3 = (socks w)(s := ?k)" "opened (os w3) = opened (os w)"
    "registered (os w3) = registered (os w)"
    by (simp_all add: w3_def w1_def hixo_socket_nodelay_def hixo_socket_unblock_def Let_def)
  have sl3: "slots w3 = slots w" by (simp add: slots_def w3)
  have fd3: "m_fd (socks w3 s) = fd" by (simp add: w3 new_socket_def)
  have none: "registered (os w) (fd) = None" using registered_opened [OF si, of "fd"] fd(3) by blast
  have Jring: "J (w\<lparr>dlinks := empty_queues (dlinks w) s\<rparr>) (insert s ?C)"
    "dring (empty_queues (dlinks w) s) (app_ctx_list w) apps"
    using J_create [OF core J _ s(2) _ ring(1)] s(1) sets(2) by auto
  have core3: "core_inv w3 conns ps fs [s]" by (rule core_inv_cong [OF core]) (simp_all add: w3)
  have run: "accept_one A K w s fd (Some port) p_app =
      (if fst (epoll_add_event K w3 s) = HIXO_ERROR then
         bind_run (free_sock (hixo_destroy_socket (snd (epoll_add_event K w3 s)) s) s) (\<lambda>w5. Inr (a, w5))
       else
         let w4 = snd (epoll_add_event K w3 s);
             w5 = w4\<lparr>cells := add_node (cells w4) (connections_cell w4) (socket_node s)\<rparr>;
             w6 = w5\<lparr>m_power := m_power w5 - 1\<rparr>
         in bind_run (mpf_handle_connect (A a) K s w6) (\<lambda>w7. Inr (a, w7)))"
    using fd(1) a(2) by (simp add: accept_one_def find create Let_def run_simps w3_def [symmetric] del: find_server.simps)
  have pre: "opened (os w3) (m_fd (socks w3 s))" "registered (os w3) (m_fd (socks w3 s)) = None"
    using fd(2) none by (simp_all add: fd3 w3(13,14))
  show ?thesis
  proof (rule add_event_outcome [OF pre, of K])
    assume err: "epoll_add_event K w3 s = (HIXO_ERROR, w3)" and errno: "add_errno K (m_fd (socks w3 s)) \<notin> {0, EEXIST}"
    let ?w4 = "hixo_destroy_socket w3 s"
    have core4: "core_inv ?w4 conns ps fs [s]"
      by (rule core_inv_cong [OF core3]) (simp_all add: hixo_destroy_socket_def close_fd_def)
    from free_sock_ok [OF core4] obtain p' where fr: "free_sock ?w4 s = Inr (put_pool ?w4 p')"
      and core5: "core_inv (put_pool ?w4 p') conns ps (s # fs) []"
      and sl: "slots (put_pool ?w4 p') = slots ?w4" by blast
    define w5 where "w5 = put_pool ?w4 p'"
    have f5: "socks w5 = (socks w)(s := ?k)" "mpp_servers w5 = mpp_servers w" "m_power w5 = m_power w"
      "app_ctx_list w5 = app_ctx_list w" "bufs w5 = bufs w" "heap w5 = heap w" "accept_lock w5 = accept_lock w" "has_ev_ctx w5 = has_ev_ctx w"
      "dlinks w5 = empty_queues (dlinks w) s" "opened (os w5) = (opened (os w))(fd := False)"
      "registered (os w5) = (registered (os w))(fd := None)"
      by (simp_all add: w5_def hixo_destroy_socket_def close_fd_def w3 new_socket_def [of "fd"])
    have sl5: "slots w5 = slots w"
      using sl by (simp add: w5_def slots_def hixo_destroy_socket_def close_fd_def w3)
    have "socks_inv w5 conns apps"
      by (rule socks_inv_cong [OF si f5(2)])
        (use si s fd(3) in \<open>auto simp: f5 socks_inv_def split: if_splits\<close>)
    moreover have "J w5 ?C"
      by (rule J_same [OF J_mono [OF Jring(1) subset_insertI]]) (simp_all add: f5 sl5 slots_def [of "w\<lparr>dlinks := _\<rparr>"] slots_def [of w, symmetric])
    ultimately have "worker_inv J apps w5 conns ps (s # fs)"
      using core5 Jring(2) ring(2,3) by (simp add: worker_inv_def base_inv_def w5_def [symmetric] f5)
    moreover have "accept_one A K w s fd (Some port) p_app = Inr (a, w5)" by (simp add: run err fr w5_def)
    ultimately show ?thesis using sl5 errno
      by (intro exI [of _ w5] exI [of _ conns] exI [of _ "s # fs"]) (simp add: f5 fd3 new_socket_def)
  next
    fix w4 assume ok: "epoll_add_event K w3 s = (HIXO_OK, w4)" and errno: "add_errno K (m_fd (socks w3 s)) \<in> {0, EEXIST}"
      and same: "same_but_os w3 w4"
      and reg: "\<And>f. f \<noteq> m_fd (socks w3 s) \<Longrightarrow> registered (os w4) f = registered (os w3) f"
        "\<And>ev d. registered (os w4) (m_fd (socks w3 s)) = Some (ev, d) \<Longrightarrow>
           d = s OR (if m_stale (socks w3 s) then 1 else 0)"
    note eq = same_but_os_simps [OF same]
    have core4: "core_inv w4 conns ps fs [s]" by (rule core_inv_cong [OF core3]) (simp_all add: eq)
    let ?w5 = "put_cells w4 (add_node (cells w4) (connections_cell w4) (socket_node s))"
    define w6 where "w6 = ?w5\<lparr>m_power := m_power ?w5 - 1\<rparr>"
    have core6: "core_inv w6 (s # conns) ps fs []"
      by (rule core_inv_cong [OF core_connect [OF core4]]) (simp_all add: w6_def)
    have f6: "socks w6 = (socks w)(s := ?k)" "mpp_servers w6 = mpp_servers w" "m_power w6 = m_power w - 1"
      "app_ctx_list w6 = app_ctx_list w" "bufs w6 = bufs w" "heap w6 = heap w" "accept_lock w6 = accept_lock w" "has_ev_ctx w6 = has_ev_ctx w"
      "dlinks w6 = empty_queues (dlinks w) s" "os w6 = os w4"
      by (simp_all add: w6_def eq w3)
    have sl6: "slots w6 = slots w" by (simp add: w6_def slots_def eq w3)
    have "socks_inv w6 (s # conns) apps"
      by (rule socks_inv_add [OF si s(1) a(1) fd(1) _ fd(3) f6(2,1)])
        (use reg fd in \<open>auto simp: f6 eq w3 fd3 [unfolded w3] new_socket_def\<close>)
    moreover have "dring (dlinks w6) (app_ctx_list w6) apps" using Jring(2) by (simp add: f6)
    moreover have J6: "J w6 (insert s ?C)"
      by (rule J_same [OF Jring(1)]) (simp_all add: f6 sl6 slots_def [of "w\<lparr>dlinks := _\<rparr>"] slots_def [of w, symmetric])
    ultimately have base6: "base_inv apps w6 (s # conns) ps fs"
      using core6 ring(2,3) f6 by (simp add: base_inv_def)
    have "insert s ?C \<subseteq> set (slots w6)" using core_sets(2) [OF core6] by auto
    from connect_ok [OF J6 _ this, of s a K] obtain w7 where
      conn: "mpf_handle_connect (A a) K s w6 = Inr w7" and frame: "app_frame s w6 w7"
      and J7: "J w7 (insert s ?C)" and ring7: "dring (dlinks w7) (app_ctx_list w6) apps"
      using base6 by (auto simp: handler_ok_def base_inv_def)
    have "accept_one A K w s fd (Some port) p_app = Inr (a, w7)"
      using conn by (simp add: run ok Let_def HIXO_OK_def HIXO_ERROR_def w6_def put_cells_def)
    moreover have "s \<notin> set (mpp_servers w6)" using si s(1) by (auto simp: f6 socks_inv_def)
    then have "base_inv apps w7 (s # conns) ps fs" by (rule base_inv_frame [OF base6 frame _ ring7])
    moreover have "opened (os w7) = opened (os w)"
      using frame by (simp add: app_frame_def core_same_def f6 eq opened_cong [of "os w7" "os w4"] w3)
    moreover have same7: "mpp_servers w7 = mpp_servers w" "m_power w7 = m_power w - 1"
      "slots w7 = slots w"
      using frame by (simp_all add: app_frame_def core_same_def f6 eq w3 slots_def)
        (simp add: w6_def eq w3)
    moreover have "set (s # conns) - set (mpp_servers w) = insert s ?C"
      using si s(1) by (auto simp: socks_inv_def)
    moreover have "socks w7 t = socks w t" if "t \<noteq> s" for t
      using frame that by (simp add: app_frame_def f6)
    moreover have "flags_only (socks w6 s) (socks w7 s)" using frame by (simp add: app_frame_def)
    note flags_only_simps [OF this]
    ultimately show ?thesis using J7 errno
      by (intro exI [of _ w7] exI [of _ "s # conns"] exI [of _ fs]) (simp add: worker_inv_def fd3 f6 new_socket_def)
  qed
qed
end

lemma base_inv_pool:
  assumes "base_inv apps w conns ps fs" and "core_inv (put_pool w p') conns ps fs' xs"
  shows "socks_inv (put_pool w p') conns apps"
    and "dring (dlinks (put_pool w p')) (app_ctx_list (put_pool w p')) apps"
  using assms by (auto simp: base_inv_def intro!: socks_inv_cong [of w conns apps] simp: socks_inv_def)

text \<open>What the kernel promises about accepted connections: a new descriptor is one that is not
  open, \<open>getsockname\<close> on an accepted connection succeeds and gives a port that was listened on.\<close>

definition kernel_fds :: "kernel \<Rightarrow> bool" where
  "kernel_fds K \<longleftrightarrow> (\<forall>l. 0 \<le> new_fd K l \<and> new_fd K l \<notin> set l)"

definition incoming_ok :: "(addr \<Rightarrow> app_ctx) \<Rightarrow> addr list \<Rightarrow> accept_result list \<Rightarrow> bool" where
  "incoming_ok A apps rs \<longleftrightarrow>
     (\<forall>r \<in> set rs. acc_errno r = 0 \<longrightarrow> (\<exists>port. acc_port r = Some port \<and> (\<exists>a \<in> set apps. serves (A a) port)))"

text \<open>The connections after an accept: the new one is among them when \<open>epoll\<close> takes its descriptor.\<close>

definition new_conns :: "kernel \<Rightarrow> fd \<Rightarrow> addr \<Rightarrow> addr list \<Rightarrow> addr list" where
  "new_conns K fd s conns = (if add_errno K fd \<in> {0, EEXIST} then s # conns else conns)"

context app_modules
begin

lemma worker_inv_alloc:
  assumes inv: "worker_inv J apps w conns ps (s # fs)"
  obtains p' where "alloc_resource (cache_addr w) (pool_of w) = Inr (p', s)"
    and "core_inv (put_pool w p') conns ps fs [s]" and "socks_inv (put_pool w p') conns apps"
    and "dring (dlinks (put_pool w p')) (app_ctx_list (put_pool w p')) apps" and "0 \<notin> set apps"
    and "attached (put_pool w p')" and "J (put_pool w p') (set conns - set (mpp_servers (put_pool w p')))"
    and "slots (put_pool w p') = slots w" and "s \<noteq> 0"
proof -
  have base: "base_inv apps w conns ps (s # fs)" and core: "core_inv w conns ps (s # fs) []"
    using inv by (simp_all add: worker_inv_def base_inv_def)
  from core_alloc [OF core] obtain p' where
    p': "alloc_resource (cache_addr w) (pool_of w) = Inr (p', s)"
    "core_inv (put_pool w p') conns ps fs [s]" "slots (put_pool w p') = slots w" by blast
  have "s \<in> set (slots w)" using core_sets(3) [OF core] by simp
  then have "s \<noteq> 0" using slot_cells(1) [OF core] by blast
  moreover have "J (put_pool w p') (set conns - set (mpp_servers w))"
    by (rule J_same [of w]) (use inv p'(3) in \<open>simp_all add: worker_inv_def\<close>)
  ultimately show ?thesis
    using p' base_inv_pool [OF base p'(2)] base by (intro that) (simp_all add: base_inv_def)
qed

lemma free_sock_inv:
  assumes core: "core_inv w conns ps fs [s]" and si: "socks_inv w conns apps"
    and ring: "dring (dlinks w) (app_ctx_list w) apps" "0 \<notin> set apps" "attached w"
    and J: "J w (set conns - set (mpp_servers w))"
  obtains w' where "free_sock w s = Inr w'" and "worker_inv J apps w' conns ps (s # fs)"
    and "m_power w' = m_power w" and "mpp_servers w' = mpp_servers w" and "slots w' = slots w"
    and "socks w' = socks w" and "os w' = os w"
proof -
  from free_sock_ok [OF core] obtain p' where p': "free_sock w s = Inr (put_pool w p')"
    "core_inv (put_pool w p') conns ps (s # fs) []" "slots (put_pool w p') = slots w" by blast
  have "socks_inv (put_pool w p') conns apps"
    by (rule socks_inv_cong [OF si]) (use si in \<open>auto simp: socks_inv_def\<close>)
  moreover have "J (put_pool w p') (set conns - set (mpp_servers w))"
    by (rule J_same [OF J]) (simp_all add: p'(3))
  ultimately have "worker_inv J apps (put_pool w p') conns ps (s # fs)"
    using p' ring by (simp add: worker_inv_def base_inv_def)
  with p' show ?thesis by (intro that [of "put_pool w p'"]) simp_all
qed

lemma open_fd_inv:
  assumes "core_inv w conns ps fs xs" and "socks_inv w conns apps"
    and "dring (dlinks w) (app_ctx_list w) apps" and "J w (set conns - set (mpp_servers w))"
  shows "core_inv (open_fd w f) conns ps fs xs" and "socks_inv (open_fd w f) conns apps"
    and "dring (dlinks (open_fd w f)) (app_ctx_list (open_fd w f)) apps"
    and "J (open_fd w f) (set conns - set (mpp_servers (open_fd w f)))"
    and "opened (os (open_fd w f)) f"
proof -
  show "core_inv (open_fd w f) conns ps fs xs"
    by (rule core_inv_cong [OF assms(1)]) (simp_all add: open_fd_def)
  show "socks_inv (open_fd w f) conns apps"
    by (rule socks_inv_cong [OF assms(2)]) (use assms(2) in \<open>auto simp: open_fd_def socks_inv_def\<close>)
  have "J (open_fd w f) (set conns - set (mpp_servers w))"
    by (rule J_same [OF assms(4)]) (simp_all add: open_fd_def slots_def)
  then show "J (open_fd w f) (set conns - set (mpp_servers (open_fd w f)))" by (simp add: open_fd_def)
qed (use assms(3) in \<open>simp_all add: open_fd_def\<close>)

text \<open>The turns of the accept loop: the last one, which finds nobody waiting, and one that finds a
  connection.\<close>

lemma accept_loop_end:
  assumes inv: "worker_inv J apps w conns ps fs"
  obtains w' fs' where "accept_loop A K p_app [] w = Inr w'" and "worker_inv J apps w' conns ps fs'"
    and "m_power w' = m_power w" and "mpp_servers w' = mpp_servers w" and "slots w' = slots w"
    and "socks w' = socks w"
proof (cases fs)
  case Nil
  then have "alloc_resource (cache_addr w) (pool_of w) = Inr (pool_of w, 0)"
    using core_alloc_none [of w conns ps] inv by (auto simp: worker_inv_def base_inv_def)
  then have "accept_loop A K p_app [] w = Inr w" by (simp add: put_pool_def pool_of_def)
  then show ?thesis using inv by (rule that) simp_all
next
  case (Cons s fs')
  obtain p' where
    al: "alloc_resource (cache_addr w) (pool_of w) = Inr (p', s)"
    and w1: "core_inv (put_pool w p') conns ps fs' [s]" "socks_inv (put_pool w p') conns apps"
      "dring (dlinks (put_pool w p')) (app_ctx_list (put_pool w p')) apps" "0 \<notin> set apps" "attached (put_pool w p')"
      "J (put_pool w p') (set conns - set (mpp_servers (put_pool w p')))"
    and sl: "slots (put_pool w p') = slots w" and "s \<noteq> 0"
    by (rule worker_inv_alloc [OF inv [unfolded Cons]])
  from free_sock_inv [OF w1] obtain w' where
    "free_sock (put_pool w p') s = Inr w'" "worker_inv J apps w' conns ps (s # fs')"
    "m_power w' = m_power w" "mpp_servers w' = mpp_servers w" "slots w' = slots w"
    "socks w' = socks w" using sl by auto
  then show ?thesis using al \<open>s \<noteq> 0\<close> by (intro that [of w' "s # fs'"]) simp_all
qed

lemma accept_loop_served:
  assumes inv: "worker_inv J apps w conns ps (s # fs)" and K: "kernel_fds K"
    and r: "acc_errno r = 0" "acc_port r = Some port"
    and served: "List.find (\<lambda>a. serves (A a) port) apps = Some a"
  defines "fd \<equiv> new_fd K (open_fds (os w))"
  obtains w' fs' where "accept_loop A K p_app (r # rs) w = accept_loop A K a rs w'"
    and "worker_inv J apps w' (new_conns K fd s conns) ps fs'"
    and "m_power w' + int (length (new_conns K fd s conns)) = m_power w + int (length conns)"
    and "mpp_servers w' = mpp_servers w" and "slots w' = slots w" and "\<forall>t. t \<noteq> s \<longrightarrow> socks w' t = socks w t"
    and "m_fd (socks w' s) = fd" and "mpf_read_handler (socks w' s) = App_read a"
    and "mpf_write_handler (socks w' s) = App_write a" and "mpf_disconnect_handler (socks w' s) = App_disconnect a"
    and "s \<notin> set conns"
proof -
  obtain p' where
    al: "alloc_resource (cache_addr w) (pool_of w) = Inr (p', s)"
    and w1: "core_inv (put_pool w p') conns ps fs [s]" "socks_inv (put_pool w p') conns apps"
      "dring (dlinks (put_pool w p')) (app_ctx_list (put_pool w p')) apps" "0 \<notin> set apps" "attached (put_pool w p')"
      "J (put_pool w p') (set conns - set (mpp_servers (put_pool w p')))"
    and sl: "slots (put_pool w p') = slots w" and s: "s \<noteq> 0"
    by (rule worker_inv_alloc [OF inv])
  let ?w2 = "open_fd (put_pool w p') fd"
  have fd: "0 \<le> fd" "\<not> opened (os w) fd"
    using K by (simp_all add: kernel_fds_def fd_def opened_def)
  have si: "socks_inv w conns apps" using inv by (simp add: worker_inv_def base_inv_def)
  have fds: "m_fd (socks ?w2 t) \<noteq> fd" if "t \<in> set conns" for t
    using si fd(2) that by (auto simp: open_fd_def socks_inv_def)
  have w2: "core_inv ?w2 conns ps fs [s]" "socks_inv ?w2 conns apps"
    "dring (dlinks ?w2) (app_ctx_list ?w2) apps" "J ?w2 (set conns - set (mpp_servers ?w2))"
    "opened (os ?w2) fd"
    using open_fd_inv [OF w1(1,2,3,6)] by auto
  have lock2: "attached ?w2" using w1(5) by (simp add: open_fd_def)
  have e2: "mpp_servers ?w2 = mpp_servers w" "m_power ?w2 = m_power w" "socks ?w2 = socks w"
    "slots ?w2 = slots w"
    using sl by (simp_all add: open_fd_def slots_def)
  from accept_one_ok [OF w2(1-3) w1(4) lock2 w2(4) fd(1) w2(5) fds served, of K p_app, unfolded e2, folded new_conns_def]
  obtain w' fs' where w': "accept_one A K ?w2 s fd (Some port) p_app = Inr (a, w')"
    "worker_inv J apps w' (new_conns K fd s conns) ps fs'"
    "m_fd (socks w' s) = fd" "mpf_read_handler (socks w' s) = App_read a"
    "mpf_write_handler (socks w' s) = App_write a" "mpf_disconnect_handler (socks w' s) = App_disconnect a"
    "m_power w' + int (length (new_conns K fd s conns)) = m_power w + int (length conns)"
    "mpp_servers w' = mpp_servers w" "slots w' = slots w" "\<forall>t. t \<noteq> s \<longrightarrow> socks w' t = socks w t" by blast
  have "s \<notin> set conns" using core_sets(1) [OF w1(1)] by auto
  moreover have "accept_loop A K p_app (r # rs) w = accept_loop A K a rs w'"
    using al s r w'(1) by (simp add: Let_def fd_def)
  ultimately show ?thesis using w' by (intro that [of w' fs'])
qed

text \<open>A connection whose port no module has, the first of its call: the assertion about the context
  fails.\<close>

lemma accept_loop_unserved:
  assumes inv: "worker_inv J apps w conns ps (s # fs)" and K: "kernel_fds K"
    and r: "acc_errno r = 0" "acc_port r = Some port"
    and unserved: "List.find (\<lambda>a. serves (A a) port) apps = None"
  shows "accept_loop A K 0 (r # rs) w = Inl Assert_failed"
proof -
  obtain p' where al: "alloc_resource (cache_addr w) (pool_of w) = Inr (p', s)" and s: "s \<noteq> 0"
    and ring: "dring (dlinks (put_pool w p')) (app_ctx_list (put_pool w p')) apps"
    by (rule worker_inv_alloc [OF inv])
  let ?fd = "new_fd K (open_fds (os w))"
  let ?w2 = "open_fd (put_pool w p') ?fd"
  have "dring (dlinks ?w2) (app_ctx_list ?w2) apps" using ring by (simp add: open_fd_def)
  from dlist_find_f_ring [OF this, of "\<lambda>a. serves (A a) port"] unserved
  have find: "dlist_find_f (dlinks ?w2) (\<lambda>a. find_server (Some port) (mpa_servers (A a)))
      (mp_next (dlinks ?w2) (app_ctx_list ?w2)) (app_ctx_list ?w2) = Some (Inr None)"
    by (simp add: find_server_port)
  have "accept_one A K ?w2 s ?fd (Some port) 0 = Inl Assert_failed"
    unfolding accept_one_def find using K by (simp add: run_simps kernel_fds_def)
  then show ?thesis using al s r by (simp add: Let_def)
qed

lemma accept_loop_ok:
  assumes "worker_inv J apps w conns ps fs" and "incoming_ok A apps rs" and "kernel_fds K"
  shows "\<exists>w' conns' fs'. accept_loop A K p_app rs w = Inr w' \<and> worker_inv J apps w' conns' ps fs'
    \<and> m_power w' + int (length conns') = m_power w + int (length conns)
    \<and> mpp_servers w' = mpp_servers w \<and> slots w' = slots w \<and> set conns \<subseteq> set conns'
    \<and> (\<forall>t \<in> set conns. socks w' t = socks w t)"
  using assms
proof (induction rs arbitrary: w conns fs p_app)
  case Nil
  obtain w' fs' where "accept_loop A K p_app [] w = Inr w'" "worker_inv J apps w' conns ps fs'"
    "m_power w' = m_power w" "mpp_servers w' = mpp_servers w" "slots w' = slots w" "socks w' = socks w"
    by (rule accept_loop_end [OF Nil.prems(1)])
  then show ?case by (intro exI [of _ w'] exI [of _ conns] exI [of _ fs']) simp
next
  case (Cons r rs)
  have rs: "incoming_ok A apps rs" using Cons.prems(2) by (simp add: incoming_ok_def)
  show ?case
  proof (cases fs)
    case Nil
    then have "alloc_resource (cache_addr w) (pool_of w) = Inr (pool_of w, 0)"
      using core_alloc_none [of w conns ps] Cons.prems by (auto simp: worker_inv_def base_inv_def)
    then have "accept_loop A K p_app (r # rs) w = Inr w" by (simp add: put_pool_def pool_of_def)
    then show ?thesis using Cons.prems by blast
  next
    case fs: (Cons s fs')
    show ?thesis
    proof (cases "acc_errno r = 0")
      case False
      obtain p' where
        al: "alloc_resource (cache_addr w) (pool_of w) = Inr (p', s)"
        and w1: "core_inv (put_pool w p') conns ps fs' [s]" "socks_inv (put_pool w p') conns apps"
          "dring (dlinks (put_pool w p')) (app_ctx_list (put_pool w p')) apps" "0 \<notin> set apps" "attached (put_pool w p')"
          "J (put_pool w p') (set conns - set (mpp_servers (put_pool w p')))"
        and sl: "slots (put_pool w p') = slots w" and s: "s \<noteq> 0"
        by (rule worker_inv_alloc [OF Cons.prems(1) [unfolded fs]])
      from free_sock_inv [OF w1] obtain w' where
        w': "free_sock (put_pool w p') s = Inr w'" "worker_inv J apps w' conns ps (s # fs')"
        "m_power w' = m_power w" "mpp_servers w' = mpp_servers w" "slots w' = slots w"
        "socks w' = socks w" "os w' = os w" using sl by auto
      have run: "accept_loop A K p_app (r # rs) w =
          (if acc_errno r = EAGAIN then Inr w' else if acc_errno r = ECONNABORTED
           then accept_loop A K p_app rs w' else Inr w')"
        using al s w'(1) False by simp
      show ?thesis
      proof (cases "acc_errno r = ECONNABORTED")
        case True
        have "accept_loop A K p_app (r # rs) w = accept_loop A K p_app rs w'"
          unfolding run using True by (simp add: EAGAIN_def ECONNABORTED_def)
        then show ?thesis using Cons.IH [OF w'(2) rs Cons.prems(3), of p_app] w' by simp
      next
        case False
        then have "accept_loop A K p_app (r # rs) w = Inr w'" unfolding run by simp
        then show ?thesis using w'
          by (intro exI [of _ w'] exI [of _ conns] exI [of _ "s # fs'"]) simp
      qed
    next
      case True
      then obtain port where port: "acc_port r = Some port" and "\<exists>a \<in> set apps. serves (A a) port"
        using Cons.prems(2) by (auto simp: incoming_ok_def)
      then obtain a where served: "List.find (\<lambda>a. serves (A a) port) apps = Some a"
        by (metis find_None_iff option.exhaust)
      let ?conns = "new_conns K (new_fd K (open_fds (os w))) s conns"
      obtain w3 fs3 where
        w3: "accept_loop A K p_app (r # rs) w = accept_loop A K a rs w3" "worker_inv J apps w3 ?conns ps fs3"
          "m_power w3 + int (length ?conns) = m_power w + int (length conns)"
          "mpp_servers w3 = mpp_servers w" "slots w3 = slots w" "\<forall>t. t \<noteq> s \<longrightarrow> socks w3 t = socks w t"
          "s \<notin> set conns"
        by (rule accept_loop_served [OF Cons.prems(1) [unfolded fs] Cons.prems(3) True port served])
      from Cons.IH [OF w3(2) rs Cons.prems(3), of a] obtain w4 conns4 fs4 where
        w4: "accept_loop A K a rs w3 = Inr w4" "worker_inv J apps w4 conns4 ps fs4"
        "m_power w4 + int (length conns4) = m_power w3 + int (length ?conns)"
        "mpp_servers w4 = mpp_servers w3" "slots w4 = slots w3" "set ?conns \<subseteq> set conns4"
        "\<forall>t \<in> set ?conns. socks w4 t = socks w3 t" by blast
      have sub: "set conns \<subseteq> set ?conns" by (auto simp: new_conns_def)
      then have "socks w4 t = socks w t" if "t \<in> set conns" for t
        using that w4(7) w3(6,7) by (metis subsetD)
      then show ?thesis using w3 w4 sub
        by (intro exI [of _ w4] exI [of _ conns4] exI [of _ fs4]) auto
    qed
  qed
qed
end

end
