(* ===== verification/Loop.thy ===== *)
theory Loop
  imports Engine
begin

text \<open>
  One round of the event loop: serving the posted sockets, taking the accept lock, registering
  and unregistering the listeners, and posting the events the kernel reports.
\<close>

unbundle bit_operations_syntax

section \<open>Serving the posted sockets\<close>

definition kernel_ok :: "(kernel \<Rightarrow> bool) \<Rightarrow> (addr \<Rightarrow> app_ctx) \<Rightarrow> addr list \<Rightarrow> kernel \<Rightarrow> bool" where
  "kernel_ok ready A apps K \<longleftrightarrow> ready K \<and> kernel_fds K \<and> (\<forall>f. incoming_ok A apps (incoming K f))
     \<and> (\<forall>f. del_errno K f = 0)"

text \<open>What serving a socket leaves.\<close>

definition served_from :: "world \<Rightarrow> addr list \<Rightarrow> addr \<Rightarrow> world \<Rightarrow> addr list \<Rightarrow> bool" where
  "served_from w conns s w' conns' \<longleftrightarrow>
     m_power w' + int (length conns') = m_power w + int (length conns)
     \<and> mpp_servers w' = mpp_servers w \<and> slots w' = slots w \<and> set conns - {s} \<subseteq> set conns'
     \<and> (s \<notin> set (mpp_servers w) \<longrightarrow>
          set conns' \<subseteq> set conns \<and> shm w' = shm w \<and> accept_lock w' = accept_lock w)"

lemma worker_inv_parts:
  assumes "worker_inv J apps w conns ps fs"
  shows "base_inv apps w conns ps fs" "core_inv w conns ps fs []" "socks_inv w conns apps"
    "dring (dlinks w) (app_ctx_list w) apps" "0 \<notin> set apps" "J w (set conns - set (mpp_servers w))"
    "attached w"
  using assms by (simp_all add: worker_inv_def base_inv_def)

lemma app_frame_simps:
  assumes "app_frame s w w'"
  shows "m_power w' = m_power w" "mpp_servers w' = mpp_servers w" "slots w' = slots w"
    "cells w' = cells w" "app_ctx_list w' = app_ctx_list w" "rt_ctx w' = rt_ctx w"
    "m_sockets_cache w' = m_sockets_cache w"
    "mpf_read_handler (socks w' s) = mpf_read_handler (socks w s)"
    "mpf_write_handler (socks w' s) = mpf_write_handler (socks w s)"
    "mpf_disconnect_handler (socks w' s) = mpf_disconnect_handler (socks w s)"
    "shm w' = shm w" "accept_lock w' = accept_lock w"
  using assms by (auto simp: app_frame_def core_same_def slots_def flags_only_def)

lemma handler_step:
  assumes inv: "worker_inv J apps w conns ps fs" and s: "s \<in> set conns - set (mpp_servers w)"
    and h: "handler_ok J' (set conns - set (mpp_servers w)) s w res"
  obtains w' where "res = Inr w'" and "worker_inv J' apps w' conns ps fs" and "app_frame s w w'"
proof -
  note parts = worker_inv_parts [OF inv]
  obtain w' where w': "res = Inr w'" "app_frame s w w'"
    "J' w' (set conns - set (mpp_servers w))" "dring (dlinks w') (app_ctx_list w) apps"
    using h parts(4) by (auto simp: handler_ok_def)
  have "base_inv apps w' conns ps fs"
    by (rule base_inv_frame [OF parts(1) w'(2) _ w'(4)]) (use s in simp)
  with w' app_frame_simps(2) [OF w'(2)] show ?thesis
    by (intro that [of w']) (simp_all add: worker_inv_def)
qed

lemma clients_slots: "worker_inv J apps w conns ps fs \<Longrightarrow> set conns - set (mpp_servers w) \<subseteq> set (slots w)"
  using core_sets(2) [OF worker_inv_parts(2)] by blast

context app_modules
begin

lemma client_close:
  assumes inv: "worker_inv (M s) apps w conns ps fs" and s: "s \<in> set conns - set (mpp_servers w)"
    and h: "mpf_disconnect_handler (socks w s) = App_disconnect a"
  obtains w' where
    "bind_run (call A (App_disconnect a) K s w) (\<lambda>w2. hixo_handle_close K s w2) = Inr w'"
    and "worker_inv J apps w' (remove1 s conns) ps (s # fs)" and "served_from w conns s w' (remove1 s conns)"
    and "\<not> m_writable (socks w' s)"
proof -
  note parts = worker_inv_parts [OF inv]
  from disconnect_ok [OF parts(6) s clients_slots [OF inv] h, of K] obtain w2 where
    w2: "mpf_handle_disconnect (A a) K s w = Inr w2" "app_frame s w w2"
    "J w2 (set conns - set (mpp_servers w) - {s})" "dring (dlinks w2) (app_ctx_list w) apps"
    using parts(4) by (auto simp: handler_ok_def)
  note f = app_frame_simps [OF w2(2)]
  have base2: "base_inv apps w2 conns ps fs"
    by (rule base_inv_frame [OF parts(1) w2(2) _ w2(4)]) (use s in simp)
  have s2: "s \<in> set conns - set (mpp_servers w2)" using s by (simp add: f)
  show ?thesis
  proof (rule handle_close_ok [OF base2 s2, of K])
    show "J w2 (set conns - set (mpp_servers w2) - {s})" using w2(3) by (simp add: f)
    fix w' assume w': "hixo_handle_close K s w2 = Inr w'"
      "worker_inv J apps w' (remove1 s conns) ps (s # fs)" "m_power w' = m_power w2 + 1"
      "mpp_servers w' = mpp_servers w2"
      "socks w' = (socks w2)(s := (socks w2 s)\<lparr>m_readable := False, m_writable := False\<rparr>)"
      "slots w' = slots w2" "shm w' = shm w2" "accept_lock w' = accept_lock w2"
    have "length conns = Suc (length (remove1 s conns))"
      using s length_pos_if_in_set [of s conns] by (simp add: length_remove1)
    moreover have "set conns - {s} \<subseteq> set (remove1 s conns)" 
      using in_set_remove1 [of _ s conns] by blast
    ultimately show ?thesis using w' w2(1) set_remove1_subset [of s conns]
      by (intro that [of w']) (simp_all add: served_from_def f call_def)
  qed
qed

lemma serve_client:
  assumes inv: "worker_inv J apps w conns ps fs" and s: "s \<in> set conns - set (mpp_servers w)" and K: "ready K"
  shows "\<exists>w' conns' fs'. serve_socket A K s w = Inr w' \<and> worker_inv J apps w' conns' ps fs'
    \<and> served_from w conns s w' conns'"
proof -
  have "client apps (socks w s)" using worker_inv_parts(3) [OF inv] s unfolding socks_inv_def by blast
  then obtain a where
    h: "mpf_read_handler (socks w s) = App_read a" "mpf_write_handler (socks w s) = App_write a"
    "mpf_disconnect_handler (socks w s) = App_disconnect a"
    by (auto simp: client_def)
  obtain w1 where w1: "(if m_readable (socks w s) then call A (App_read a) K s w else Inr w) = Inr w1"
    "worker_inv (M s) apps w1 conns ps fs" "app_frame s w w1"
  proof (cases "m_readable (socks w s)")
    case True
    then have "handler_ok (M s) (set conns - set (mpp_servers w)) s w (call A (App_read a) K s w)"
      using read_ok [OF worker_inv_parts(6) [OF inv] s clients_slots [OF inv] h(3) True K] by (simp add: call_def)
    from handler_step [OF inv s this] show ?thesis using that True by auto
  next
    case False
    have "worker_inv (M s) apps w conns ps fs"
      using inv J_M [OF worker_inv_parts(6) [OF inv] s clients_slots [OF inv]] by (simp add: worker_inv_def)
    then show ?thesis using that [of w] False by (simp add: app_frame_def core_same_def)
  qed
  have rd: "(if m_readable (socks w s) \<and> mpf_read_handler (socks w s) \<noteq> Null
      then call A (mpf_read_handler (socks w s)) K s w else Inr w) = Inr w1"
    using w1(1) by (simp add: h split: if_splits)
  note f1 = app_frame_simps [OF w1(3)]
  have s1: "s \<in> set conns - set (mpp_servers w1)" using s by (simp add: f1)
  have h1: "mpf_disconnect_handler (socks w1 s) = App_disconnect a" using h by (simp add: f1)
  show ?thesis
  proof (cases "m_close (socks w1 s)")
    case True
    from client_close [OF w1(2) s1 h1, of K] obtain w3 where
      w3: "bind_run (call A (App_disconnect a) K s w1) (\<lambda>w2. hixo_handle_close K s w2) = Inr w3"
      "worker_inv J apps w3 (remove1 s conns) ps (s # fs)" "served_from w1 conns s w3 (remove1 s conns)"
      "\<not> m_writable (socks w3 s)" by blast
    have "serve_socket A K s w = Inr w3"
      unfolding serve_socket_def rd using w3(1,4) True by (simp add: h f1(8-10))
    with w3 show ?thesis using f1
      by (intro exI [of _ w3] exI [of _ "remove1 s conns"] exI [of _ "s # fs"]) (simp add: served_from_def)
  next
    case False
    have inv1: "worker_inv J apps w1 conns ps fs"
      using w1(2) M_J [OF worker_inv_parts(6) [OF w1(2)] s1] False by (simp add: worker_inv_def)
    obtain w4 where w4: "(if m_writable (socks w1 s) then call A (App_write a) K s w1 else Inr w1) = Inr w4"
      "worker_inv J apps w4 conns ps fs" "app_frame s w1 w4"
    proof (cases "m_writable (socks w1 s)")
      case True
      have "handler_ok J (set conns - set (mpp_servers w1)) s w1 (call A (App_write a) K s w1)"
        using write_ok [OF worker_inv_parts(6) [OF inv1] s1 clients_slots [OF inv1]] by (simp add: call_def)
      from handler_step [OF inv1 s1 this] show ?thesis using that True by auto
    next
      case False
      then show ?thesis using inv1 that [of w1] by (simp add: app_frame_def core_same_def)
    qed
    note f4 = app_frame_simps [OF w4(3)]
    have "serve_socket A K s w = Inr w4"
      unfolding serve_socket_def rd using False w4(1) by (simp add: h f1 split: if_splits)
    with w4 show ?thesis using f1 f4
      by (intro exI [of _ w4] exI [of _ conns] exI [of _ fs]) (auto simp: served_from_def)
  qed
qed

lemma serve_listener:
  assumes inv: "worker_inv J apps w conns ps fs" and s: "s \<in> set (mpp_servers w)"
    and K: "kernel_ok ready A apps K"
  shows "\<exists>w' conns' fs'. serve_socket A K s w = Inr w' \<and> worker_inv J apps w' conns' ps fs'
    \<and> served_from w conns s w' conns'"
proof -
  have h: "mpf_read_handler (socks w s) = Handle_accept" "mpf_write_handler (socks w s) = Null"
    "\<not> m_close (socks w s)" and c: "s \<in> set conns"
    using worker_inv_parts(3) [OF inv] s by (auto simp: socks_inv_def listener_def)
  show ?thesis
  proof (cases "m_readable (socks w s)")
    case True
    have inc: "incoming_ok A apps (incoming K (m_fd (socks w s)))" "kernel_fds K"
      using K by (simp_all add: kernel_ok_def)
    from accept_loop_ok [OF inv inc, of 0] obtain w' conns' fs' where
      w': "accept_loop A K 0 (incoming K (m_fd (socks w s))) w = Inr w'"
      "worker_inv J apps w' conns' ps fs'"
      "m_power w' + int (length conns') = m_power w + int (length conns)"
      "mpp_servers w' = mpp_servers w" "slots w' = slots w" "set conns \<subseteq> set conns'"
      "\<forall>t \<in> set conns. socks w' t = socks w t" by blast
    have "socks w' s = socks w s" using w'(7) c by blast
    then have "serve_socket A K s w = Inr w'"
      using True w'(1) h worker_inv_parts(7) [OF inv]
      by (simp add: serve_socket_def call_def hixo_handle_accept_def run_simps)
    with w' show ?thesis
      by (intro exI [of _ w'] exI [of _ conns'] exI [of _ fs']) (use s in \<open>auto simp: served_from_def\<close>)
  next
    case False
    then have "serve_socket A K s w = Inr w" using h by (simp add: serve_socket_def)
    with inv show ?thesis
      by (intro exI [of _ w] exI [of _ conns] exI [of _ fs]) (auto simp: served_from_def)
  qed
qed

lemma serve_ok:
  assumes "worker_inv J apps w conns ps fs" and "s \<in> set conns" and "kernel_ok ready A apps K"
  shows "\<exists>w' conns' fs'. serve_socket A K s w = Inr w' \<and> worker_inv J apps w' conns' ps fs'
    \<and> served_from w conns s w' conns'"
  using serve_client [OF assms(1)] serve_listener [OF assms(1) _ assms(3)] assms(2,3) unfolding kernel_ok_def by blast

lemma worker_inv_cells:
  assumes "worker_inv J apps w conns ps fs" and "core_inv (put_cells w m) conns ps' fs []"
  shows "worker_inv J apps (put_cells w m) conns ps' fs"
proof -
  note parts = worker_inv_parts [OF assms(1)]
  have "socks_inv (put_cells w m) conns apps"
    by (rule socks_inv_cong [OF parts(3)]) (use parts(3) in \<open>auto simp: socks_inv_def\<close>)
  moreover have "J (put_cells w m) (set conns - set (mpp_servers w))"
    by (rule J_same [OF parts(6)]) simp_all
  ultimately show ?thesis using assms(2) parts by (simp add: worker_inv_def base_inv_def)
qed

lemma dispatch_one_ok:
  assumes inv: "worker_inv J apps w conns (s # ps) fs" and s: "set (s # ps) \<subseteq> set conns"
    and K: "kernel_ok ready A apps K"
  shows "\<exists>w' conns' fs'. dispatch_one A K (posted_node s) w
      = Inr ((case ps of [] \<Rightarrow> 0 | t # _ \<Rightarrow> posted_node t), w')
    \<and> worker_inv J apps w' conns' ps fs' \<and> served_from w conns s w' conns' \<and> set ps \<subseteq> set conns'"
proof -
  have "s \<in> set conns" using s by simp
  from serve_ok [OF inv this K] obtain w1 conns1 fs1 where
    w1: "serve_socket A K s w = Inr w1" "worker_inv J apps w1 conns1 (s # ps) fs1"
    "served_from w conns s w1 conns1" by blast
  have core1: "core_inv w1 conns1 (s # ps) fs1 []" using worker_inv_parts(2) [OF w1(2)] .
  have "s \<in> set (s # ps)" by simp
  from core_unpost [OF core1 this] obtain m where
    m: "rm_node (cells w1) (posted_cell w1) (posted_node s) = Some (m, True)"
    "core_inv (put_cells w1 m) conns1 ps fs1 []" by auto
  have next_iter: "cells w (posted_node s) = (case ps of [] \<Rightarrow> 0 | t # _ \<Rightarrow> posted_node t)"
    by (rule core_posted_next [where qs = "[]"]) (use worker_inv_parts(2) [OF inv] in simp)
  have "s \<notin> set ps" using core_sets(6) [OF core1] by simp
  then have "set ps \<subseteq> set conns1" using s w1(3) by (auto simp: served_from_def)
  moreover have "dispatch_one A K (posted_node s) w
      = Inr ((case ps of [] \<Rightarrow> 0 | t # _ \<Rightarrow> posted_node t), put_cells w1 m)"
    using w1(1) m(1) next_iter by (simp add: dispatch_one_def posted_node_def run_simps)
  moreover have "served_from w conns s (put_cells w1 m) conns1"
    using w1(3) by (simp add: served_from_def)
  ultimately show ?thesis using worker_inv_cells [OF w1(2) m(2)] by blast
qed

lemma dispatch_ok:
  assumes "worker_inv J apps w conns ps fs" and "set ps \<subseteq> set conns" and "kernel_ok ready A apps K"
  shows "\<exists>w' conns' fs'. dispatch A K (cells w (posted_cell w)) w = Some (Inr w')
    \<and> worker_inv J apps w' conns' [] fs'
    \<and> m_power w' + int (length conns') = m_power w + int (length conns)
    \<and> mpp_servers w' = mpp_servers w \<and> slots w' = slots w
    \<and> (set ps \<inter> set (mpp_servers w) = {} \<longrightarrow>
         set conns' \<subseteq> set conns \<and> shm w' = shm w \<and> accept_lock w' = accept_lock w)"
proof -
  have "\<exists>w' conns' fs'. dispatch A K (case ps of [] \<Rightarrow> 0 | s # _ \<Rightarrow> posted_node s) w = Some (Inr w')
    \<and> worker_inv J apps w' conns' [] fs'
    \<and> m_power w' + int (length conns') = m_power w + int (length conns)
    \<and> mpp_servers w' = mpp_servers w \<and> slots w' = slots w
    \<and> (set ps \<inter> set (mpp_servers w) = {} \<longrightarrow>
         set conns' \<subseteq> set conns \<and> shm w' = shm w \<and> accept_lock w' = accept_lock w)"
    using assms
  proof (induction ps arbitrary: w conns fs)
    case Nil
    then show ?case
      by (intro exI [of _ w] exI [of _ conns] exI [of _ fs]) (simp add: dispatch.simps)
  next
    case (Cons s ps)
    from dispatch_one_ok [OF Cons.prems] obtain w1 conns1 fs1 where
      w1: "dispatch_one A K (posted_node s) w = Inr ((case ps of [] \<Rightarrow> 0 | t # _ \<Rightarrow> posted_node t), w1)"
      "worker_inv J apps w1 conns1 ps fs1" "served_from w conns s w1 conns1" "set ps \<subseteq> set conns1"
      by blast
    have "posted_node s \<noteq> 0"
      using worker_inv_parts(2) [OF Cons.prems(1)] core_sets(5) [of w conns "s # ps" fs "[]"]
        slot_cells(3) [of w conns "s # ps" fs "[]" s] by simp
    then have "dispatch A K (posted_node s) w
        = dispatch A K (case ps of [] \<Rightarrow> 0 | t # _ \<Rightarrow> posted_node t) w1"
      using w1(1) by (subst dispatch.simps) simp
    moreover from Cons.IH [OF w1(2,4) Cons.prems(3)] obtain w2 conns2 fs2 where
      "dispatch A K (case ps of [] \<Rightarrow> 0 | t # _ \<Rightarrow> posted_node t) w1 = Some (Inr w2)"
      "worker_inv J apps w2 conns2 [] fs2"
      "m_power w2 + int (length conns2) = m_power w1 + int (length conns1)"
      "mpp_servers w2 = mpp_servers w1" "slots w2 = slots w1"
      "set ps \<inter> set (mpp_servers w1) = {} \<longrightarrow>
         set conns2 \<subseteq> set conns1 \<and> shm w2 = shm w1 \<and> accept_lock w2 = accept_lock w1" by blast
    ultimately show ?case using w1(3)
      by (intro exI [of _ w2] exI [of _ conns2] exI [of _ fs2]) (auto simp: served_from_def)
  qed
  then show ?thesis using core_posted_head [OF worker_inv_parts(2) [OF assms(1)]] by simp
qed

end

section \<open>Registering and unregistering the listeners\<close>

text \<open>What the two loops over \<open>mpp_servers\<close> change.\<close>

definition put_servers :: "world \<Rightarrow> (fd \<Rightarrow> (32 word \<times> int) option) \<Rightarrow> addr list \<Rightarrow> world" where
  "put_servers w r T = w\<lparr>os := (os w)\<lparr>registered := r\<rparr>, mpp_servers := T\<rparr>"

lemma put_servers_simps [simp]:
  "put_servers (put_servers w r T) r' T' = put_servers w r' T'"
  "registered (os (put_servers w r T)) = r" "mpp_servers (put_servers w r T) = T"
  "socks (put_servers w r T) = socks w" "cells (put_servers w r T) = cells w"
  "opened (os (put_servers w r T)) = opened (os w)" "posted_cell (put_servers w r T) = posted_cell w"
  "m_hold_lock (put_servers w r T) = m_hold_lock w"
  "put_servers w (registered (os w)) (mpp_servers w) = w"
  by (simp_all add: put_servers_def posted_cell_def)

lemma tag_bits:
  fixes s :: int
  assumes "even s"
  shows "s AND 1 = 0" "(s OR 1) AND 1 = 1" "(s OR 1) AND NOT 1 = s" "s AND NOT 1 = s"
proof -
  show "s AND 1 = 0" using assms by (simp add: and_one_eq even_iff_mod_2_eq_zero)
  show "(s OR 1) AND 1 = 1" using assms by (simp add: and_one_eq or_one_eq) presburger
  have "\<not> bit s 0" using assms by (simp add: bit_0)
  then show "(s OR 1) AND NOT 1 = s" "s AND NOT 1 = s"
    by (auto intro!: bit_eqI gr0I simp: bit_simps)
qed

lemma ctl_add_error: "fst (ctl_add K w f ev d) \<noteq> 0 \<Longrightarrow> snd (ctl_add K w f ev d) = w"
  unfolding ctl_add_def
  by (cases "opened (os w) f"; cases "registered (os w) f = None"; cases "add_errno K f = 0") simp_all

lemma epoll_add_event_error:
  assumes "fst (epoll_add_event K w s) = HIXO_ERROR"
  shows "snd (epoll_add_event K w s) = w"
proof -
  let ?r = "ctl_add K w (m_fd (socks w s)) (m_event_types (socks w s))
    (s OR (if m_stale (socks w s) then 1 else 0))"
  have "fst ?r \<noteq> 0"
    using assms unfolding epoll_add_event_def Let_def
    by (intro notI) (simp add: HIXO_ERROR_def HIXO_OK_def)
  then have "snd ?r = w" by (rule ctl_add_error)
  then show ?thesis unfolding epoll_add_event_def Let_def by (simp split: if_split)
qed

lemma add_servers_run:
  assumes "i \<le> length (mpp_servers w)" and "\<forall>s \<in> set (mpp_servers w). even s"
  shows "\<exists>k r. i \<le> k \<and> k \<le> length (mpp_servers w)
    \<and> add_servers K w [i..<length (mpp_servers w)]
        = Inr (put_servers w r ((mpp_servers w)[k := mpp_servers w ! k OR 1]))
    \<and> (\<forall>f. (\<forall>j. i \<le> j \<and> j < k \<longrightarrow> m_fd (socks w (mpp_servers w ! j)) \<noteq> f) \<longrightarrow>
          r f = registered (os w) f)"
  using assms
proof (induction "length (mpp_servers w) - i" arbitrary: i w)
  case 0
  then show ?case
    by (intro exI [of _ i] exI [of _ "registered (os w)"]) (simp add: list_update_beyond)
next
  case (Suc n)
  then have i: "i < length (mpp_servers w)" by simp
  let ?s = "mpp_servers w ! i"
  have s: "?s \<in> set (mpp_servers w)" using i by simp
  then have "?s AND 1 = 0" using Suc.prems(2) tag_bits(1) by blast
  then have run: "add_servers K w [i..<length (mpp_servers w)] =
      (if fst (epoll_add_event K w ?s) = HIXO_ERROR then
         Inr ((snd (epoll_add_event K w ?s))\<lparr>mpp_servers :=
            (mpp_servers (snd (epoll_add_event K w ?s)))[i := ?s OR 1]\<rparr>)
       else add_servers K (snd (epoll_add_event K w ?s)) [Suc i..<length (mpp_servers w)])"
    using i by (simp add: upt_rec [of i] Let_def run_simps)
  define w1 where "w1 = snd (epoll_add_event K w ?s)"
  obtain r1 where w1: "w1 = put_servers w r1 (mpp_servers w)"
    using epoll_add_event_same [of w K ?s] by (auto simp: same_but_os_def w1_def put_servers_def)
  have r1: "r1 f = registered (os w) f" if "m_fd (socks w ?s) \<noteq> f" for f
  proof -
    have "r1 = registered (os w1)" by (simp add: w1)
    then show ?thesis using that by (simp add: w1_def epoll_add_event_def ctl_add_def Let_def split: if_split)
  qed
  show ?case
  proof (cases "fst (epoll_add_event K w ?s) = HIXO_ERROR")
    case True
    then have "w1 = w" unfolding w1_def by (rule epoll_add_event_error)
    moreover have "registered (os w1) = r1" unfolding w1 by simp
    ultimately have "r1 = registered (os w)" by simp
    moreover have "w1\<lparr>mpp_servers := (mpp_servers w1)[i := ?s OR 1]\<rparr>
        = put_servers w r1 ((mpp_servers w)[i := ?s OR 1])" by (simp add: w1 put_servers_def)
    ultimately have "add_servers K w [i..<length (mpp_servers w)]
        = Inr (put_servers w (registered (os w)) ((mpp_servers w)[i := ?s OR 1]))"
      unfolding run w1_def [symmetric] using True by (simp only: if_True simp_thms)
    then show ?thesis using i by (intro exI [of _ i] exI [of _ "registered (os w)"]) auto
  next
    case False
    have "n = length (mpp_servers w1) - Suc i" using Suc.hyps(2) by (simp add: w1)
    moreover have "Suc i \<le> length (mpp_servers w1)" using i by (simp add: w1)
    moreover have "\<forall>s \<in> set (mpp_servers w1). even s" using Suc.prems(2) by (simp add: w1)
    ultimately obtain k r where kr: "Suc i \<le> k" "k \<le> length (mpp_servers w1)"
      "add_servers K w1 [Suc i..<length (mpp_servers w1)]
        = Inr (put_servers w1 r ((mpp_servers w1)[k := mpp_servers w1 ! k OR 1]))"
      "\<forall>f. (\<forall>j. Suc i \<le> j \<and> j < k \<longrightarrow> m_fd (socks w1 (mpp_servers w1 ! j)) \<noteq> f) \<longrightarrow>
         r f = registered (os w1) f"
      using Suc.hyps(1) [of w1 "Suc i"] by blast
    have kr': "add_servers K w1 [Suc i..<length (mpp_servers w)]
        = Inr (put_servers w r ((mpp_servers w)[k := mpp_servers w ! k OR 1]))"
      using kr(3) by (simp add: w1)
    have "r f = registered (os w) f"
      if "\<forall>j. i \<le> j \<and> j < k \<longrightarrow> m_fd (socks w (mpp_servers w ! j)) \<noteq> f" for f
    proof -
      have "r1 f = registered (os w) f" using r1 that kr(1) by simp
      moreover have "r f = r1 f" using kr(4) that by (simp add: w1)
      ultimately show ?thesis by simp
    qed
    then show ?thesis unfolding run using False kr(1,2) kr'
      by (intro exI [of _ k] exI [of _ r]) (simp add: w1_def [symmetric], simp add: w1)
  qed
qed

text \<open>Deleting the listeners: the tag at \<open>k\<close> is removed, every other listener is unregistered.\<close>

lemma epoll_del_event_run:
  assumes "opened (os w) (m_fd (socks w s))" and "del_errno K (m_fd (socks w s)) = 0"
  shows "epoll_del_event K w s =
    (HIXO_OK, put_servers w ((registered (os w))(m_fd (socks w s) := None)) (mpp_servers w))"
proof (cases "registered (os w) (m_fd (socks w s))")
  case None
  then have "(registered (os w))(m_fd (socks w s) := None) = registered (os w)" by auto
  then have "put_servers w ((registered (os w))(m_fd (socks w s) := None)) (mpp_servers w) = w"
    by (metis put_servers_simps(9))
  with None assms show ?thesis by (simp add: epoll_del_event_def ctl_del_def ENOENT_def Let_def)
next
  case (Some x)
  with assms show ?thesis by (simp add: epoll_del_event_def ctl_del_def Let_def put_servers_def)
qed

lemma del_servers_run:
  assumes "i \<le> k" and "k \<le> length S" and "\<forall>s \<in> set S. even s"
    and "mpp_servers w = S[k := S ! k OR 1]"
    and "\<forall>s \<in> set S. opened (os w) (m_fd (socks w s)) \<and> del_errno K (m_fd (socks w s)) = 0"
  shows "\<exists>r. del_servers K w [i..<length S] = put_servers w r S
    \<and> (\<forall>f. r f = (if \<exists>j. i \<le> j \<and> j < length S \<and> j \<noteq> k \<and> m_fd (socks w (S ! j)) = f then None
                   else registered (os w) f))"
  using assms
proof (induction "length S - i" arbitrary: i w k)
  case 0
  then have "mpp_servers w = S" by (simp add: list_update_beyond)
  then have "w = put_servers w (registered (os w)) S" using put_servers_simps(9) [of w] by simp
  with 0 show ?case by (intro exI [of _ "registered (os w)"]) auto
next
  case (Suc n)
  then have i: "i < length S" by simp
  have s: "S ! i \<in> set S" "even (S ! i)" using i Suc.prems(3) by simp_all
  have upt: "[i..<length S] = i # [Suc i..<length S]" using i by (simp add: upt_rec)
  have n: "n = length S - Suc i" using Suc.hyps(2) by simp
  show ?case
  proof (cases "k = i")
    case True
    let ?w = "w\<lparr>mpp_servers := S\<rparr>"
    have srv: "mpp_servers w ! i = S ! i OR 1" using Suc.prems(4) True i by simp
    have untag: "(mpp_servers w)[i := mpp_servers w ! i AND NOT 1] = S"
      using Suc.prems(4) True i by (simp add: tag_bits(3) [OF s(2), simplified])
    have run: "del_servers K w [i..<length S] = del_servers K ?w [Suc i..<length S]"
      unfolding upt del_servers.simps Let_def untag using srv tag_bits(2) [OF s(2)] by simp
    have "mpp_servers ?w = S[length S := S ! length S OR 1]" by (simp add: list_update_beyond)
    then obtain r where r: "del_servers K ?w [Suc i..<length S] = put_servers ?w r S"
      "\<forall>f. r f = (if \<exists>j. Suc i \<le> j \<and> j < length S \<and> j \<noteq> length S \<and> m_fd (socks ?w (S ! j)) = f
        then None else registered (os ?w) f)"
      using Suc.hyps(1) [OF n, of "length S" ?w] i Suc.prems(3,5) by auto
    have ex: "(\<exists>j. Suc i \<le> j \<and> j < length S \<and> j \<noteq> length S \<and> m_fd (socks ?w (S ! j)) = f) =
        (\<exists>j. i \<le> j \<and> j < length S \<and> j \<noteq> k \<and> m_fd (socks w (S ! j)) = f)" for f
      using True by (simp, metis Suc_le_eq le_neq_implies_less less_imp_le nat_neq_iff)
    have "r f = (if \<exists>j. i \<le> j \<and> j < length S \<and> j \<noteq> k \<and> m_fd (socks w (S ! j)) = f then None
        else registered (os w) f)" for f
      using spec [OF r(2), of f] unfolding ex by (simp cong: if_cong split del: if_split)
    moreover have "put_servers ?w r S = put_servers w r S" by (simp add: put_servers_def)
    ultimately show ?thesis unfolding run r(1) by (intro exI [of _ r]) blast
  next
    case False
    define w1 where "w1 = put_servers w ((registered (os w))(m_fd (socks w (S ! i)) := None)) (mpp_servers w)"
    have srv: "mpp_servers w ! i = S ! i" using Suc.prems(4) False i by simp
    have run: "del_servers K w [i..<length S] = del_servers K w1 [Suc i..<length S]"
      unfolding upt del_servers.simps Let_def srv w1_def
      using epoll_del_event_run [of w "S ! i" K] Suc.prems(5) s tag_bits(1) [OF s(2)]
      by (simp add: HIXO_OK_def HIXO_ERROR_def)
    have "Suc i \<le> k" using False Suc.prems(1) by simp
    moreover have "mpp_servers w1 = S[k := S ! k OR 1]" using Suc.prems(4) by (simp add: w1_def)
    moreover have "\<forall>s \<in> set S. opened (os w1) (m_fd (socks w1 s)) \<and> del_errno K (m_fd (socks w1 s)) = 0"
      using Suc.prems(5) by (simp add: w1_def)
    ultimately obtain r where r: "del_servers K w1 [Suc i..<length S] = put_servers w1 r S"
      "\<forall>f. r f = (if \<exists>j. Suc i \<le> j \<and> j < length S \<and> j \<noteq> k \<and> m_fd (socks w1 (S ! j)) = f
        then None else registered (os w1) f)"
      using Suc.hyps(1) [OF n, of k w1] Suc.prems(2,3) by blast
    have "r f = (if \<exists>j. i \<le> j \<and> j < length S \<and> j \<noteq> k \<and> m_fd (socks w (S ! j)) = f then None
        else registered (os w) f)" for f
      using r(2) False i by (auto simp: w1_def Suc_le_eq le_less)
    with r(1) show ?thesis unfolding run by (intro exI [of _ r]) (simp add: w1_def)
  qed
qed

text \<open>The two loops cancel out.\<close>

lemma add_del_servers:
  assumes even: "\<forall>s \<in> set (mpp_servers w). even s"
    and ok: "\<forall>s \<in> set (mpp_servers w). opened (os w) (m_fd (socks w s))
      \<and> del_errno K (m_fd (socks w s)) = 0 \<and> registered (os w) (m_fd (socks w s)) = None"
  obtains r T where "add_servers K w [0..<length (mpp_servers w)] = Inr (put_servers w r T)"
    and "del_servers K (put_servers w r T) [0..<length (mpp_servers w)] = w"
proof -
  let ?S = "mpp_servers w"
  obtain k r where k: "k \<le> length ?S" and add: "add_servers K w [0..<length ?S]
      = Inr (put_servers w r (?S[k := ?S ! k OR 1]))"
    and rest: "\<forall>f. (\<forall>j. 0 \<le> j \<and> j < k \<longrightarrow> m_fd (socks w (?S ! j)) \<noteq> f) \<longrightarrow> r f = registered (os w) f"
    using add_servers_run [of 0 w K] even by auto
  let ?w2 = "put_servers w r (?S[k := ?S ! k OR 1])"
  obtain r' where del: "del_servers K ?w2 [0..<length ?S] = put_servers ?w2 r' ?S"
    and r': "\<forall>f. r' f = (if \<exists>j. 0 \<le> j \<and> j < length ?S \<and> j \<noteq> k \<and> m_fd (socks ?w2 (?S ! j)) = f
      then None else registered (os ?w2) f)"
    using del_servers_run [of 0 k ?S ?w2 K] k even ok by auto
  have "r' f = registered (os w) f" for f
  proof (cases "\<exists>j < length ?S. j \<noteq> k \<and> m_fd (socks w (?S ! j)) = f")
    case True
    then have "r' f = None" using r' by auto
    moreover have "registered (os w) f = None" using True ok by auto
    ultimately show ?thesis by simp
  next
    case False
    then have "r' f = r f" using r' by auto
    also have "\<dots> = registered (os w) f"
    proof -
      have "\<forall>j. 0 \<le> j \<and> j < k \<longrightarrow> m_fd (socks w (?S ! j)) \<noteq> f"
        using False k less_le_trans by blast
      then show ?thesis using rest by blast
    qed
    finally show ?thesis .
  qed
  then have "r' = registered (os w)" by blast
  with add del show ?thesis by (intro that [of r "?S[k := ?S ! k OR 1]"]) simp_all
qed

section \<open>Posting the events\<close>

definition event_sock :: "epoll_event \<Rightarrow> addr" where
  "event_sock ev = ev_data ev AND NOT 1"

definition current_event :: "world \<Rightarrow> epoll_event \<Rightarrow> bool" where
  "current_event w ev \<longleftrightarrow> ev_data ev AND 1 = (if m_stale (socks w (event_sock ev)) then 1 else 0)"

text \<open>What the kernel reports: an event whose stale bit is current is one of a connected socket,
  and there is one event for a descriptor.\<close>

definition events_ok :: "world \<Rightarrow> addr list \<Rightarrow> epoll_event list \<Rightarrow> bool" where
  "events_ok w conns evs \<longleftrightarrow>
     (\<forall>ev \<in> set evs. current_event w ev \<longrightarrow> event_sock ev \<in> set conns)
     \<and> distinct (map event_sock (filter (current_event w) evs))"

definition post_frame :: "world \<Rightarrow> world \<Rightarrow> bool" where
  "post_frame w w' \<longleftrightarrow> (\<forall>t. flags_only (socks w t) (socks w' t) \<and> m_close (socks w' t) = m_close (socks w t))
     \<and> m_power w' = m_power w \<and> mpp_servers w' = mpp_servers w \<and> slots w' = slots w \<and> os w' = os w
     \<and> m_hold_lock w' = m_hold_lock w \<and> shm w' = shm w \<and> accept_lock w' = accept_lock w
     \<and> dlinks w' = dlinks w \<and> bufs w' = bufs w \<and> heap w' = heap w \<and> app_ctx_list w' = app_ctx_list w"

lemma post_frame_refl [simp]: "post_frame w w"
  by (simp add: post_frame_def)

lemma flags_only_iff:
  "flags_only k k' \<longleftrightarrow> m_fd k' = m_fd k \<and> mpf_read_handler k' = mpf_read_handler k
     \<and> mpf_write_handler k' = mpf_write_handler k \<and> mpf_disconnect_handler k' = mpf_disconnect_handler k
     \<and> m_event_types k' = m_event_types k \<and> m_stale k' = m_stale k"
  by (cases k; cases k') (auto simp: flags_only_def)

lemma flags_only_trans: "flags_only a b \<Longrightarrow> flags_only b c \<Longrightarrow> flags_only a c"
  by (simp add: flags_only_iff)

lemma post_frame_flags: "post_frame w (set_sock w s (\<lambda>k. k\<lparr>m_readable := b, m_writable := c\<rparr>))"
  by (simp add: post_frame_def slots_def flags_only_iff)

lemma post_frame_trans: "post_frame a b \<Longrightarrow> post_frame b c \<Longrightarrow> post_frame a c"
  unfolding post_frame_def by (auto intro: flags_only_trans)

lemma post_frame_current: "post_frame w w' \<Longrightarrow> current_event w' ev = current_event w ev"
  unfolding post_frame_def current_event_def by (metis flags_only_simps(6))

lemma post_event_run:
  obtains b c where "post_event w ev = w \<and> \<not> (current_event w ev \<and> m_fd (socks w (event_sock ev)) \<noteq> -1)
    \<or> current_event w ev \<and> post_event w ev = set_sock w (event_sock ev) (\<lambda>k. k\<lparr>m_readable := b, m_writable := c\<rparr>)
    \<or> current_event w ev \<and> post_event w ev = put_cells (set_sock w (event_sock ev) (\<lambda>k. k\<lparr>m_readable := b, m_writable := c\<rparr>))
        (add_node (cells w) (posted_cell w) (posted_node (event_sock ev)))"
proof (cases "m_fd (socks w (event_sock ev)) = -1 \<or> \<not> current_event w ev")
  case True
  then have "post_event w ev = w" by (simp add: post_event_def current_event_def event_sock_def Let_def)
  with True show ?thesis by (intro that [where b = True and c = True]) blast
next
  case False
  let ?s = "event_sock ev"
  define e where "e = (if (HIXO_EVENT_ERR OR HIXO_EVENT_HUP) AND ev_events ev \<noteq> 0
    then ev_events ev OR (HIXO_EVENT_IN OR HIXO_EVENT_OUT) else ev_events ev)"
  define w1 where "w1 = set_sock w ?s (\<lambda>k. k\<lparr>m_readable := HIXO_EVENT_IN AND e \<noteq> 0,
    m_writable := HIXO_EVENT_OUT AND e \<noteq> 0\<rparr>)"
  have "post_event w ev = (if m_writable (socks w1 ?s) \<or> m_readable (socks w1 ?s)
      then w1\<lparr>cells := add_node (cells w1) (posted_cell w1) (posted_node ?s)\<rparr> else w1)"
    unfolding post_event_def Let_def w1_def e_def event_sock_def
    using False by (simp only: current_event_def event_sock_def if_False simp_thms de_Morgan_disj not_not)
  moreover have "w1\<lparr>cells := add_node (cells w1) (posted_cell w1) (posted_node ?s)\<rparr>
      = put_cells w1 (add_node (cells w) (posted_cell w) (posted_node ?s))"
    by (simp add: w1_def put_cells_def posted_cell_def)
  ultimately show ?thesis using False
    by (intro that [where b = "HIXO_EVENT_IN AND e \<noteq> 0" and c = "HIXO_EVENT_OUT AND e \<noteq> 0"],
        unfold w1_def [symmetric]) (simp split: if_splits)
qed

context app_modules
begin

lemma worker_inv_flags:
  assumes inv: "worker_inv J apps w conns ps fs"
  shows "worker_inv J apps (set_sock w s (\<lambda>k. k\<lparr>m_readable := b, m_writable := c\<rparr>)) conns ps fs"
proof -
  note parts = worker_inv_parts [OF inv]
  let ?w = "set_sock w s (\<lambda>k. k\<lparr>m_readable := b, m_writable := c\<rparr>)"
  have "socks_inv ?w conns apps"
  proof (rule socks_inv_flags [OF parts(3)])
    show "flags_only (socks w t) (socks ?w t)" for t
      by (simp add: flags_only_iff)
    show "\<not> m_close (socks ?w t)" if "t \<in> set (mpp_servers w)" for t
      using parts(3) that by (auto simp: socks_inv_def listener_def)
  qed simp_all
  moreover have "core_inv ?w conns ps fs []" by (rule core_inv_cong [OF parts(2)]) simp_all
  moreover have "J ?w (set conns - set (mpp_servers w))"
    by (rule J_same [OF parts(6)]) (simp_all add: slots_def)
  ultimately show ?thesis using parts(4,5,7) by (simp add: worker_inv_def base_inv_def)
qed

lemma post_event_ok:
  assumes inv: "worker_inv J apps w conns ps fs"
    and ev: "current_event w ev \<Longrightarrow> event_sock ev \<in> set conns \<and> event_sock ev \<notin> set ps"
  shows "\<exists>ps'. worker_inv J apps (post_event w ev) conns ps' fs \<and> post_frame w (post_event w ev)
    \<and> set ps' \<subseteq> set ps \<union> (if current_event w ev then {event_sock ev} else {})"
proof -
  let ?s = "event_sock ev"
  obtain b c where cases: "post_event w ev = w \<and> \<not> (current_event w ev \<and> m_fd (socks w (event_sock ev)) \<noteq> -1)
    \<or> current_event w ev \<and> post_event w ev = set_sock w ?s (\<lambda>k. k\<lparr>m_readable := b, m_writable := c\<rparr>)
    \<or> current_event w ev \<and> post_event w ev = put_cells (set_sock w ?s (\<lambda>k. k\<lparr>m_readable := b, m_writable := c\<rparr>))
        (add_node (cells w) (posted_cell w) (posted_node ?s))" by (rule post_event_run)
  let ?w1 = "set_sock w ?s (\<lambda>k. k\<lparr>m_readable := b, m_writable := c\<rparr>)"
  have inv1: "worker_inv J apps ?w1 conns ps fs" by (rule worker_inv_flags [OF inv])
  have frame1: "post_frame w ?w1" by (rule post_frame_flags)
  from cases consider "post_event w ev = w"
    | "post_event w ev = ?w1"
    | "current_event w ev" "post_event w ev = put_cells ?w1 (add_node (cells w) (posted_cell w) (posted_node ?s))"
    by blast
  then show ?thesis
  proof cases
    case 1
    with inv show ?thesis by (intro exI [of _ ps]) auto
  next
    case 2
    with inv1 frame1 show ?thesis by (intro exI [of _ ps]) auto
  next
    case 3
    have s: "?s \<in> set (slots ?w1)" "?s \<notin> set ps"
      using ev [OF 3(1)] core_sets(2) [OF worker_inv_parts(2) [OF inv]] by (auto simp: slots_def)
    have "core_inv (put_cells ?w1 (add_node (cells ?w1) (posted_cell ?w1) (posted_node ?s))) conns (?s # ps) fs []"
      by (rule core_post [OF worker_inv_parts(2) [OF inv1] s])
    then have "worker_inv J apps (post_event w ev) conns (?s # ps) fs"
      using worker_inv_cells [OF inv1] by (simp add: 3(2) posted_cell_def)
    moreover have "post_frame w (post_event w ev)"
      using frame1 unfolding 3(2) post_frame_def by simp
    ultimately show ?thesis using 3(1) by (intro exI [of _ "?s # ps"]) auto
  qed
qed

lemma post_events_ok:
  assumes "worker_inv J apps w conns ps fs" and "set ps \<subseteq> set conns"
    and "\<forall>ev \<in> set evs. current_event w ev \<longrightarrow> event_sock ev \<in> set conns \<and> event_sock ev \<notin> set ps"
    and "distinct (map event_sock (filter (current_event w) evs))"
  shows "\<exists>ps'. worker_inv J apps (foldl post_event w evs) conns ps' fs \<and> set ps' \<subseteq> set conns
    \<and> post_frame w (foldl post_event w evs) \<and> set ps' \<subseteq> set ps \<union> event_sock ` set evs"
  using assms
proof (induction evs arbitrary: w ps)
  case Nil
  then show ?case by auto
next
  case (Cons ev evs)
  from post_event_ok [OF Cons.prems(1), of ev] Cons.prems(3) obtain ps1 where
    ps1: "worker_inv J apps (post_event w ev) conns ps1 fs" "post_frame w (post_event w ev)"
    "set ps1 \<subseteq> set ps \<union> (if current_event w ev then {event_sock ev} else {})" by auto
  note cur = post_frame_current [OF ps1(2)]
  have "set ps1 \<subseteq> set conns" using ps1(3) Cons.prems(2,3) by (auto split: if_splits)
  moreover have "\<forall>e \<in> set evs. current_event (post_event w ev) e \<longrightarrow>
      event_sock e \<in> set conns \<and> event_sock e \<notin> set ps1"
    using Cons.prems(3,4) by (fastforce simp: cur image_iff dest!: subsetD [OF ps1(3)] split: if_splits)
  moreover have "distinct (map event_sock (filter (current_event (post_event w ev)) evs))"
  proof -
    have "current_event (post_event w ev) = current_event w" by (rule ext) (rule cur)
    then show ?thesis using Cons.prems(4) by (simp split: if_splits)
  qed
  ultimately obtain ps2 where "worker_inv J apps (foldl post_event (post_event w ev) evs) conns ps2 fs"
    "set ps2 \<subseteq> set conns" "post_frame (post_event w ev) (foldl post_event (post_event w ev) evs)"
    "set ps2 \<subseteq> set ps1 \<union> event_sock ` set evs"
    using Cons.IH [OF ps1(1)] by blast
  then show ?case using post_frame_trans [OF ps1(2)] ps1(3)
    by (intro exI [of _ ps2]) (auto split: if_splits)
qed

end

section \<open>A round\<close>

text \<open>What \<open>epoll_wait\<close> documents: an event carries the data of a registered descriptor, at
  most one event for each.  The listeners may be registered during the wait.\<close>

definition reported :: "world \<Rightarrow> epoll_event list \<Rightarrow> bool" where
  "reported w evs \<longleftrightarrow> distinct (map ev_data evs)
     \<and> (\<forall>ev \<in> set evs. (\<exists>f m. registered (os w) f = Some (m, ev_data ev))
          \<or> (\<exists>s \<in> set (mpp_servers w). ev_data ev = s OR (if m_stale (socks w s) then 1 else 0)))"

text \<open>Another process has the lock: the low half of its word is not zero.\<close>

definition taken :: "world \<Rightarrow> bool" where
  "taken w \<longleftrightarrow> ucast (shm w (accept_lock w)) \<noteq> (0 :: 32 word)"

text \<open>The events are of descriptors that stay registered between the rounds, not of listeners.\<close>

definition unlistened :: "world \<Rightarrow> epoll_event list \<Rightarrow> bool" where
  "unlistened w evs \<longleftrightarrow> (\<forall>ev \<in> set evs. \<exists>f m. registered (os w) f = Some (m, ev_data ev))"

text \<open>\<open>epoll_wait\<close> fails, other than by a signal.\<close>

definition wait_failed :: "kernel \<Rightarrow> bool" where
  "wait_failed K \<longleftrightarrow> wait_errno K \<noteq> 0 \<and> wait_errno K \<noteq> EINTR"

lemma reported_events_ok:
  assumes inv: "worker_inv J apps w conns ps fs" and rep: "reported w evs"
  shows "events_ok w conns evs"
proof -
  note parts = worker_inv_parts [OF inv]
  have sub: "set (mpp_servers w) \<subseteq> set conns" using parts(3) by (simp add: socks_inv_def)
  have data: "event_sock ev \<in> set conns
      \<and> ev_data ev = event_sock ev OR (if m_stale (socks w (event_sock ev)) then 1 else 0)"
    if "ev \<in> set evs" for ev
  proof -
    obtain s where s: "s \<in> set conns" "ev_data ev = s OR (if m_stale (socks w s) then 1 else 0)"
    proof -
      have "(\<exists>f m. registered (os w) f = Some (m, ev_data ev))
          \<or> (\<exists>s \<in> set (mpp_servers w). ev_data ev = s OR (if m_stale (socks w s) then 1 else 0))"
        using rep \<open>ev \<in> set evs\<close> unfolding reported_def by (elim conjE) (rule bspec)
      then show thesis
      proof (elim disjE exE bexE)
        fix f m assume "registered (os w) f = Some (m, ev_data ev)"
        moreover have "\<forall>f ev d. registered (os w) f = Some (ev, d) \<longrightarrow> (\<exists>s \<in> set conns - set (mpp_servers w).
            m_fd (socks w s) = f \<and> d = s OR (if m_stale (socks w s) then 1 else 0))"
          using parts(3) unfolding socks_inv_def by (elim conjE)
        ultimately obtain s where "s \<in> set conns - set (mpp_servers w)"
          "ev_data ev = s OR (if m_stale (socks w s) then 1 else 0)" by blast
        then show thesis by (intro that) simp_all
      next
        fix s assume "s \<in> set (mpp_servers w)"
          "ev_data ev = s OR (if m_stale (socks w s) then 1 else 0)"
        then show thesis using sub by (intro that) auto
      qed
    qed
    have "even s" using slot_cells(4) [OF parts(2)] core_sets(2) [OF parts(2)] s(1) by blast
    then have "event_sock ev = s" using tag_bits(3,4) [of s] s(2) unfolding event_sock_def by simp
    with s show ?thesis by simp
  qed
  then have "distinct (map event_sock evs)"
    using rep unfolding reported_def distinct_map inj_on_def by metis
  then have "distinct (map event_sock (filter (current_event w) evs))" by (rule distinct_map_filter)
  then show ?thesis using data by (simp add: events_ok_def)
qed

lemma unlistened_socks:
  assumes inv: "worker_inv J apps w conns ps fs" and un: "unlistened w evs"
  shows "event_sock ` set evs \<inter> set (mpp_servers w) = {}"
proof -
  note parts = worker_inv_parts [OF inv]
  have "event_sock ev \<notin> set (mpp_servers w)" if ev: "ev \<in> set evs" for ev
  proof -
    obtain f m where "registered (os w) f = Some (m, ev_data ev)" using un ev unfolding unlistened_def by blast
    moreover have "\<forall>f ev d. registered (os w) f = Some (ev, d) \<longrightarrow> (\<exists>s \<in> set conns - set (mpp_servers w).
        m_fd (socks w s) = f \<and> d = s OR (if m_stale (socks w s) then 1 else 0))"
      using parts(3) unfolding socks_inv_def by (elim conjE)
    ultimately obtain s where s: "s \<in> set conns - set (mpp_servers w)"
      "ev_data ev = s OR (if m_stale (socks w s) then 1 else 0)" by blast
    have "even s" using slot_cells(4) [OF parts(2)] core_sets(2) [OF parts(2)] s(1) by blast
    then have "event_sock ev = s" using tag_bits(3,4) [of s] s(2) unfolding event_sock_def by simp
    with s(1) show ?thesis by simp
  qed
  then show ?thesis by blast
qed

context app_modules
begin

lemma worker_inv_lock:
  assumes inv: "worker_inv J apps w conns ps fs"
  shows "worker_inv J apps (w\<lparr>shm := m, m_hold_lock := h\<rparr>) conns ps fs"
proof -
  note parts = worker_inv_parts [OF inv]
  let ?w = "w\<lparr>shm := m, m_hold_lock := h\<rparr>"
  have "socks_inv ?w conns apps"
    by (rule socks_inv_cong [OF parts(3)]) (use parts(3) in \<open>auto simp: socks_inv_def\<close>)
  moreover have "core_inv ?w conns ps fs []" by (rule core_inv_cong [OF parts(2)]) simp_all
  moreover have "J ?w (set conns - set (mpp_servers w))"
    by (rule J_same [OF parts(6)]) (simp_all add: slots_def)
  ultimately show ?thesis using parts(4,5,7) by (simp add: worker_inv_def base_inv_def)
qed

text \<open>Behind the wait the listeners are as they were before it.\<close>

lemma servers_cancel:
  assumes inv: "worker_inv J apps w conns ps fs" and K: "kernel_ok ready A apps K"
  obtains r T where "add_servers K w [0..<length (mpp_servers w)] = Inr (put_servers w r T)"
    and "del_servers K (put_servers w r T) [0..<length (mpp_servers w)] = w"
proof -
  note parts = worker_inv_parts [OF inv]
  have sub: "set (mpp_servers w) \<subseteq> set conns" using parts(3) by (simp add: socks_inv_def)
  have none: "registered (os w) (m_fd (socks w s)) = None" if s: "s \<in> set (mpp_servers w)" for s
  proof (rule ccontr)
    assume "registered (os w) (m_fd (socks w s)) \<noteq> None"
    then obtain t where "t \<in> set conns - set (mpp_servers w)" "m_fd (socks w t) = m_fd (socks w s)"
      using registered_opened [OF parts(3)] by blast
    moreover have "inj_on (\<lambda>s. m_fd (socks w s)) (set conns)" using parts(3) by (simp add: socks_inv_def)
    ultimately show False using s sub by (auto dest!: inj_onD)
  qed
  have "\<forall>s \<in> set (mpp_servers w). even s"
    using slot_cells(4) [OF parts(2)] core_sets(2) [OF parts(2)] sub by blast
  moreover have "\<forall>s \<in> set (mpp_servers w). opened (os w) (m_fd (socks w s))
      \<and> del_errno K (m_fd (socks w s)) = 0 \<and> registered (os w) (m_fd (socks w s)) = None"
    using parts(3) none sub K unfolding socks_inv_def kernel_ok_def by blast
  ultimately show ?thesis by (rule add_del_servers) (rule that)
qed

lemma process_ok:
  assumes inv: "worker_inv J apps w conns [] fs" and K: "kernel_ok ready A apps K"
    and ev: "events_ok w conns (wait_events K)"
  shows "\<exists>rslt w' ps. epoll_process_events K w timer = Inr (rslt, w')
    \<and> worker_inv J apps w' conns ps fs \<and> set ps \<subseteq> set conns \<and> \<not> m_hold_lock w'
    \<and> m_power w' = m_power w \<and> mpp_servers w' = mpp_servers w \<and> slots w' = slots w
    \<and> rslt = (if wait_failed K then HIXO_ERROR else HIXO_OK) \<and> (wait_failed K \<longrightarrow> ps = [])
    \<and> set ps \<subseteq> event_sock ` set (wait_events K) \<and> accept_lock w' = accept_lock w
    \<and> (taken w \<longrightarrow> shm w' = shm w) \<and> has_ev_ctx w"
proof -
  have lock: "attached w" using worker_inv_parts(7) [OF inv] .
  then obtain got m where trylock: "enter_round (m_power w) (shm w) (accept_lock w) = Inr (got, m)"
    using enter_round_returns by blast
  have locked: "\<not> got \<and> m = shm w" if "taken w"
    using trylock enter_round_taken [of "accept_lock w" "shm w" "m_power w"] that lock by (simp add: taken_def)
  define w1 where "w1 = w\<lparr>shm := m, m_hold_lock := got\<rparr>"
  have inv1: "worker_inv J apps w1 conns [] fs" unfolding w1_def by (rule worker_inv_lock [OF inv])
  have f1: "m_power w1 = m_power w" "mpp_servers w1 = mpp_servers w" "slots w1 = slots w"
    "m_hold_lock w1 = got" "\<And>e. current_event w1 e = current_event w e"
    by (simp_all add: w1_def slots_def current_event_def)
  obtain w2 where w2: "(if m_hold_lock w1 then add_servers K w1 [0..<length (mpp_servers w1)] else Inr w1) = Inr w2"
    "(if m_hold_lock w2 then del_servers K w2 [0..<length (mpp_servers w1)] else w2) = w1"
    "cells w2 = cells w1" "posted_cell w2 = posted_cell w1"
  proof (cases got)
    case True
    from servers_cancel [OF inv1 K] obtain r T where
      "add_servers K w1 [0..<length (mpp_servers w1)] = Inr (put_servers w1 r T)"
      "del_servers K (put_servers w1 r T) [0..<length (mpp_servers w1)] = w1" .
    then show ?thesis using that [of "put_servers w1 r T"] True by (simp add: f1(4))
  next
    case False
    then show ?thesis using that [of w1] by (simp add: f1(4))
  qed
  have empty: "cells w2 (posted_cell w2) = 0"
    using core_posted_head [OF worker_inv_parts(2) [OF inv1]] w2(3,4) by simp
  define r where "r = (if wait_errno K \<noteq> 0 then (if wait_errno K = EINTR then (HIXO_OK, w1) else (HIXO_ERROR, w1))
    else (HIXO_OK, foldl post_event w1 (wait_events K)))"
  define w4 where "w4 = (case leave_round (m_hold_lock (snd r)) (shm (snd r)) (accept_lock (snd r)) of
    (hold, m') \<Rightarrow> (snd r)\<lparr>shm := m', m_hold_lock := hold\<rparr>)"
  have run: "epoll_process_events K w timer = Inr (fst r, w4)"
    unfolding epoll_process_events_def trylock bind_run.simps prod.case Let_def w1_def [symmetric] w2(1)
      w2(2) r_def [symmetric] w4_def [symmetric]
    using empty by (simp add: run_simps)
  have "set [] \<subseteq> set conns" "\<forall>ev \<in> set (wait_events K). current_event w1 ev \<longrightarrow>
      event_sock ev \<in> set conns \<and> event_sock ev \<notin> set []"
    "distinct (map event_sock (filter (current_event w1) (wait_events K)))"
    using ev by (simp_all add: events_ok_def f1(5) cong: filter_cong)
  from post_events_ok [OF inv1 this] obtain ps where
    ps: "worker_inv J apps (foldl post_event w1 (wait_events K)) conns ps fs" "set ps \<subseteq> set conns"
    "post_frame w1 (foldl post_event w1 (wait_events K))" "set ps \<subseteq> event_sock ` set (wait_events K)" by auto
  obtain ps' where ps': "worker_inv J apps (snd r) conns ps' fs" "set ps' \<subseteq> set conns" "post_frame w1 (snd r)"
    "fst r = (if wait_failed K then HIXO_ERROR else HIXO_OK)" "wait_failed K \<longrightarrow> ps' = []"
    "set ps' \<subseteq> event_sock ` set (wait_events K)"
  proof (cases "wait_errno K = 0")
    case True
    then show ?thesis using that [of ps] ps by (simp add: r_def wait_failed_def)
  next
    case False
    then show ?thesis using that [of "[]"] inv1 by (simp add: r_def wait_failed_def)
  qed
  have "worker_inv J apps w4 conns ps' fs"
    using worker_inv_lock [OF ps'(1)] by (simp add: w4_def split: prod.split)
  moreover have "m_power w4 = m_power (snd r)" "mpp_servers w4 = mpp_servers (snd r)" "slots w4 = slots (snd r)"
    "accept_lock w4 = accept_lock (snd r)" "\<not> m_hold_lock w4"
    by (simp_all add: w4_def slots_def leave_round_def split: prod.split)
  moreover have "shm w4 = shm w" if "taken w"
    using locked [OF that] ps'(3) by (simp add: w4_def w1_def leave_round_def post_frame_def)
  moreover have "accept_lock (snd r) = accept_lock w" using ps'(3) by (simp add: post_frame_def w1_def)
  ultimately show ?thesis unfolding run using f1 ps' lock
    by (intro exI [of _ "fst r"] exI [of _ w4] exI [of _ ps']) (simp add: post_frame_def)
qed

text \<open>A round ends with the posted list empty and no assertion failed; it leaves the loop exactly
  when \<open>epoll_wait\<close> fails.  While another process has the lock no connection is added and the page of
  the lock stays.\<close>

lemma event_round_inv:
  assumes inv: "worker_inv J apps w conns [] fs" and K: "kernel_ok ready A apps K"
    and rep: "reported w (wait_events K)"
  shows "\<exists>w' conns' fs'. event_round A K timer w
        = Some (Inr (if wait_failed K then Inl (HIXO_ERROR, w') else Inr w'))
    \<and> worker_inv J apps w' conns' [] fs'
    \<and> m_power w' + int (length conns') = m_power w + int (length conns)
    \<and> mpp_servers w' = mpp_servers w \<and> slots w' = slots w
    \<and> (taken w \<and> unlistened w (wait_events K) \<longrightarrow>
         set conns' \<subseteq> set conns \<and> shm w' = shm w \<and> accept_lock w' = accept_lock w)"
proof -
  from process_ok [OF inv K reported_events_ok [OF inv rep], of timer] obtain rslt w1 ps where
    p: "epoll_process_events K w timer = Inr (rslt, w1)" "worker_inv J apps w1 conns ps fs"
    "set ps \<subseteq> set conns" "m_power w1 = m_power w" "mpp_servers w1 = mpp_servers w"
    "slots w1 = slots w" "rslt = (if wait_failed K then HIXO_ERROR else HIXO_OK)" "wait_failed K \<longrightarrow> ps = []"
    "set ps \<subseteq> event_sock ` set (wait_events K)" "accept_lock w1 = accept_lock w" "taken w \<longrightarrow> shm w1 = shm w"
    "has_ev_ctx w" by blast
  have apart: "set ps \<inter> set (mpp_servers w1) = {}" if "unlistened w (wait_events K)"
    using unlistened_socks [OF inv that] p(5,9) by auto
  show ?thesis
  proof (cases "wait_failed K")
    case False
    from dispatch_ok [OF p(2,3) K] obtain w2 conns2 fs2 where
      "dispatch A K (cells w1 (posted_cell w1)) w1 = Some (Inr w2)"
      "worker_inv J apps w2 conns2 [] fs2"
      "m_power w2 + int (length conns2) = m_power w1 + int (length conns)"
      "mpp_servers w2 = mpp_servers w1" "slots w2 = slots w1"
      "set ps \<inter> set (mpp_servers w1) = {} \<longrightarrow>
         set conns2 \<subseteq> set conns \<and> shm w2 = shm w1 \<and> accept_lock w2 = accept_lock w1" by blast
    then show ?thesis using False p apart
      by (intro exI [of _ w2] exI [of _ conns2] exI [of _ fs2]) (simp add: event_round_def HIXO_OK_def)
  next
    case True
    then show ?thesis using p
      by (intro exI [of _ w1] exI [of _ conns] exI [of _ fs]) (simp add: event_round_def HIXO_ERROR_def)
  qed
qed

end

text \<open>The rounds a worker goes through, with any answers of the kernel.\<close>

inductive serving :: "(kernel \<Rightarrow> bool) \<Rightarrow> (addr \<Rightarrow> app_ctx) \<Rightarrow> addr list \<Rightarrow> int \<Rightarrow> world \<Rightarrow> world \<Rightarrow> bool"
  for ready A apps timer where
  start: "serving ready A apps timer w w"
| round: "serving ready A apps timer w w1 \<Longrightarrow> kernel_ok ready A apps K \<Longrightarrow> reported w1 (wait_events K) \<Longrightarrow>
    event_round A K timer w1 = Some (Inr (Inr w2)) \<Longrightarrow> serving ready A apps timer w w2"

context app_modules
begin

lemma serving_inv:
  assumes "serving ready A apps timer w w'" and "worker_inv J apps w conns [] fs"
  shows "\<exists>conns' fs'. worker_inv J apps w' conns' [] fs'
    \<and> m_power w' + int (length conns') = m_power w + int (length conns)
    \<and> mpp_servers w' = mpp_servers w \<and> slots w' = slots w"
  using assms
proof (induction rule: serving.induct)
  case (start w)
  then show ?case by blast
next
  case (round w w1 K w2)
  then obtain conns1 fs1 where inv: "worker_inv J apps w1 conns1 [] fs1"
    "m_power w1 + int (length conns1) = m_power w + int (length conns)"
    "mpp_servers w1 = mpp_servers w" "slots w1 = slots w" by blast
  from event_round_inv [OF inv(1) round.hyps(2,3), of timer] obtain w3 conns3 fs3 where
    "event_round A K timer w1 = Some (Inr (if wait_failed K then Inl (HIXO_ERROR, w3) else Inr w3))"
    "worker_inv J apps w3 conns3 [] fs3" "m_power w3 + int (length conns3) = m_power w1 + int (length conns1)"
    "mpp_servers w3 = mpp_servers w1" "slots w3 = slots w1" by blast
  moreover from this(1) round.hyps(4) have "w3 = w2" by (simp split: if_splits)
  ultimately show ?case using inv by metis
qed

end

text \<open>The rounds of \<open>event_loop\<close> with the answers \<open>Ks\<close> of the kernel, as long as it goes on.\<close>

fun rounds_ok :: "(kernel \<Rightarrow> bool) \<Rightarrow> (addr \<Rightarrow> app_ctx) \<Rightarrow> addr list \<Rightarrow> int \<Rightarrow> kernel list \<Rightarrow> world \<Rightarrow> bool" where
  "rounds_ok ready A apps timer [] w = True"
| "rounds_ok ready A apps timer (K # Ks) w \<longleftrightarrow> kernel_ok ready A apps K \<and> reported w (wait_events K)
     \<and> (\<forall>w1. event_round A K timer w = Some (Inr (Inr w1)) \<longrightarrow> rounds_ok ready A apps timer Ks w1)"

context app_modules
begin

lemma event_loop_safe:
  assumes "worker_inv J apps w conns [] fs" and "rounds_ok ready A apps timer Ks w"
  shows "\<exists>w' conns' fs'. event_loop A Ks timer w
        = Some (Inr (if \<exists>K \<in> set Ks. wait_failed K then Inl (HIXO_ERROR, w') else Inr w'))
    \<and> worker_inv J apps w' conns' [] fs'"
  using assms
proof (induction Ks arbitrary: w conns fs)
  case Nil
  then show ?case by auto
next
  case (Cons K Ks)
  have ok: "kernel_ok ready A apps K" "reported w (wait_events K)" using Cons.prems(2) by simp_all
  from event_round_inv [OF Cons.prems(1) ok, of timer] obtain w1 conns1 fs1 where
    run: "event_round A K timer w = Some (Inr (if wait_failed K then Inl (HIXO_ERROR, w1) else Inr w1))"
    and inv: "worker_inv J apps w1 conns1 [] fs1" by blast
  show ?case
  proof (cases "wait_failed K")
    case False
    with run Cons.prems(2) have "rounds_ok ready A apps timer Ks w1" by simp
    from Cons.IH [OF inv this] run False show ?thesis by simp
  next
    case True
    with run inv show ?thesis by auto
  qed
qed

end

end
