(* ===== verification/Http.thy ===== *)
theory Http
  imports Loop
begin

text \<open>
  The application module \<open>src/modules/simple_http.c\<close>: two listeners, and a read handler that
  sends a fixed page and closes the connection.  Its contexts satisfy the contract
  \<open>app_modules\<close> of the event core, which gives the theorems about the event loop that runs it.
\<close>

unbundle bit_operations_syntax

section \<open>The code\<close>

definition bytes_of :: "string \<Rightarrow> byte list" where
  "bytes_of s = map (\<lambda>c. of_char c) s"

definition CRLF :: string where
  "CRLF = [CHR 0x0D, CHR 0x0A]"

text \<open>The two arrays of \<open>test_syn_send\<close>; as C string literals they end with a zero byte, which
  \<open>sizeof\<close> counts.\<close>

definition data_head :: "byte list" where
  "data_head = bytes_of (''HTTP/1.1 200 OK'' @ CRLF @
     ''Server: hixo'' @ CRLF @
     ''Content-Length: 174'' @ CRLF @
     ''Content-Type: text/html'' @ CRLF @
     ''Connection: keep-alive'' @ CRLF @ CRLF) @ [0]"

definition data_body :: "byte list" where
  "data_body = bytes_of (''<!DOCTYPE html>'' @ CRLF @
     ''<html>'' @ CRLF @
     ''<head>'' @ CRLF @
     ''<title>welcome to hixo</title>'' @ CRLF @
     ''</head>'' @ CRLF @
     ''<body bgcolor=\"white\" text=\"black\">'' @ CRLF @
     ''<center><h1>welcome to hixo!</h1></center>'' @ CRLF @
     ''</body>'' @ CRLF @
     ''</html>'' @ CRLF) @ [0]"

text \<open>The loop around \<open>writev\<close>: \<open>rs\<close> are the results of the successive calls, each of which
  starts at the first byte of \<open>data\<close>.  It gives whether everything was counted as sent, and
  what was written.\<close>

fun writev_loop :: "byte list \<Rightarrow> (errno + nat) list \<Rightarrow> nat \<Rightarrow> byte list \<Rightarrow> bool \<times> byte list" where
  "writev_loop data rs sent_size out =
     (if sent_size < length data then
        (case rs of
           [] \<Rightarrow> (False, out)
         | Inl tmp_err # rs' \<Rightarrow> (False, out)
         | Inr tmp_sent # rs' \<Rightarrow> writev_loop data rs' (sent_size + tmp_sent) (out @ take tmp_sent data))
      else (True, out))"

definition write_out :: "world \<Rightarrow> fd \<Rightarrow> byte list \<Rightarrow> world" where
  "write_out w f out = w\<lparr>os := (os w)\<lparr>sent := (sent (os w))(f := sent (os w) f @ out)\<rparr>\<rparr>"

definition test_syn_send :: "kernel \<Rightarrow> addr \<Rightarrow> world \<Rightarrow> world" where
  "test_syn_send K p_sock w =
     (let f = m_fd (socks w p_sock);
          r = writev_loop (data_head @ data_body) (writes K f) 0 [];
          w1 = write_out w f (snd r)
      in if fst r then hixo_socket_close (hixo_socket_shutdown w1 p_sock) p_sock else w1)"

definition simple_http_handle_connect :: handler where
  "simple_http_handle_connect K p_sock w = Inr w"

definition simple_http_handle_read :: handler where
  "simple_http_handle_read K p_sock w = Inr (test_syn_send K p_sock w)"

definition simple_http_handle_write :: handler where
  "simple_http_handle_write K p_sock w = Inr w"

definition simple_http_handle_disconnect :: handler where
  "simple_http_handle_disconnect K p_sock w = Inr w"

text \<open>\<open>htons\<close> on a little-endian machine.\<close>

definition htons :: "int \<Rightarrow> int" where
  "htons p = (p mod 256) * 256 + (p div 256) mod 256"

definition sa_simple_http_srvs :: "hixo_listen_conf list" where
  "sa_simple_http_srvs = [\<lparr>mp_ip = ''0.0.0.0'', m_port = 8002, m_backlog = 0\<rparr>,
                          \<lparr>mp_ip = ''0.0.0.0'', m_port = 8003, m_backlog = 0\<rparr>]"

definition simple_http_init_worker :: "hixo_listen_conf list \<Rightarrow> int \<times> hixo_listen_conf list" where
  "simple_http_init_worker srvs =
     (HIXO_OK, foldl (\<lambda>ss i. ss[i := (ss ! i)\<lparr>m_port := htons (m_port (ss ! i))\<rparr>]) srvs [0..<length srvs])"

definition simple_http_ctx :: "hixo_listen_conf list \<Rightarrow> app_ctx" where
  "simple_http_ctx srvs = \<lparr>mpf_handle_connect = simple_http_handle_connect,
     mpf_handle_read = simple_http_handle_read, mpf_handle_write = simple_http_handle_write,
     mpf_handle_disconnect = simple_http_handle_disconnect, mpa_servers = srvs\<rparr>"

section \<open>The handlers keep the contract\<close>

lemma foldl_update_map: "foldl (\<lambda>ss i. ss[i := f (ss ! i)]) xs [0..<length xs] = map f xs"
proof -
  have "length (foldl (\<lambda>ss i. ss[i := f (ss ! i)]) xs [0..<k]) = length xs
      \<and> (\<forall>j < length xs. foldl (\<lambda>ss i. ss[i := f (ss ! i)]) xs [0..<k] ! j
            = (if j < k then f (xs ! j) else xs ! j))" if "k \<le> length xs" for k
    using that by (induction k) (auto simp: nth_list_update)
  then show ?thesis by (auto intro: nth_equalityI)
qed

lemma linked_unique:
  "linked d a (xs @ [h]) \<Longrightarrow> linked d a (ys @ [h]) \<Longrightarrow> h \<notin> set xs \<Longrightarrow> h \<notin> set ys \<Longrightarrow> xs = ys"
proof (induction xs arbitrary: a ys)
  case Nil
  then show ?case by (cases ys) auto
next
  case (Cons x xs)
  then show ?case by (cases ys) auto
qed

lemma dring_unique: "dring d h xs \<Longrightarrow> dring d h ys \<Longrightarrow> xs = ys"
  by (auto simp: dring_def intro: linked_unique)

text \<open>The ring of the contexts is apart from the queues of the sockets.\<close>

definition ring_apart :: "world \<Rightarrow> addr set \<Rightarrow> bool" where
  "ring_apart w S \<longleftrightarrow> (\<forall>apps. dring (dlinks w) (app_ctx_list w) apps \<longrightarrow>
     (\<forall>s \<in> set (slots w). readbuf_queue s \<notin> set (app_ctx_list w # apps)
        \<and> writebuf_queue s \<notin> set (app_ctx_list w # apps)))"

lemma test_syn_send_frame:
  "app_frame s w (test_syn_send K s w)" "dlinks (test_syn_send K s w) = dlinks w"
  "slots (test_syn_send K s w) = slots w" "bufs (test_syn_send K s w) = bufs w"
  "heap (test_syn_send K s w) = heap w"
  by (simp_all add: test_syn_send_def Let_def write_out_def hixo_socket_shutdown_def
      hixo_socket_close_def app_frame_def core_same_def flags_only_iff slots_def)

lemma app_frame_refl [simp]: "app_frame s w w"
  by (simp add: app_frame_def core_same_def)

lemma ring_apart_cong:
  "ring_apart w S \<Longrightarrow> dlinks w' = dlinks w \<Longrightarrow> slots w' = slots w \<Longrightarrow> app_ctx_list w' = app_ctx_list w
     \<Longrightarrow> ring_apart w' T"
  by (simp add: ring_apart_def)

lemma ring_apart_create:
  assumes apart: "ring_apart w S" and s: "s \<in> set (slots w)"
    and ring: "dring (dlinks w) (app_ctx_list w) apps"
  shows "ring_apart (w\<lparr>dlinks := empty_queues (dlinks w) s\<rparr>) T
    \<and> dring (empty_queues (dlinks w) s) (app_ctx_list w) apps"
proof -
  have ring': "dring (empty_queues (dlinks w) s) (app_ctx_list w) apps"
    by (rule empty_queues_frame [OF ring]) (use apart s ring in \<open>auto simp: ring_apart_def\<close>)
  have "\<forall>s \<in> set (slots w). readbuf_queue s \<notin> set (app_ctx_list w # apps)
      \<and> writebuf_queue s \<notin> set (app_ctx_list w # apps)"
    using apart ring unfolding ring_apart_def by blast
  then have "ring_apart (w\<lparr>dlinks := empty_queues (dlinks w) s\<rparr>) T"
    unfolding ring_apart_def slots_def using dring_unique [OF ring'] by fastforce
  with ring' show ?thesis by blast
qed

lemma http_handler_ok:
  assumes "ring_apart w S"
  shows "handler_ok ring_apart T s w (mpf_handle_connect (simple_http_ctx srvs) K s w)"
    and "handler_ok ring_apart T s w (mpf_handle_read (simple_http_ctx srvs) K s w)"
    and "handler_ok ring_apart T s w (mpf_handle_write (simple_http_ctx srvs) K s w)"
    and "handler_ok ring_apart T s w (mpf_handle_disconnect (simple_http_ctx srvs) K s w)"
proof -
  have apart: "ring_apart w T" by (rule ring_apart_cong [OF assms]) simp_all
  have "app_ctx_list (test_syn_send K s w) = app_ctx_list w"
    using test_syn_send_frame(1) [of s w K] by (simp add: app_frame_def core_same_def)
  then have "ring_apart (test_syn_send K s w) T"
    by (intro ring_apart_cong [OF assms]) (simp_all add: test_syn_send_frame)
  then show "handler_ok ring_apart T s w (mpf_handle_read (simple_http_ctx srvs) K s w)"
    by (simp add: handler_ok_def simple_http_ctx_def simple_http_handle_read_def test_syn_send_frame)
qed (use ring_apart_cong [OF assms, of w T] in
    \<open>simp_all add: handler_ok_def simple_http_ctx_def simple_http_handle_connect_def
      simple_http_handle_write_def simple_http_handle_disconnect_def\<close>)

interpretation http: app_modules "\<lambda>a. simple_http_ctx (srvs a)" ring_apart "\<lambda>_. ring_apart" "\<lambda>_. True" for srvs
proof unfold_locales
  fix w conns ps fs xs S s apps
  assume "core_inv w conns ps fs xs" "ring_apart w S" "s \<in> set (slots w)"
    "dring (dlinks w) (app_ctx_list w) apps"
  then show "ring_apart (w\<lparr>dlinks := empty_queues (dlinks w) s\<rparr>) (insert s S)
      \<and> dring (empty_queues (dlinks w) s) (app_ctx_list w) apps"
    by (intro ring_apart_create)
qed (auto intro: http_handler_ok ring_apart_cong)

end
