(* ===== verification/Demo.thy ===== *)
theory Demo
  imports Http
begin

text \<open>
  A concrete worker for the witnesses: a pool of three sockets, the first a listener, the second
  a connection of the module \<open>simple_http\<close>, the third free.
\<close>

unbundle bit_operations_syntax

definition demo_cells :: mem where
  "demo_cells = (\<lambda>_. 0)(1056 := 4240, 4240 := 4136, 1096 := 4344, 4096 := 1073, 4200 := 1073, 4304 := 1072)"

definition demo_pool :: hixo_resource where
  "demo_pool = \<lparr>mp_start = 4096, mp_end = 4408, m_offset = 40, m_used = 2, m_capacity = 3\<rparr>"

definition demo_listener :: hixo_socket where
  "demo_listener = \<lparr>m_fd = 3, mpf_read_handler = Handle_accept, mpf_write_handler = Null,
     mpf_disconnect_handler = Null, m_event_types = 0x80000001, m_stale = True,
     m_readable = False, m_writable = False, m_close = False\<rparr>"

definition demo_client :: hixo_socket where
  "demo_client = new_socket 7 (App_read 640) (App_write 640) (App_disconnect 640) 0x80000005 True"

definition demo_links :: dheap where
  "demo_links = \<lparr>mp_next = (\<lambda>a. a)(512 := 640, 640 := 512), mp_prev = (\<lambda>a. a)(512 := 640, 640 := 512)\<rparr>"

definition demo_os :: os_state where
  "demo_os = \<lparr>open_fds = [7, 3], registered = [7 \<mapsto> (0x80000005, 4201)], unblocked = (\<lambda>_. False),
     nodelay = (\<lambda>_. False), shut = (\<lambda>_. False), sent = (\<lambda>_. [])\<rparr>"

definition demo_world :: world where
  "demo_world = \<lparr>rt_ctx = 1024, cells = demo_cells, m_sockets_cache = demo_pool,
     socks = (\<lambda>_. demo_client)(4096 := demo_listener), dlinks = demo_links, mpp_servers = [4096],
     m_power = 5, shm = (\<lambda>_. 0), accept_lock = 8, has_ev_ctx = True, m_hold_lock = False, app_ctx_list = 512,
     bufs = (\<lambda>_. \<lparr>buf_offset = 0, buf_size = 0, m_byte_array = \<lparr>mp_data = 0, arr_capacity = 0\<rparr>\<rparr>),
     heap = Map.empty, os = demo_os\<rparr>"

lemma demo_slots: "slots demo_world = [4096, 4200, 4304]"
  by (simp add: slots_def slot_list_def demo_world_def demo_pool_def sizeof_hixo_socket_def upt_rec)

lemma demo_core: "core_inv demo_world [4200, 4096] [] [4304] []"
  unfolding core_inv_def demo_slots
proof (intro conjI)
  show "rsc_inv (cache_addr demo_world) (int sizeof_hixo_socket)
      (cells demo_world, m_sockets_cache demo_world) [4304]"
    by (rule rsc_invI) (auto simp: demo_world_def demo_pool_def demo_cells_def rsc_layout_def slist_def
      free_list_cell_def cache_addr_def sizeof_hixo_socket_def slot_list_def upt_rec or_one_eq)
qed (auto simp: demo_world_def demo_pool_def demo_cells_def slist_def connections_cell_def
    posted_cell_def node_offset_def socket_node_def)

lemma demo_ring: "dring (dlinks demo_world) (app_ctx_list demo_world) [640]"
  by (simp add: dring_def demo_world_def demo_links_def)

lemma demo_socks: "socks_inv demo_world [4200, 4096] [640]"
  unfolding socks_inv_def
proof (intro conjI allI impI)
  fix f ev d assume "registered (os demo_world) f = Some (ev, d)"
  then show "\<exists>s \<in> set [4200, 4096] - set (mpp_servers demo_world). m_fd (socks demo_world s) = f
      \<and> d = s OR (if m_stale (socks demo_world s) then 1 else 0)"
    by (intro bexI [of _ 4200])
      (auto simp: demo_world_def demo_os_def demo_client_def new_socket_def or_one_eq split: if_splits)
qed (auto simp: demo_world_def demo_os_def listener_def client_def demo_listener_def
      demo_client_def new_socket_def opened_def)

lemma demo_apart: "ring_apart demo_world S"
  unfolding ring_apart_def demo_slots
proof (intro allI impI)
  fix apps assume "dring (dlinks demo_world) (app_ctx_list demo_world) apps"
  then have apps: "apps = [640]" using dring_unique [OF demo_ring] by simp
  show "\<forall>s \<in> set [4096, 4200, 4304]. readbuf_queue s \<notin> set (app_ctx_list demo_world # apps)
      \<and> writebuf_queue s \<notin> set (app_ctx_list demo_world # apps)"
    by (simp add: apps demo_world_def readbuf_queue_def writebuf_queue_def)
qed

lemma demo_inv: "worker_inv ring_apart [640] demo_world [4200, 4096] [] [4304]"
  using demo_core demo_ring demo_socks demo_apart
  by (simp add: worker_inv_def base_inv_def) (simp add: demo_world_def)

definition demo_kernel :: kernel where
  "demo_kernel = \<lparr>add_errno = (\<lambda>_. 0), del_errno = (\<lambda>_. 0), opt_errno = (\<lambda>_. 0),
     new_fd = (\<lambda>fds. 1 + sum_list (map abs fds)),
     incoming = (\<lambda>_. [])(3 := [\<lparr>acc_errno = 0, acc_port = Some 16927\<rparr>]),
     reads = (\<lambda>_. []), writes = (\<lambda>_. [Inr 1000]), wait_errno = 0,
     wait_events = [\<lparr>ev_events = 1, ev_data = 4097\<rparr>, \<lparr>ev_events = 1, ev_data = 4201\<rparr>]\<rparr>"

definition demo_srvs :: "addr \<Rightarrow> hixo_listen_conf list" where
  "demo_srvs a = snd (simple_http_init_worker sa_simple_http_srvs)"

lemma demo_kernel_ok: "kernel_ok (\<lambda>_. True) (\<lambda>a. simple_http_ctx (demo_srvs a)) [640] demo_kernel"
proof -
  have nonneg: "0 \<le> sum_list (map abs l)" for l :: "int list" by (induction l) auto
  have "f \<le> sum_list (map abs l)" if "f \<in> set l" for f and l :: "int list"
    using that
  proof (induction l)
    case (Cons a l)
    then show ?case using nonneg [of l] by auto
  qed simp
  then have "1 + sum_list (map abs l) \<notin> set l" for l :: "int list" by fastforce
  then have "kernel_fds demo_kernel" using nonneg by (simp add: kernel_fds_def demo_kernel_def add_increasing)
  moreover have "serves (simple_http_ctx (demo_srvs 640)) 16927"
    by (simp add: serves_def simple_http_ctx_def demo_srvs_def simple_http_init_worker_def
        sa_simple_http_srvs_def htons_def upt_rec)
  ultimately show ?thesis by (simp add: kernel_ok_def incoming_ok_def demo_kernel_def)
qed

lemma demo_reported: "reported demo_world (wait_events demo_kernel)"
  by (simp add: reported_def demo_world_def demo_kernel_def demo_os_def demo_listener_def or_one_eq)

end
