(* ===== verification/Server.thy ===== *)
theory Server
  imports Demo
begin

text \<open>
  The properties of a running worker: the event core with the module \<open>simple_http\<close>.  They follow
  from the interpretation \<open>http\<close> of the contract \<open>app_modules\<close> in Http.thy.
\<close>

unbundle bit_operations_syntax

section \<open>Rounds of the event loop\<close>

text \<open>C3. A worker whose only modules are contexts of \<open>simple_http\<close>: one round of its event loop returns
  for all answers of the kernel that \<open>kernel_ok\<close> and \<open>reported\<close> admit (new descriptors are new, an accepted
  connection has a port that was listened on, an open descriptor can be unregistered, an event carries
  the data of a registered descriptor, and at most one each).  No assertion fails and no list walk
  diverges; afterwards no event is posted, the listeners are the same, every socket of the pool is either
  free or connected, and the power of the worker plus its connections is what it was; the loop is left
  exactly when \<open>epoll_wait\<close> has failed.\<close>

theorem event_round_safe:
  assumes "worker_inv ring_apart apps w conns [] fs"
    and "kernel_ok (\<lambda>_. True) (\<lambda>a. simple_http_ctx (srvs a)) apps K" and "reported w (wait_events K)"
  shows "\<exists>w' conns' fs'. event_round (\<lambda>a. simple_http_ctx (srvs a)) K timer w
        = Some (Inr (if wait_failed K then Inl (HIXO_ERROR, w') else Inr w'))
    \<and> worker_inv ring_apart apps w' conns' [] fs'
    \<and> m_power w' + int (length conns') = m_power w + int (length conns)
    \<and> mpp_servers w' = mpp_servers w \<and> slots w' = slots w"
  using http.event_round_inv [OF assms, of timer] by blast

theorem event_round_safe_witness:
  "\<exists>w' conns' fs'. event_round (\<lambda>a. simple_http_ctx (demo_srvs a)) demo_kernel 1000 demo_world
      = Some (Inr (Inr w'))
    \<and> worker_inv ring_apart [640] w' conns' [] fs'
    \<and> m_power w' + int (length conns') = m_power demo_world + int (length [4200 :: int, 4096])
    \<and> mpp_servers w' = mpp_servers demo_world \<and> slots w' = slots demo_world"
proof -
  have "\<not> wait_failed demo_kernel" by (simp add: wait_failed_def demo_kernel_def)
  with event_round_safe [OF demo_inv demo_kernel_ok demo_reported, of 1000] show ?thesis
    by (simp only: if_False)
qed



text \<open>C8. A request to a connection of \<open>simple_http\<close> whose response the kernel takes in one
  \<open>writev\<close>: the response is sent, the connection shut down and closed, its socket returned to
  the pool and the power of the worker restored.\<close>

theorem http_request_served:
  assumes inv: "worker_inv ring_apart apps w conns ps fs" and s: "s \<in> set conns - set (mpp_servers w)"
    and ready: "m_readable (socks w s)"
    and wr: "writes K (m_fd (socks w s)) = Inr n # rs" "length (data_head @ data_body) \<le> n"
  shows "\<exists>w'. serve_socket (\<lambda>a. simple_http_ctx (srvs a)) K s w = Inr w'
    \<and> sent (os w') (m_fd (socks w s)) = sent (os w) (m_fd (socks w s)) @ data_head @ data_body
    \<and> shut (os w') (m_fd (socks w s)) \<and> \<not> opened (os w') (m_fd (socks w s))
    \<and> m_power w' = m_power w + 1 \<and> worker_inv ring_apart apps w' (remove1 s conns) ps (s # fs)"
proof -
  let ?A = "\<lambda>a. simple_http_ctx (srvs a)" and ?f = "m_fd (socks w s)"
  note parts = worker_inv_parts [OF inv]
  have "client apps (socks w s)" using parts(3) s unfolding socks_inv_def by blast
  then obtain a where h: "mpf_read_handler (socks w s) = App_read a"
    "mpf_disconnect_handler (socks w s) = App_disconnect a" by (auto simp: client_def)
  define w1 where "w1 = test_syn_send K s w"
  have frame: "app_frame s w w1" unfolding w1_def by (rule test_syn_send_frame)
  note f1 = app_frame_simps [OF frame]
  have whole: "writev_loop (data_head @ data_body) (Inr n # rs) 0 [] = (True, data_head @ data_body)"
    using wr(2) by (subst writev_loop.simps) (simp add: data_head_def)
  have w1: "m_close (socks w1 s)" "m_fd (socks w1 s) = ?f" "shut (os w1) ?f"
    "sent (os w1) ?f = sent (os w) ?f @ data_head @ data_body"
    by (simp_all add: w1_def test_syn_send_def wr(1) whole Let_def write_out_def
        hixo_socket_shutdown_def hixo_socket_close_def del: writev_loop.simps)
  have base1: "base_inv apps w1 conns ps fs"
    by (rule base_inv_frame [OF parts(1) frame]) (use s parts(4) in \<open>simp_all add: w1_def test_syn_send_frame\<close>)
  have s1: "s \<in> set conns - set (mpp_servers w1)" using s by (simp add: f1)
  have J1: "ring_apart w1 (set conns - set (mpp_servers w1) - {s})"
    by (rule ring_apart_cong [OF parts(6)]) (simp_all add: w1_def test_syn_send_frame f1 [unfolded w1_def])
  obtain w' where w': "hixo_handle_close K s w1 = Inr w'"
    "worker_inv ring_apart apps w' (remove1 s conns) ps (s # fs)" "m_power w' = m_power w1 + 1"
    "socks w' = (socks w1)(s := (socks w1 s)\<lparr>m_readable := False, m_writable := False\<rparr>)"
    "opened (os w') = (opened (os w1))(m_fd (socks w1 s) := False)"
    using http.handle_close_ok [OF base1 s1 J1] by blast
  have core1: "core_inv w1 conns ps fs []" "has_ev_ctx w1" using base1 by (simp_all add: base_inv_def)
  have sent': "sent (os w') = sent (os w1)" "shut (os w') = shut (os w1)"
    using handle_close_run [OF core1, of s K] s w'(1) by (metis Diff_iff sum.inject(2))+
  have "serve_socket ?A K s w = Inr w'"
    using ready w1(1) w'(1,4)
    by (simp add: serve_socket_def h f1 call_def simple_http_ctx_def simple_http_handle_read_def
        simple_http_handle_disconnect_def w1_def [symmetric])
  then show ?thesis using w' w1 sent' f1 by (intro exI [of _ w']) simp
qed

theorem http_request_served_witness:
  "let w = set_sock demo_world 4200 (\<lambda>k. k\<lparr>m_readable := True, m_writable := True\<rparr>)
   in \<exists>w'. serve_socket (\<lambda>a. simple_http_ctx (demo_srvs a)) demo_kernel 4200 w = Inr w'
    \<and> sent (os w') 7 = data_head @ data_body \<and> shut (os w') 7 \<and> \<not> opened (os w') 7
    \<and> m_power w' = 6 \<and> worker_inv ring_apart [640] w' [4096] [] [4200, 4304]"
proof -
  let ?w = "set_sock demo_world 4200 (\<lambda>k. k\<lparr>m_readable := True, m_writable := True\<rparr>)"
  have fd: "m_fd (socks ?w 4200) = 7" by (simp add: demo_world_def demo_client_def new_socket_def)
  have len: "length (data_head @ data_body) \<le> 1000"
    by (simp add: data_head_def data_body_def bytes_of_def CRLF_def)
  have "\<exists>w'. serve_socket (\<lambda>a. simple_http_ctx (demo_srvs a)) demo_kernel 4200 ?w = Inr w'
    \<and> sent (os w') (m_fd (socks ?w 4200)) = sent (os ?w) (m_fd (socks ?w 4200)) @ data_head @ data_body
    \<and> shut (os w') (m_fd (socks ?w 4200)) \<and> \<not> opened (os w') (m_fd (socks ?w 4200))
    \<and> m_power w' = m_power ?w + 1 \<and> worker_inv ring_apart [640] w' (remove1 4200 [4200, 4096]) [] [4200, 4304]"
    by (rule http_request_served [OF http.worker_inv_flags [OF demo_inv] _ _ _ len])
      (simp_all add: demo_world_def demo_kernel_def)
  then show ?thesis unfolding fd by (simp add: Let_def) (simp add: demo_world_def demo_os_def)
qed

text \<open>C21. Closing a connection: the descriptor is closed and out of \<open>epoll\<close>, the socket is on
  the free list, its flags are down, and the power grows by one, whatever \<open>epoll_ctl\<close> answers.\<close>

theorem handle_close_releases:
  assumes inv: "worker_inv ring_apart apps w conns ps fs" and s: "s \<in> set conns - set (mpp_servers w)"
  shows "\<exists>w'. hixo_handle_close K s w = Inr w' \<and> worker_inv ring_apart apps w' (remove1 s conns) ps (s # fs)
    \<and> \<not> opened (os w') (m_fd (socks w s)) \<and> registered (os w') (m_fd (socks w s)) = None
    \<and> \<not> m_readable (socks w' s) \<and> \<not> m_writable (socks w' s) \<and> m_power w' = m_power w + 1"
proof -
  note parts = worker_inv_parts [OF inv]
  have J: "ring_apart w (set conns - set (mpp_servers w) - {s})"
    by (rule ring_apart_cong [OF parts(6)]) simp_all
  obtain w' where w': "hixo_handle_close K s w = Inr w'"
    "worker_inv ring_apart apps w' (remove1 s conns) ps (s # fs)" "m_power w' = m_power w + 1"
    "socks w' = (socks w)(s := (socks w s)\<lparr>m_readable := False, m_writable := False\<rparr>)"
    "opened (os w') = (opened (os w))(m_fd (socks w s) := False)"
    using http.handle_close_ok [OF parts(1) s J] by blast
  have "registered (os w') (m_fd (socks w s)) = None"
    using handle_close_run [OF parts(2) conjunct2 [OF parts(7)], of s K] s w'(1) by (metis Diff_iff sum.inject(2))
  with w' show ?thesis by (intro exI [of _ w']) simp
qed

theorem handle_close_releases_witness:
  "\<exists>w'. hixo_handle_close demo_kernel 4200 demo_world = Inr w'
    \<and> worker_inv ring_apart [640] w' (remove1 4200 [4200, 4096]) [] [4200, 4304]
    \<and> \<not> opened (os w') (m_fd (socks demo_world 4200)) \<and> registered (os w') (m_fd (socks demo_world 4200)) = None
    \<and> \<not> m_readable (socks w' 4200) \<and> \<not> m_writable (socks w' 4200) \<and> m_power w' = m_power demo_world + 1"
  by (rule handle_close_releases [OF demo_inv]) (simp add: demo_world_def)

section \<open>Events\<close>

text \<open>C20. The two loops of \<open>epoll_process_events\<close> over the listeners cancel out: even when
  registering one of them fails part way, which tags its pointer and stops the loop, the second
  loop restores the array of pointers and unregisters every listener.\<close>

theorem listeners_restored:
  assumes "\<forall>s \<in> set (mpp_servers w). even s"
    and "\<forall>s \<in> set (mpp_servers w). opened (os w) (m_fd (socks w s))
      \<and> del_errno K (m_fd (socks w s)) = 0 \<and> registered (os w) (m_fd (socks w s)) = None"
  shows "\<exists>w'. add_servers K w [0..<length (mpp_servers w)] = Inr w'
    \<and> del_servers K w' [0..<length (mpp_servers w)] = w"
  using add_del_servers [OF assms] by metis

theorem listeners_restored_witness:
  "\<exists>w'. add_servers (demo_kernel\<lparr>add_errno := (\<lambda>_. 28)\<rparr>) demo_world [0..<1] = Inr w'
    \<and> del_servers (demo_kernel\<lparr>add_errno := (\<lambda>_. 28)\<rparr>) w' [0..<1] = demo_world"
  using listeners_restored [of demo_world "demo_kernel\<lparr>add_errno := (\<lambda>_. 28)\<rparr>"]
  by (simp add: demo_world_def demo_kernel_def demo_os_def demo_listener_def opened_def)

text \<open>C25. An event recorded for the previous use of a socket is dropped: creating a socket flips
  its stale bit.  One bit tells two generations apart; after two creations the event counts as
  one of the new socket.\<close>

theorem stale_event_dropped:
  assumes "even s" and "ev_data ev = s OR (if m_stale (socks w s) then 1 else 0)"
    and "hixo_create_socket w s fd1 type1 rd1 wr1 dc1 = Inr (HIXO_OK, w1)"
    and "hixo_create_socket w1 s fd2 type2 rd2 wr2 dc2 = Inr (HIXO_OK, w2)" and "fd2 \<noteq> -1"
  shows "post_event w1 ev = w1
    \<and> (HIXO_EVENT_IN AND ev_events ev \<noteq> 0 \<longrightarrow> m_readable (socks (post_event w2 ev) s))"
proof -
  have create: "m_stale (socks v' s) = (\<not> m_stale (socks v s)) \<and> m_fd (socks v' s) = fd"
    if "hixo_create_socket v s fd type rd wr dc = Inr (HIXO_OK, v')" for v v' fd type rd wr dc
    using that by (auto simp: hixo_create_socket_def Let_def split: if_splits)
  have data: "ev_data ev AND NOT 1 = s" "ev_data ev AND 1 = (if m_stale (socks w s) then 1 else 0)"
    using tag_bits [OF assms(1)] assms(2) by (simp_all split: if_splits)
  have "post_event w1 ev = w1"
    unfolding post_event_def Let_def data using create [OF assms(3)] by simp
  moreover have "m_readable (socks (post_event w2 ev) s)" if "HIXO_EVENT_IN AND ev_events ev \<noteq> 0"
  proof -
    have in_bit: "HIXO_EVENT_IN AND e \<noteq> 0 \<longleftrightarrow> odd e" for e
      by (simp add: HIXO_EVENT_IN_def one_and_eq odd_iff_mod_2_eq_one)
    have "m_fd (socks w2 s) \<noteq> -1" "m_stale (socks w2 s) = m_stale (socks w s)"
      using create [OF assms(3)] create [OF assms(4)] assms(5) by simp_all
    then show ?thesis
      using that unfolding post_event_def Let_def data in_bit
      by (simp add: HIXO_EVENT_IN_def even_or_iff split: if_split)
  qed
  ultimately show ?thesis by blast
qed

theorem stale_event_dropped_witness:
  "\<exists>w1 w2. hixo_create_socket demo_world 4304 9 HIXO_CMNCT_SOCKET (App_read 640) Null Null = Inr (HIXO_OK, w1)
    \<and> hixo_create_socket w1 4304 9 HIXO_CMNCT_SOCKET (App_read 640) Null Null = Inr (HIXO_OK, w2)
    \<and> post_event w1 \<lparr>ev_events = 1, ev_data = 4305\<rparr> = w1
    \<and> m_readable (socks (post_event w2 \<lparr>ev_events = 1, ev_data = 4305\<rparr>) 4304)"
proof -
  obtain w1 w2 where w: "hixo_create_socket demo_world 4304 9 HIXO_CMNCT_SOCKET (App_read 640) Null Null = Inr (HIXO_OK, w1)"
    "hixo_create_socket w1 4304 9 HIXO_CMNCT_SOCKET (App_read 640) Null Null = Inr (HIXO_OK, w2)"
    unfolding hixo_create_socket_cmnct by blast
  have "post_event w1 \<lparr>ev_events = 1, ev_data = 4305\<rparr> = w1
    \<and> (HIXO_EVENT_IN AND ev_events \<lparr>ev_events = 1, ev_data = 4305\<rparr> \<noteq> 0 \<longrightarrow>
       m_readable (socks (post_event w2 \<lparr>ev_events = 1, ev_data = 4305\<rparr>) 4304))"
    by (rule stale_event_dropped [OF _ _ w])
      (simp_all add: demo_world_def demo_client_def new_socket_def or_one_eq)
  then show ?thesis using w by (simp add: HIXO_EVENT_IN_def)
qed

section \<open>The module simple_http\<close>

text \<open>The bytes behind the blank line that ends the header of the page are the terminator of
  the header string and the body with its terminator, 175 bytes; \<open>Content-Length\<close> announces 174.\<close>

theorem http_page_framing:
  "take 4 (drop 99 (data_head @ data_body)) = bytes_of (CRLF @ CRLF)
   \<and> drop 103 (data_head @ data_body) = 0 # data_body
   \<and> length data_body = 174 \<and> last data_body = 0 \<and> length (drop 103 (data_head @ data_body)) = 175
   \<and> take 19 (drop 31 data_head) = bytes_of ''Content-Length: 174''"
  by (simp add: data_head_def data_body_def bytes_of_def CRLF_def)

text \<open>A \<open>writev\<close> that takes only a part of the page is followed by one that starts again at
  the first byte: the peer gets the start of the page twice, not its rest, and the connection is
  closed once the counts add up.  If the kernel takes no more after the first part, the handler
  returns with the page cut off and the connection neither shut down nor marked for closing.\<close>

theorem http_partial_write_restarts:
  assumes "n < length (data_head @ data_body)"
  shows "(writes K (m_fd (socks w s)) = [Inr n, Inr m] \<and> length (data_head @ data_body) \<le> n + m \<longrightarrow>
      sent (os (test_syn_send K s w)) (m_fd (socks w s)) = sent (os w) (m_fd (socks w s))
        @ take n (data_head @ data_body) @ take m (data_head @ data_body)
      \<and> m_close (socks (test_syn_send K s w) s))
    \<and> (writes K (m_fd (socks w s)) = [Inr n] \<longrightarrow>
      sent (os (test_syn_send K s w)) (m_fd (socks w s))
        = sent (os w) (m_fd (socks w s)) @ take n (data_head @ data_body)
      \<and> socks (test_syn_send K s w) = socks w \<and> shut (os (test_syn_send K s w)) = shut (os w))"
proof -
  let ?page = "data_head @ data_body"
  have pos: "?page \<noteq> []" by (simp add: data_head_def)
  have "writev_loop ?page [Inr n, Inr m] 0 [] = (True, take n ?page @ take m ?page)"
    if "length ?page \<le> n + m"
    using that assms pos by simp
  moreover have "writev_loop ?page [Inr n] 0 [] = (False, take n ?page)"
    using assms pos by simp
  ultimately show ?thesis
    by (simp add: test_syn_send_def Let_def write_out_def hixo_socket_close_def
        hixo_socket_shutdown_def del: writev_loop.simps)
qed

theorem http_partial_write_restarts_witness:
  "let K = demo_kernel\<lparr>writes := (\<lambda>_. [Inr 100, Inr 178])\<rparr>; w' = test_syn_send K 4200 demo_world
   in sent (os w') 7 = take 100 data_head @ take 178 (data_head @ data_body) \<and> m_close (socks w' 4200)"
proof -
  have len: "length data_head = 104" "length data_body = 174"
    by (simp_all add: data_head_def data_body_def bytes_of_def CRLF_def)
  have fd: "m_fd (socks demo_world 4200) = 7" by (simp add: demo_world_def demo_client_def new_socket_def)
  have old: "sent (os demo_world) 7 = []" by (simp add: demo_world_def demo_os_def)
  have "(100 :: nat) < length (data_head @ data_body)" by (simp add: len)
  from http_partial_write_restarts [OF this, of "demo_kernel\<lparr>writes := (\<lambda>_. [Inr 100, Inr 178])\<rparr>"
      demo_world 4200 178]
  show ?thesis by (simp add: len fd old Let_def)
qed

end
