(* ===== verification/Startup.thy ===== *)
theory Startup
  imports Http
begin

text \<open>
  Starting and stopping the event core: \<open>event_core_init_master\<close>, \<open>event_core_init_worker\<close> and
  their exits in \<open>src/modules/event_core_module.c\<close>, and the configuration of \<open>src/conf.c\<close> and
  \<open>src/modules/main_core_module.c\<close>.  The answers of the system calls are the records
  \<open>listen_calls\<close> and \<open>startup_calls\<close>.
\<close>

unbundle bit_operations_syntax

section \<open>The configuration\<close>

record hixo_conf =
  m_daemon :: bool
  m_worker_processes :: int
  m_max_connections :: int
  m_timer_resolution :: int
  m_connection_timeout :: int

definition create_conf :: "hixo_conf \<Rightarrow> int \<times> hixo_conf" where
  "create_conf p_conf = (HIXO_OK, p_conf\<lparr>m_daemon := False, m_worker_processes := 1,
     m_max_connections := 10000, m_timer_resolution := 1000, m_connection_timeout := 60\<rparr>)"

definition destroy_conf :: "hixo_conf \<Rightarrow> hixo_conf" where
  "destroy_conf p_conf = p_conf"

text \<open>The second component is \<open>g_rt_ctx.mp_conf\<close>, \<open>None\<close> for \<open>NULL\<close>.\<close>

definition main_core_init :: "hixo_conf \<Rightarrow> int \<times> hixo_conf \<times> hixo_conf option" where
  "main_core_init s_conf =
     (let r = create_conf s_conf
      in (fst r, snd r, if fst r = HIXO_OK then Some (snd r) else None))"

section \<open>Listening sockets\<close>

record listen_calls =
  aton_ok :: bool
  socket_fd :: "fd list \<Rightarrow> fd"
  socket_errno :: errno
  unblock_errno :: errno
  reuse_errno :: errno
  bind_errno :: "int \<Rightarrow> errno"
  listen_errno :: "int \<Rightarrow> errno"

definition SOMAXCONN :: int where "SOMAXCONN = 128"
definition INVALID_FD :: int where "INVALID_FD = -1"

definition event_core_create_listener ::
    "listen_calls \<Rightarrow> world \<Rightarrow> int \<Rightarrow> int \<Rightarrow> fd \<times> world" where
  "event_core_create_listener c w sin_port backlog =
     (if socket_errno c \<noteq> 0 then (INVALID_FD, w)
      else
        let f = socket_fd c (open_fds (os w));
            w1 = open_fd w f
        in if unblock_errno c \<noteq> 0 then (INVALID_FD, close_fd w1 f)
           else
             let w2 = w1\<lparr>os := (os w1)\<lparr>unblocked := (unblocked (os w1))(f := True)\<rparr>\<rparr>
             in if reuse_errno c \<noteq> 0 then (INVALID_FD, close_fd w2 f)
                else if bind_errno c sin_port \<noteq> 0 then (INVALID_FD, close_fd w2 f)
                else if listen_errno c backlog \<noteq> 0 then (INVALID_FD, close_fd w2 f)
                else (f, w2))"

definition event_core_destroy_listener :: "world \<Rightarrow> fd \<Rightarrow> world" where
  "event_core_destroy_listener w f = close_fd w f"

text \<open>The two nested loops over the servers of the modules, in order; \<open>sys i\<close> are the answers for
  the \<open>i\<close>-th of all servers; \<open>socket_fd\<close> chooses a descriptor from those that are open.  \<open>mpp_servers\<close> is the part of the array below \<open>valid_sockets\<close>.\<close>

fun create_listeners :: "(nat \<Rightarrow> listen_calls) \<Rightarrow> (nat \<times> hixo_listen_conf) list \<Rightarrow> world \<Rightarrow> world run" where
  "create_listeners sys [] w = Inr w"
| "create_listeners sys ((i, p_server) # servers) w =
     (let backlog = (if m_backlog p_server > 0 then m_backlog p_server else SOMAXCONN)
      in if \<not> aton_ok (sys i) then create_listeners sys servers w
         else bind_run (alloc_resource (cache_addr w) (pool_of w)) (\<lambda>(p', p_listener).
           assert_run (p_listener \<noteq> 0)
            (let r = event_core_create_listener (sys i) (put_pool w p') (htons (m_port p_server)) backlog
             in if fst r = INVALID_FD then
                  bind_run (free_sock (snd r) p_listener) (\<lambda>w2. create_listeners sys servers w2)
                else
                  bind_run (hixo_create_socket (snd r) p_listener (fst r) HIXO_LISTEN_SOCKET
                              Handle_accept Null Null) (\<lambda>(_, w3).
                    let w4 = w3\<lparr>mpp_servers := mpp_servers w3 @ [p_listener]\<rparr>;
                        w5 = w4\<lparr>cells := add_node (cells w4) (connections_cell w4) (socket_node p_listener)\<rparr>
                    in create_listeners sys servers w5))))"

section \<open>The master\<close>

text \<open>\<open>s_event_core_private\<close> beside the fields that are in \<open>world\<close>; \<open>segments\<close> are the shared
  memory segments that exist in the system, of those that this program has made: they are not the
  process's own, and other processes remove them too.  \<open>itimer\<close> is the interval of the process's timer in seconds and
  microseconds, \<open>(0, 0)\<close> when it does not run.\<close>

record core =
  wd :: world
  m_shmid :: int
  m_ev_timer_ms :: int
  itimer :: "int \<times> int"
  segments :: "int set"

record startup_calls =
  shmget_id :: int
  shmget_errno :: errno
  servers_block :: addr
  cache_block :: addr
  listen_of :: "nat \<Rightarrow> listen_calls"

definition event_core_init_master ::
    "startup_calls \<Rightarrow> hixo_conf \<Rightarrow> hixo_listen_conf list list \<Rightarrow> core \<Rightarrow> (int \<times> core) run" where
  "event_core_init_master sys p_conf apps c =
     (let c1 = c\<lparr>m_shmid := shmget_id sys\<rparr>
      in if shmget_errno sys \<noteq> 0 then Inr (HIXO_ERROR, c1)
         else
           let c2 = c1\<lparr>segments := insert (m_shmid c1) (segments c1)\<rparr>;
               remove_shm = (\<lambda>c. c\<lparr>segments := segments c - {m_shmid c}\<rparr>);
               nservers = sum_list (map length apps);
               w2 = (wd c2)\<lparr>mpp_servers := []\<rparr>
           in if servers_block sys = 0 then Inr (HIXO_ERROR, remove_shm (c2\<lparr>wd := w2\<rparr>))
              else
                let r = create_resource (cells w2) (cache_addr w2) (m_sockets_cache w2)
                          (nat (m_max_connections p_conf + int nservers)) sizeof_hixo_socket node_offset
                          (cache_block sys);
                    w3 = put_pool w2 (snd r)
                in if fst r = HIXO_ERROR then Inr (HIXO_ERROR, remove_shm (c2\<lparr>wd := w3\<rparr>))
                   else bind_run (create_listeners (listen_of sys) (enumerate 0 (concat apps)) w3) (\<lambda>w4.
                     if length (mpp_servers w4) = 0 then
                       (let d = destroy_resource (cells w4) (cache_addr w4) (m_sockets_cache w4)
                        in Inr (HIXO_ERROR, remove_shm (c2\<lparr>wd := put_pool w4 (fst d, fst (snd d))\<rparr>)))
                     else Inr (HIXO_OK, c2\<lparr>wd := w4\<rparr>)))"

fun exit_listeners :: "world \<Rightarrow> addr list \<Rightarrow> world run" where
  "exit_listeners w [] = Inr w"
| "exit_listeners w (p_listener # ps) =
     (if p_listener = 0 then exit_listeners w ps
      else bind_run (of_option (rm_node (cells w) (connections_cell w) (socket_node p_listener))) (\<lambda>(m, removed).
        assert_run removed
         (let w1 = event_core_destroy_listener (put_cells w m) (m_fd (socks w p_listener))
          in bind_run (free_sock w1 p_listener) (\<lambda>w2. exit_listeners w2 ps))))"

definition event_core_exit_master :: "core \<Rightarrow> core run" where
  "event_core_exit_master c =
     bind_run (exit_listeners (wd c) (mpp_servers (wd c))) (\<lambda>w1.
       let d = destroy_resource (cells w1) (cache_addr w1) (m_sockets_cache w1);
           c1 = c\<lparr>wd := put_pool w1 (fst d, fst (snd d)), segments := segments c - {m_shmid c}\<rparr>
       in Inr (c1\<lparr>m_shmid := -1\<rparr>))"

section \<open>The worker\<close>

definition HIXO_SYS_SCHED_INTERVAL_MS :: int where "HIXO_SYS_SCHED_INTERVAL_MS = 20"

definition HIXO_ITIMER_RESOLUTION_S :: int where "HIXO_ITIMER_RESOLUTION_S = 0"
definition HIXO_ITIMER_RESOLUTION_MS :: int where "HIXO_ITIMER_RESOLUTION_MS = 100 * 1000"

definition set_timer :: "hixo_conf \<Rightarrow> core \<Rightarrow> core" where
  "set_timer p_conf c =
     (if m_timer_resolution p_conf > HIXO_SYS_SCHED_INTERVAL_MS
      then c\<lparr>m_ev_timer_ms := m_timer_resolution p_conf\<rparr>
      else c\<lparr>m_ev_timer_ms := -1, itimer := (HIXO_ITIMER_RESOLUTION_S, HIXO_ITIMER_RESOLUTION_MS)\<rparr>)"

text \<open>The other processes share the segments: by the time of a \<open>shmat\<close> those of \<open>removed\<close> are gone.  The
  master, which is the child of the last worker, removes the segment as soon as it returns, while its parent
  is still on the way to attach it.  A segment that is marked for removal while somebody has it attached can
  still be attached; it is not in \<open>removed\<close>.\<close>

definition others_remove :: "int set \<Rightarrow> core \<Rightarrow> core" where
  "others_remove removed c = c\<lparr>segments := segments c - removed\<rparr>"

text \<open>\<open>lock_at\<close> is where \<open>shmat\<close> maps a segment that still exists then; \<open>EINVAL\<close> otherwise.  \<open>nodes\<close> are the
  nodes of the contexts of the application modules in \<open>gap_modules\<close>.\<close>

definition event_core_init_worker ::
    "hixo_conf \<Rightarrow> int set \<Rightarrow> (int \<Rightarrow> addr) \<Rightarrow> bool \<Rightarrow> addr list \<Rightarrow> core \<Rightarrow> (int \<times> core) run" where
  "event_core_init_worker p_conf removed lock_at event_module nodes c =
     (let c1 = others_remove removed (set_timer p_conf c)
      in assert_run (m_shmid c1 \<noteq> -1)
          (if m_shmid c1 \<notin> segments c1 then Inr (HIXO_ERROR, c1\<lparr>wd := (wd c1)\<lparr>accept_lock := -1\<rparr>\<rparr>)
           else
             let c2 = c1\<lparr>wd := (wd c1)\<lparr>accept_lock := lock_at (m_shmid c1)\<rparr>\<rparr>;
                 fail = (\<lambda>c. c\<lparr>wd := (wd c)\<lparr>accept_lock := 0\<rparr>\<rparr>);
                 c3 = (if event_module then c2\<lparr>wd := (wd c2)\<lparr>has_ev_ctx := True\<rparr>\<rparr> else c2)
             in if \<not> has_ev_ctx (wd c3) then Inr (HIXO_ERROR, fail c3)
                else
                  let c4 = c3\<lparr>wd := (wd c3)\<lparr>dlinks :=
                             foldl (\<lambda>d a. dlist_add_head d (app_ctx_list (wd c3)) a) (dlinks (wd c3)) nodes\<rparr>\<rparr>
                  in if dlist_empty (dlinks (wd c4)) (app_ctx_list (wd c4)) then Inr (HIXO_ERROR, fail c4)
                     else Inr (HIXO_OK, c4)))"

definition event_core_exit_worker :: "core \<Rightarrow> core" where
  "event_core_exit_worker c = c\<lparr>wd := (wd c)\<lparr>accept_lock := 0\<rparr>\<rparr>"

lemma set_timer_simps [simp]:
  "wd (set_timer p_conf c) = wd c" "m_shmid (set_timer p_conf c) = m_shmid c"
  "segments (set_timer p_conf c) = segments c"
  by (simp_all add: set_timer_def)

lemma others_remove_simps [simp]:
  "wd (others_remove R c) = wd c" "m_shmid (others_remove R c) = m_shmid c"
  "m_ev_timer_ms (others_remove R c) = m_ev_timer_ms c" "itimer (others_remove R c) = itimer c"
  "segments (others_remove R c) = segments c - R"
  by (simp_all add: others_remove_def)

section \<open>Creating the listeners\<close>

definition sockets_ok :: "listen_calls \<Rightarrow> bool" where
  "sockets_ok c \<longleftrightarrow> (\<forall>fds. 0 \<le> socket_fd c fds \<and> socket_fd c fds \<notin> set fds)"

text \<open>While the listeners are made, they are the only connections.\<close>

definition listening :: "addr list \<Rightarrow> world \<Rightarrow> addr list \<Rightarrow> bool" where
  "listening apps w fs \<longleftrightarrow>
     core_inv w (rev (mpp_servers w)) [] fs [] \<and> socks_inv w (rev (mpp_servers w)) apps
     \<and> dring (dlinks w) (app_ctx_list w) apps \<and> ring_apart w {}"

lemma close_fd_simps [simp]:
  "cells (close_fd w f) = cells w" "m_sockets_cache (close_fd w f) = m_sockets_cache w"
  "rt_ctx (close_fd w f) = rt_ctx w" "mpp_servers (close_fd w f) = mpp_servers w"
  "socks (close_fd w f) = socks w" "dlinks (close_fd w f) = dlinks w"
  "app_ctx_list (close_fd w f) = app_ctx_list w" "slots (close_fd w f) = slots w"
  "cache_addr (close_fd w f) = cache_addr w" "accept_lock (close_fd w f) = accept_lock w"
  "connections_cell (close_fd w f) = connections_cell w"
  "opened (os (close_fd w f)) = (opened (os w))(f := False)"
  by (simp_all add: close_fd_def slots_def cache_addr_def connections_cell_def)

text \<open>\<open>event_core_create_listener\<close> opens its descriptor or leaves nothing behind.\<close>

text \<open>That the calls for one server, the \<open>i\<close>-th, all succeed; and that the core can be initialised.\<close>

definition listens :: "listen_calls \<Rightarrow> int \<Rightarrow> int \<Rightarrow> bool" where
  "listens c sin_port backlog \<longleftrightarrow> socket_errno c = 0 \<and> unblock_errno c = 0 \<and> reuse_errno c = 0
     \<and> bind_errno c sin_port = 0 \<and> listen_errno c backlog = 0"

definition can_listen :: "(nat \<Rightarrow> listen_calls) \<Rightarrow> nat \<times> hixo_listen_conf \<Rightarrow> bool" where
  "can_listen sys x \<longleftrightarrow> aton_ok (sys (fst x)) \<and> listens (sys (fst x)) (htons (m_port (snd x)))
     (if m_backlog (snd x) > 0 then m_backlog (snd x) else SOMAXCONN)"

definition can_start :: "startup_calls \<Rightarrow> hixo_listen_conf list list \<Rightarrow> bool" where
  "can_start sys apps \<longleftrightarrow> shmget_errno sys = 0 \<and> servers_block sys \<noteq> 0 \<and> cache_block sys \<noteq> 0
     \<and> filter (can_listen (listen_of sys)) (enumerate 0 (concat apps)) \<noteq> []"

lemma create_listener_cases:
  assumes "sockets_ok c" and inv: "socks_inv w conns apps"
  obtains (failed) ost where "event_core_create_listener c w p b = (INVALID_FD, w\<lparr>os := ost\<rparr>)"
      and "opened ost = opened (os w)" and "registered ost = registered (os w)" and "\<not> listens c p b"
  | (ok) f ost where "event_core_create_listener c w p b = (f, w\<lparr>os := ost\<rparr>)" and "0 \<le> f"
      and "\<not> opened (os w) f" and "opened ost = (opened (os w))(f := True)"
      and "registered ost = registered (os w)" and "listens c p b"
proof -
  define f where "f = socket_fd c (open_fds (os w))"
  have f: "0 \<le> f" "\<not> opened (os w) f" using assms(1) by (simp_all add: sockets_ok_def opened_def f_def)
  have "registered (os w) f = None"
    using f(2) inv by (cases "registered (os w) f") (fastforce simp: socks_inv_def)+
  then have reg: "(registered (os w))(f := None) = registered (os w)" by (rule fun_upd_idem)
  have op: "(opened (os w))(f := False) = opened (os w)" using f(2) by (intro fun_upd_idem) simp
  have op2: "(\<lambda>fa. fa \<in> set (open_fds (os w)) \<and> fa \<noteq> f) = opened (os w)"
    using f(2) by (auto simp: opened_def fun_eq_iff)
  note defs = event_core_create_listener_def listens_def Let_def f_def [symmetric]
  consider "socket_errno c \<noteq> 0"
    | "socket_errno c = 0" "unblock_errno c \<noteq> 0"
    | "socket_errno c = 0" "unblock_errno c = 0" "reuse_errno c \<noteq> 0 \<or> bind_errno c p \<noteq> 0 \<or> listen_errno c b \<noteq> 0"
    | "socket_errno c = 0" "unblock_errno c = 0" "reuse_errno c = 0" "bind_errno c p = 0" "listen_errno c b = 0"
    by blast
  then show thesis
  proof cases
    case 1
    then show ?thesis by (intro failed [of "os w"]) (simp_all add: defs)
  next
    case 2
    then show ?thesis
      by (intro failed [of "os (close_fd (open_fd w f) f)"])
        (simp_all add: defs close_fd_def open_fd_def op reg)
  next
    case 3
    then show ?thesis
      by (intro failed [of "os (close_fd ((open_fd w f)\<lparr>os := (os (open_fd w f))\<lparr>unblocked :=
            (unblocked (os (open_fd w f)))(f := True)\<rparr>\<rparr>) f)"])
        (auto simp: defs close_fd_def open_fd_def op2 reg)
  next
    case 4
    then show ?thesis
      by (intro ok [of f "(os (open_fd w f))\<lparr>unblocked := (unblocked (os (open_fd w f)))(f := True)\<rparr>"])
        (simp_all add: defs open_fd_def f)
  qed
qed

lemma socks_inv_opened: "socks_inv w conns apps \<Longrightarrow> t \<in> set conns \<Longrightarrow> opened (os w) (m_fd (socks w t))"
  by (simp add: socks_inv_def)

lemma socks_inv_listener:
  assumes si: "socks_inv w conns apps" and servers: "set conns = set (mpp_servers w)"
    and s: "s \<notin> set conns" and f: "0 \<le> m_fd k" "\<not> opened (os w) (m_fd k)" and k: "listener k"
    and eq: "socks w' = (socks w)(s := k)" "mpp_servers w' = mpp_servers w @ [s]"
      "opened (os w') = (opened (os w))(m_fd k := True)" "registered (os w') = registered (os w)"
  shows "socks_inv w' (s # conns) apps"
proof -
  have old: "0 \<le> m_fd (socks w t)" "opened (os w) (m_fd (socks w t))" "t \<noteq> s" if "t \<in> set conns" for t
    using si s that by (auto simp: socks_inv_def)
  have "m_fd k \<noteq> m_fd (socks w t)"  "m_fd (socks w t) \<noteq> m_fd k"
    if "t \<in> set conns" for t using old(2) [OF that] f(2) by metis+
  moreover have "inj_on (\<lambda>t. m_fd (socks w t)) (set conns)" using si by (simp add: socks_inv_def)
  ultimately have "inj_on (\<lambda>t. m_fd (((socks w)(s := k)) t)) (set (s # conns))"
    using s by (auto simp: inj_on_def)
  moreover have "registered (os w) f = None" for f
    using si servers by (cases "registered (os w) f") (fastforce simp: socks_inv_def)+
  moreover have "distinct (mpp_servers w)" "\<forall>t \<in> set (mpp_servers w). listener (socks w t)"
    using si by (simp_all add: socks_inv_def)
  ultimately show ?thesis
    unfolding socks_inv_def eq using servers s f k old by auto
qed

lemma create_listeners_ok:
  assumes "listening apps w fs" and "length servers \<le> length fs"
    and "\<And>i. sockets_ok (sys i)"
  shows "\<exists>w' fs'. create_listeners sys servers w = Inr w' \<and> listening apps w' fs'
    \<and> length fs' + length (mpp_servers w') = length fs + length (mpp_servers w)
    \<and> length (mpp_servers w') = length (mpp_servers w) + length (filter (can_listen sys) servers)
    \<and> slots w' = slots w \<and> accept_lock w' = accept_lock w \<and> rt_ctx w' = rt_ctx w
    \<and> app_ctx_list w' = app_ctx_list w \<and> heap w' = heap w"
  using assms(1,2)
proof (induction servers arbitrary: w fs)
  case Nil
  then show ?case by auto
next
  case (Cons x servers)
  obtain i p_server where x: "x = (i, p_server)" by (cases x)
  let ?b = "if m_backlog p_server > 0 then m_backlog p_server else SOMAXCONN"
  from Cons.prems(2) obtain s fs' where fs: "fs = s # fs'" by (cases fs) auto
  have inv: "core_inv w (rev (mpp_servers w)) [] (s # fs') []" "socks_inv w (rev (mpp_servers w)) apps"
    and ring: "dring (dlinks w) (app_ctx_list w) apps" and apart: "ring_apart w {}"
    using Cons.prems(1) by (simp_all add: listening_def fs)
  from core_alloc [OF inv(1)] obtain p' where
    al: "alloc_resource (cache_addr w) (pool_of w) = Inr (p', s)"
    and core1: "core_inv (put_pool w p') (rev (mpp_servers w)) [] fs' [s]"
    and sl1: "slots (put_pool w p') = slots w" by blast
  have s: "s \<in> set (slots w)" using core_sets(3) [OF inv(1)] by simp
  have s0: "s \<noteq> 0" using slot_cells(1) [OF inv(1) s] by simp
  have si1: "socks_inv (put_pool w p') (rev (mpp_servers w)) apps"
    by (rule socks_inv_cong [OF inv(2)]) (use socks_inv_opened [OF inv(2)] in simp_all)
  show ?case
  proof (cases "aton_ok (sys i)")
    case False
    with Cons.IH [OF Cons.prems(1)] Cons.prems(2) show ?thesis by (simp add: x can_listen_def)
  next
    case True
    note run = x True al assert_run_def s0
    show ?thesis
      using assms(3) [of i] si1
    proof (cases rule: create_listener_cases [where p = "htons (m_port p_server)" and b = ?b])
      case (failed ost)
      let ?w1 = "(put_pool w p')\<lparr>os := ost\<rparr>"
      have none: "\<not> can_listen sys x" using failed(4) by (auto simp: can_listen_def x)
      have "core_inv ?w1 (rev (mpp_servers w)) [] fs' [s]" by (rule core_inv_cong [OF core1]) simp_all
      from free_sock_ok [OF this] obtain q where
        fr: "free_sock ?w1 s = Inr (put_pool ?w1 q)"
        and core2: "core_inv (put_pool ?w1 q) (rev (mpp_servers w)) [] (s # fs') []"
        and sl2: "slots (put_pool ?w1 q) = slots ?w1" by blast
      have sl: "slots (put_pool ?w1 q) = slots w" using sl2 sl1 by (simp add: slots_def)
      have "socks_inv (put_pool ?w1 q) (rev (mpp_servers w)) apps"
        by (rule socks_inv_cong [OF inv(2)]) (use socks_inv_opened [OF inv(2)] failed in simp_all)
      moreover have "ring_apart (put_pool ?w1 q) {}"
        by (rule ring_apart_cong [OF apart]) (simp_all add: sl)
      ultimately have "listening apps (put_pool ?w1 q) fs"
        using core2 ring by (simp add: listening_def fs)
      from Cons.IH [OF this] Cons.prems(2) show ?thesis
        using none by (simp add: run failed(1) fr Let_def sl)
    next
      case (ok f ost)
      let ?k = "new_socket f Handle_accept Null Null (HIXO_EVENT_IN OR HIXO_EVENT_FLAGS) (\<not> m_stale (socks w s))"
      let ?w1 = "(put_pool w p')\<lparr>os := ost\<rparr>"
      define w3 where "w3 = (set_sock ?w1 s (\<lambda>k. new_socket f Handle_accept Null Null
        (HIXO_EVENT_IN OR HIXO_EVENT_FLAGS) (\<not> m_stale k)))\<lparr>dlinks := empty_queues (dlinks w) s\<rparr>"
      define w4 where "w4 = w3\<lparr>mpp_servers := mpp_servers w3 @ [s]\<rparr>"
      define w5 where "w5 = put_cells w4 (add_node (cells w4) (connections_cell w4) (socket_node s))"
      have core4: "core_inv w4 (rev (mpp_servers w)) [] fs' [s]"
        by (rule core_inv_cong [OF core1]) (simp_all add: w4_def w3_def)
      have core5: "core_inv w5 (s # rev (mpp_servers w)) [] fs' []"
        unfolding w5_def by (rule core_connect [OF core4])
      have f5: "mpp_servers w5 = mpp_servers w @ [s]" "socks w5 = (socks w)(s := ?k)"
        "dlinks w5 = empty_queues (dlinks w) s" "app_ctx_list w5 = app_ctx_list w" "os w5 = ost"
        "rt_ctx w5 = rt_ctx w" "accept_lock w5 = accept_lock w" "heap w5 = heap w"
        by (simp_all add: w5_def w4_def w3_def)
      have sl5: "slots w5 = slots w"
        using sl1 by (simp add: w5_def w4_def w3_def slots_def)
      note rc = ring_apart_create [OF apart s ring, of "{}"]
      have "ring_apart w5 {}"
        by (rule ring_apart_cong [OF conjunct1 [OF rc]]) (use sl5 in \<open>simp_all add: f5 slots_def\<close>)
      moreover have "socks_inv w5 (s # rev (mpp_servers w)) apps"
        by (rule socks_inv_listener [OF inv(2), where k = ?k])
          (use ok core_sets(1) [OF inv(1)] in \<open>auto simp: f5 new_socket_def listener_def\<close>)
      ultimately have "listening apps w5 fs'"
        using core5 rc by (simp add: listening_def f5)
      from Cons.IH [OF this] Cons.prems(2) obtain w' fs'' where IH:
        "create_listeners sys servers w5 = Inr w'" "listening apps w' fs''"
        "length fs'' + length (mpp_servers w') = length fs' + length (mpp_servers w5)"
        "length (mpp_servers w') = length (mpp_servers w5) + length (filter (can_listen sys) servers)"
        "slots w' = slots w5" "accept_lock w' = accept_lock w5" "rt_ctx w' = rt_ctx w5"
        "app_ctx_list w' = app_ctx_list w5" "heap w' = heap w5" by (auto simp: fs)
      have "create_listeners sys (x # servers) w = create_listeners sys servers w5"
        using ok(2) by (simp add: run ok(1) hixo_create_socket_listen INVALID_FD_def Let_def
            w5_def w4_def w3_def put_cells_def)
      moreover have "can_listen sys x" using ok(6) True by (auto simp: can_listen_def x)
      ultimately show ?thesis using IH by (intro exI [of _ w'] exI [of _ fs'']) (simp add: f5 sl5 fs)
    qed
  qed
qed

section \<open>The master starts\<close>

text \<open>What the code relies on: a zeroed context, a descriptor and a segment that are new, and a
  block of memory apart from \<open>g_rt_ctx\<close> and the list heads.\<close>

definition block_apart :: "addr \<Rightarrow> int \<Rightarrow> addr \<Rightarrow> int \<Rightarrow> bool" where
  "block_apart a n b k \<longleftrightarrow> a + n \<le> b \<or> b + k \<le> a"

definition fresh :: "startup_calls \<Rightarrow> hixo_conf \<Rightarrow> nat \<Rightarrow> core \<Rightarrow> bool" where
  "fresh sys p_conf nservers c \<longleftrightarrow>
     (let w = wd c; n = m_max_connections p_conf + int nservers; blk = cache_block sys
      in mp_start (m_sockets_cache w) = 0 \<and> cells w (connections_cell w) = 0 \<and> cells w (posted_cell w) = 0
         \<and> registered (os w) = Map.empty \<and> dring (dlinks w) (app_ctx_list w) [] \<and> even (rt_ctx w)
         \<and> 0 \<le> m_max_connections p_conf \<and> 0 < n \<and> n < 2 ^ 31 \<and> 0 \<le> blk \<and> even blk
         \<and> block_apart (rt_ctx w) 88 blk (n * 104) \<and> block_apart (app_ctx_list w) 16 blk (n * 104)
         \<and> shmget_id sys \<noteq> -1 \<and> shmget_id sys \<notin> segments c \<and> (\<forall>i. sockets_ok (listen_of sys i)))"

lemma ring_apartI:
  assumes "dring (dlinks w) (app_ctx_list w) apps"
    and lay: "rsc_layout p 104 (m_sockets_cache w)"
    and "\<And>a. a \<in> set (app_ctx_list w # apps) \<Longrightarrow>
      block_apart a 16 (mp_start (m_sockets_cache w)) (m_capacity (m_sockets_cache w) * 104)"
  shows "ring_apart w S"
  unfolding ring_apart_def
proof (intro allI impI ballI)
  fix apps' s assume "dring (dlinks w) (app_ctx_list w) apps'" and s: "s \<in> set (slots w)"
  then have apps': "apps' = apps" using dring_unique assms(1) by blast
  have s': "s \<in> set (slot_list 104 (m_sockets_cache w))" using s by (simp add: slots_slot_list)
  have "mp_end (m_sockets_cache w) = mp_start (m_sockets_cache w) + m_capacity (m_sockets_cache w) * 104"
    using lay by (simp add: rsc_layout_def)
  then have "a \<noteq> readbuf_queue s" "a \<noteq> writebuf_queue s" if "a \<in> set (app_ctx_list w # apps)" for a
    using assms(3) [OF that] slot_range [OF lay s'] by (auto simp: block_apart_def readbuf_queue_def writebuf_queue_def)
  then show "readbuf_queue s \<notin> set (app_ctx_list w # apps') \<and> writebuf_queue s \<notin> set (app_ctx_list w # apps')"
    unfolding apps' by blast
qed

text \<open>The pool of the master when \<open>create_resource\<close> has succeeded.\<close>

lemma fresh_pool:
  assumes "fresh sys p_conf nservers c" and blk: "cache_block sys \<noteq> 0"
  defines "w \<equiv> (wd c)\<lparr>mpp_servers := []\<rparr>" and "n \<equiv> m_max_connections p_conf + int nservers"
  obtains q where "create_resource (cells w) (cache_addr w) (m_sockets_cache w) (nat n) sizeof_hixo_socket
      node_offset (cache_block sys) = (HIXO_OK, q)"
    and "listening [] (put_pool w q) (rev (slots (put_pool w q)))"
    and "slots (put_pool w q) = map (\<lambda>i. cache_block sys + int i * 104) [0..<nat n]"
proof -
  have f: "mp_start (m_sockets_cache w) = 0" "cells w (connections_cell w) = 0" "cells w (posted_cell w) = 0"
      "registered (os w) = Map.empty" "dring (dlinks w) (app_ctx_list w) []" "even (rt_ctx w)"
      "0 < n" "n < 2 ^ 31" "0 < cache_block sys" "even (cache_block sys)"
      "block_apart (rt_ctx w) 88 (cache_block sys) (n * 104)"
      "block_apart (app_ctx_list w) 16 (cache_block sys) (n * 104)"
    using assms(1) blk
    by (simp_all add: fresh_def Let_def w_def n_def connections_cell_def posted_cell_def)
  have ev: "even (cache_addr w)" using f(6) by (simp add: cache_addr_def)
  obtain m r where run: "create_resource (cells w) (cache_addr w) (m_sockets_cache w) (nat n) sizeof_hixo_socket
      node_offset (cache_block sys) = (HIXO_OK, m, r)"
    and inv: "rsc_inv (cache_addr w) (int sizeof_hixo_socket) (m, r) (rev (slot_list (int sizeof_hixo_socket) r))"
    and r: "mp_start r = cache_block sys" "m_capacity r = int (nat n)" "m_offset r = int node_offset"
    and other: "\<And>a. a \<noteq> free_list_cell (cache_addr w) \<Longrightarrow>
      a < cache_block sys \<or> cache_block sys + int (nat n) * int sizeof_hixo_socket \<le> a \<Longrightarrow> m a = cells w a"
    by (rule create_resource_ok [OF f(1) _ f(9), of "nat n" node_offset sizeof_hixo_socket "cache_addr w" "cells w"])
      (use f ev in \<open>auto simp: sizeof_hixo_socket_def node_offset_def block_apart_def cache_addr_def\<close>)
  let ?w = "put_pool w (m, r)"
  have lay: "rsc_layout (cache_addr w) 104 r" using inv by (simp add: rsc_inv_def sizeof_hixo_socket_def)
  have n: "int (nat n) = n" using f(7) by simp
  have "mp_end r = cache_block sys + n * 104" using lay r n by (simp add: rsc_layout_def)
  then have apart: "rt_ctx w + 88 \<le> mp_start r \<or> mp_end r \<le> rt_ctx w"
    using f(11) r(1) by (simp add: block_apart_def)
  have zero: "m (connections_cell w) = 0" "m (posted_cell w) = 0"
    using f(2,3,11) other [of "connections_cell w"] other [of "posted_cell w"] n list_cells_apart [of w]
    by (auto simp: block_apart_def connections_cell_def posted_cell_def sizeof_hixo_socket_def)
  have "core_inv ?w [] [] (rev (slots ?w)) []"
    using inv r apart zero f(10) distinct_slot_list [OF lay]
    by (simp add: core_inv_def slots_def sizeof_hixo_socket_def)
  moreover have "socks_inv ?w [] []" using f(4) by (simp add: socks_inv_def w_def)
  moreover have "ring_apart ?w {}"
    by (rule ring_apartI [where p = "cache_addr w" and apps = "[]"]) (use f(5,12) lay r n in auto)
  ultimately have "listening [] ?w (rev (slots ?w))"
    using f(5) by (simp add: listening_def) (simp add: w_def)
  with run show ?thesis
    by (intro that [of "(m, r)"]) (use r n in \<open>simp_all add: slots_def slot_list_def sizeof_hixo_socket_def\<close>)
qed

text \<open>\<open>event_core_init_master\<close> gives a master that listens, or takes everything back.\<close>

lemma init_master_ok:
  assumes fresh: "fresh sys p_conf (sum_list (map length apps)) c"
  obtains (failed) c' where "event_core_init_master sys p_conf apps c = Inr (HIXO_ERROR, c')"
      and "segments c' = segments c" and "\<not> can_start sys apps"
  | (ok) c' fs where "event_core_init_master sys p_conf apps c = Inr (HIXO_OK, c')"
      and "listening [] (wd c') fs" and "mpp_servers (wd c') \<noteq> []"
      and "m_shmid c' = shmget_id sys" and "segments c' = insert (shmget_id sys) (segments c)"
      and "int (length fs + length (mpp_servers (wd c'))) = m_max_connections p_conf + int (sum_list (map length apps))"
      and "slots (wd c') = map (\<lambda>i. cache_block sys + int i * 104)
             [0..<nat (m_max_connections p_conf + int (sum_list (map length apps)))]"
      and "app_ctx_list (wd c') = app_ctx_list (wd c)"
      and "heap (wd c') = heap (wd c)" and "can_start sys apps"
proof -
  let ?n = "sum_list (map length apps)" and ?w = "(wd c)\<lparr>mpp_servers := []\<rparr>"
  note defs = event_core_init_master_def can_start_def Let_def
  consider "shmget_errno sys \<noteq> 0" | "shmget_errno sys = 0" "servers_block sys = 0"
    | "shmget_errno sys = 0" "servers_block sys \<noteq> 0" "cache_block sys = 0"
    | "shmget_errno sys = 0" "servers_block sys \<noteq> 0" "cache_block sys \<noteq> 0" by blast
  then show thesis
  proof cases
    case 1
    then show ?thesis by (intro failed [of "c\<lparr>m_shmid := shmget_id sys\<rparr>"]) (simp_all add: defs)
  next
    case 2
    from 2 fresh show ?thesis
      by - (rule failed, simp add: defs, simp add: fresh_def Let_def, simp add: defs)
  next
    case 3
    have "create_resource (cells ?w) (cache_addr ?w) (m_sockets_cache ?w)
        (nat (m_max_connections p_conf + int ?n)) sizeof_hixo_socket node_offset 0 = (HIXO_ERROR, cells ?w, m_sockets_cache ?w)"
      using fresh by (simp add: create_resource_def fresh_def Let_def sizeof_hixo_socket_def cache_addr_def)
    with 3 fresh show ?thesis
      by - (rule failed, simp add: defs, simp add: fresh_def Let_def, simp add: defs)
  next
    case 4
    from fresh_pool [OF fresh 4(3)] obtain q where
      cr: "create_resource (cells ?w) (cache_addr ?w) (m_sockets_cache ?w)
        (nat (m_max_connections p_conf + int ?n)) sizeof_hixo_socket node_offset (cache_block sys) = (HIXO_OK, q)"
      and li: "listening [] (put_pool ?w q) (rev (slots (put_pool ?w q)))"
      and sl: "slots (put_pool ?w q) = map (\<lambda>i. cache_block sys + int i * 104) [0..<nat (m_max_connections p_conf + int ?n)]"
      by blast
    have max: "0 \<le> m_max_connections p_conf" and socks: "\<And>i. sockets_ok (listen_of sys i)"
      and shm: "shmget_id sys \<notin> segments c"
      using fresh by (simp_all add: fresh_def Let_def)
    have "length (enumerate 0 (concat apps)) \<le> length (rev (slots (put_pool ?w q)))"
      using max by (simp add: sl length_concat)
    from create_listeners_ok [where sys = "listen_of sys", OF li this socks] max obtain w' fs where cl: "create_listeners (listen_of sys) (enumerate 0 (concat apps)) (put_pool ?w q) = Inr w'"
      and w': "listening [] w' fs" "length fs + length (mpp_servers w') = nat (m_max_connections p_conf + int ?n)"
        "slots w' = slots (put_pool ?w q)" "app_ctx_list w' = app_ctx_list (wd c)" "heap w' = heap (wd c)"
      and count: "length (mpp_servers w') = length (filter (can_listen (listen_of sys)) (enumerate 0 (concat apps)))"
      by (auto simp: length_concat sl)
    have start: "can_start sys apps \<longleftrightarrow> mpp_servers w' \<noteq> []" using 4 count by (auto simp: can_start_def)
    show ?thesis
    proof (cases "mpp_servers w' = []")
      case True
      with 4 cr cl shm show ?thesis
        by - (rule failed, simp add: event_core_init_master_def Let_def HIXO_OK_def HIXO_ERROR_def, simp, simp add: start)
    next
      case False
      with 4 cr cl show ?thesis
        by (intro ok [of "c\<lparr>m_shmid := shmget_id sys, segments := insert (shmget_id sys) (segments c), wd := w'\<rparr>" fs])
          (use w' sl max in \<open>simp_all add: start event_core_init_master_def Let_def HIXO_OK_def HIXO_ERROR_def\<close>)
    qed
  qed
qed

section \<open>The worker starts\<close>

lemma add_nodes_ring:
  assumes "dring d h xs" and "distinct nodes" and "set nodes \<inter> set (h # xs) = {}"
  shows "dring (foldl (\<lambda>d a. dlist_add_head d h a) d nodes) h (rev nodes @ xs)"
  using assms
proof (induction nodes arbitrary: d xs)
  case (Cons a nodes)
  have "dring (dlist_add_head d h a) h (a # xs)"
    by (rule dlist_add_head_ring [OF Cons.prems(1)]) (use Cons.prems(3) in auto)
  from Cons.IH [OF this] Cons.prems show ?case by auto
qed simp

definition modules_ok :: "core \<Rightarrow> addr list \<Rightarrow> bool" where
  "modules_ok c nodes \<longleftrightarrow> nodes \<noteq> [] \<and> distinct nodes \<and> 0 \<notin> set nodes \<and> app_ctx_list (wd c) \<notin> set nodes
     \<and> (\<forall>s \<in> set (slots (wd c)). readbuf_queue s \<notin> set nodes \<and> writebuf_queue s \<notin> set nodes)"

lemma init_worker_ok:
  assumes li: "listening [] (wd c) fs" and shm: "m_shmid c \<in> segments c - removed" "m_shmid c \<noteq> -1"
    and lock: "lock_at (m_shmid c) \<noteq> 0" and nodes: "modules_ok c nodes"
  obtains c' where "event_core_init_worker p_conf removed lock_at True nodes c = Inr (HIXO_OK, c')"
    and "worker_inv ring_apart (rev nodes) (wd c') (rev (mpp_servers (wd c'))) [] fs"
    and "mpp_servers (wd c') = mpp_servers (wd c)" and "m_shmid c' = m_shmid c" and "segments c' = segments c - removed"
    and "socks (wd c') = socks (wd c)" and "heap (wd c') = heap (wd c)" and "slots (wd c') = slots (wd c)" and "app_ctx_list (wd c') = app_ctx_list (wd c)"
    and "m_ev_timer_ms c' = m_ev_timer_ms (set_timer p_conf c)" and "itimer c' = itimer (set_timer p_conf c)"
proof -
  let ?d = "foldl (\<lambda>d a. dlist_add_head d (app_ctx_list (wd c)) a) (dlinks (wd c)) nodes"
  let ?w = "(wd c)\<lparr>accept_lock := lock_at (m_shmid c), has_ev_ctx := True, dlinks := ?d\<rparr>"
  define c' where "c' = (others_remove removed (set_timer p_conf c))\<lparr>wd := ?w\<rparr>"
  have inv: "core_inv (wd c) (rev (mpp_servers (wd c))) [] fs []" "socks_inv (wd c) (rev (mpp_servers (wd c))) []"
    "dring (dlinks (wd c)) (app_ctx_list (wd c)) []" "ring_apart (wd c) {}"
    using li by (simp_all add: listening_def)
  have ring: "dring ?d (app_ctx_list (wd c)) (rev nodes)"
    using add_nodes_ring [OF inv(3), of nodes] nodes by (auto simp: modules_ok_def)
  have ne: "\<not> dlist_empty ?d (app_ctx_list (wd c))"
    using dlist_empty_ring [OF ring] nodes by (simp add: modules_ok_def)
  have run: "event_core_init_worker p_conf removed lock_at True nodes c = Inr (HIXO_OK, c')"
    using shm ne by (cases "wd c") (simp add: event_core_init_worker_def c'_def Let_def run_simps)
  have "core_inv ?w (rev (mpp_servers (wd c))) [] fs []" by (rule core_inv_cong [OF inv(1)]) simp_all
  moreover have "socks_inv ?w (rev (mpp_servers (wd c))) (rev nodes)"
    using inv(2) by (simp add: socks_inv_def client_def)
  moreover have "ring_apart ?w {}"
    unfolding ring_apart_def
  proof (intro allI impI)
    fix apps' assume "dring (dlinks ?w) (app_ctx_list ?w) apps'"
    then have "apps' = rev nodes" using dring_unique [OF ring] by simp
    with nodes inv(3,4) show "\<forall>s \<in> set (slots ?w). readbuf_queue s \<notin> set (app_ctx_list ?w # apps')
        \<and> writebuf_queue s \<notin> set (app_ctx_list ?w # apps')"
      by (auto simp: modules_ok_def ring_apart_def slots_def)
  qed
  ultimately have "worker_inv ring_apart (rev nodes) ?w (rev (mpp_servers (wd c))) [] fs"
    using ring nodes lock by (simp add: worker_inv_def base_inv_def modules_ok_def)
  then show ?thesis by (intro that [OF run]) (simp_all add: c'_def slots_def)
qed

section \<open>The master stops\<close>

lemma exit_listeners_ok:
  assumes "core_inv w conns ps fs []" and "distinct xs" and "set xs \<subseteq> set conns"
  shows "\<exists>w' conns' fs'. exit_listeners w xs = Inr w' \<and> core_inv w' conns' ps fs' []
    \<and> set conns' = set conns - set xs
    \<and> opened (os w') = (\<lambda>f. opened (os w) f \<and> f \<notin> (\<lambda>s. m_fd (socks w s)) ` set xs)
    \<and> socks w' = socks w \<and> dlinks w' = dlinks w \<and> slots w' = slots w"
  using assms
proof (induction xs arbitrary: w conns fs)
  case Nil
  then show ?case by auto
next
  case (Cons s xs)
  have s: "s \<in> set conns" "s \<noteq> 0"
    using Cons.prems(3) core_sets(2) [OF Cons.prems(1)] slot_cells(1) [OF Cons.prems(1)] by auto
  from core_disconnect [OF Cons.prems(1) s(1)] obtain m where
    rm: "rm_node (cells w) (connections_cell w) (socket_node s) = Some (m, True)"
    and core1: "core_inv (put_cells w m) (remove1 s conns) ps fs [s]" by blast
  let ?w1 = "event_core_destroy_listener (put_cells w m) (m_fd (socks w s))"
  have "core_inv ?w1 (remove1 s conns) ps fs [s]"
    by (rule core_inv_cong [OF core1]) (simp_all add: event_core_destroy_listener_def)
  from free_sock_ok [OF this] obtain p where fr: "free_sock ?w1 s = Inr (put_pool ?w1 p)"
    and core2: "core_inv (put_pool ?w1 p) (remove1 s conns) ps (s # fs) []"
    and sl: "slots (put_pool ?w1 p) = slots ?w1" by blast
  have dist: "distinct conns" using core_sets(1) [OF Cons.prems(1)] by simp
  have "set xs \<subseteq> set (remove1 s conns)" using Cons.prems(2,3) dist by auto
  from Cons.IH [OF core2 _ this] Cons.prems(2) obtain w' conns' fs' where IH:
    "exit_listeners (put_pool ?w1 p) xs = Inr w'" "core_inv w' conns' ps fs' []"
    "set conns' = set (remove1 s conns) - set xs"
    "opened (os w') = (\<lambda>f. opened (os (put_pool ?w1 p)) f \<and> f \<notin> (\<lambda>s. m_fd (socks (put_pool ?w1 p) s)) ` set xs)"
    "socks w' = socks (put_pool ?w1 p)" "dlinks w' = dlinks (put_pool ?w1 p)" "slots w' = slots (put_pool ?w1 p)"
    by auto
  have "exit_listeners w (s # xs) = exit_listeners (put_pool ?w1 p) xs"
    using s(2) by (simp add: rm fr run_simps)
  with IH(1) have "exit_listeners w (s # xs) = Inr w'" by simp
  moreover have "set conns' = set conns - set (s # xs)" using IH(3) dist by auto
  moreover have "slots w' = slots w" using IH(7) sl by (simp add: event_core_destroy_listener_def)
  moreover have "opened (os w') = (\<lambda>f. opened (os w) f \<and> f \<notin> (\<lambda>s. m_fd (socks w s)) ` set (s # xs))"
    by (auto simp: IH(4) event_core_destroy_listener_def fun_eq_iff)
  moreover have "socks w' = socks w" "dlinks w' = dlinks w"
    by (simp_all add: IH(5,6) event_core_destroy_listener_def)
  ultimately show ?case using IH(2) by blast
qed

lemma exit_master_ok:
  assumes "core_inv (wd c) conns ps fs []" and "socks_inv (wd c) conns apps"
  obtains c' where "event_core_exit_master c = Inr c'"
    and "opened (os (wd c')) = (\<lambda>f. opened (os (wd c)) f \<and>
           f \<notin> (\<lambda>s. m_fd (socks (wd c) s)) ` set (mpp_servers (wd c)))"
    and "mp_start (m_sockets_cache (wd c')) = 0" and "m_capacity (m_sockets_cache (wd c')) = 0"
    and "cells (wd c') (free_list_cell (cache_addr (wd c'))) = 0"
    and "m_shmid c' = -1" and "segments c' = segments c - {m_shmid c}"
proof -
  have "distinct (mpp_servers (wd c))" "set (mpp_servers (wd c)) \<subseteq> set conns"
    using assms(2) by (simp_all add: socks_inv_def)
  from exit_listeners_ok [OF assms(1) this] obtain w' where
    run: "exit_listeners (wd c) (mpp_servers (wd c)) = Inr w'"
    and op: "opened (os w') = (\<lambda>f. opened (os (wd c)) f \<and> f \<notin> (\<lambda>s. m_fd (socks (wd c) s)) ` set (mpp_servers (wd c)))"
    by blast
  obtain m r fr where d: "destroy_resource (cells w') (cache_addr w') (m_sockets_cache w') = (m, r, fr)"
    by (metis prod_cases3)
  from run d show ?thesis
    by (intro that [of "c\<lparr>wd := put_pool w' (m, r), segments := segments c - {m_shmid c}, m_shmid := -1\<rparr>"])
      (use destroy_resource_reset [OF d] op in \<open>simp_all add: event_core_exit_master_def\<close>)
qed

text \<open>A worker that starts after the segment is gone fails the assertion about it.\<close>

lemma init_worker_without_segment:
  "m_shmid c = -1 \<Longrightarrow> event_core_init_worker p_conf removed lock_at ev nodes c = Inl Assert_failed"
  by (simp add: event_core_init_worker_def Let_def assert_run_def)

end
