(* ===== verification/Numbers.thy ===== *)
theory Numbers
  imports Prelude
begin

text \<open>
  The integer formatting of \<open>include/common.h\<close>: \<open>abs_value\<close>, \<open>count_places\<close>, \<open>__str_reverse__\<close>
  and \<open>wtoa\<close>.  An \<open>intptr_t\<close> is an \<open>int\<close> in its range; a character array is the list of its
  elements, and an access outside it is \<open>Bad_access\<close>.  The decimal notation \<open>decimal\<close> is the
  reference the routines are compared with.
\<close>

section \<open>The code\<close>

definition abs_value :: "int \<Rightarrow> int" where
  "abs_value num = (if INTEGER_MIN = num then -1 else if num > 0 then num else - num)"

definition places_max :: "int list" where
  "places_max = [9, 99, 999, 9999, 99999, 999999, 9999999, 99999999, 999999999, 9999999999,
     99999999999, 999999999999, 9999999999999, 99999999999999, 999999999999999,
     9999999999999999, 99999999999999999, 999999999999999999]"

function places_loop :: "int \<Rightarrow> int \<Rightarrow> int \<Rightarrow> int \<Rightarrow> int" where
  "places_loop positive start end rslt =
     (if start < end then
        (let middle = start + (end - start) div 2
         in if positive \<le> places_max ! nat middle
            then places_loop positive start middle (middle + 1)
            else places_loop positive (middle + 1) end (middle + 2))
      else rslt)"
  by auto
termination by (relation "measure (\<lambda>(p, s, e, r). nat (e - s))") auto

declare places_loop.simps [simp del]

definition count_places :: "int \<Rightarrow> int" where
  "count_places num =
     (let positive = (if INTEGER_MIN = num then abs_value (num + 1) else abs_value num);
          rslt = places_loop positive 0 (int (length places_max)) 0
      in if num < 0 then rslt + 1 else rslt)"

text \<open>Arrays of characters.\<close>

definition get_char :: "char list \<Rightarrow> int \<Rightarrow> char run" where
  "get_char buf i = (if 0 \<le> i \<and> i < int (length buf) then Inr (buf ! nat i) else Inl Bad_access)"

definition put_char :: "char list \<Rightarrow> int \<Rightarrow> char \<Rightarrow> char list run" where
  "put_char buf i c = (if 0 \<le> i \<and> i < int (length buf) then Inr (buf[nat i := c]) else Inl Bad_access)"

text \<open>The loop of \<open>__str_reverse__\<close> and of \<open>strreverse\<close>.\<close>

function reverse_loop :: "char list \<Rightarrow> int \<Rightarrow> int \<Rightarrow> char list run" where
  "reverse_loop str i j =
     (if i < j then
        bind_run (get_char str i) (\<lambda>tmp.
        bind_run (get_char str j) (\<lambda>c.
        bind_run (put_char str i c) (\<lambda>str1.
        bind_run (put_char str1 j tmp) (\<lambda>str2.
        reverse_loop str2 (i + 1) (j - 1)))))
      else Inr str)"
  by auto
termination by (relation "measure (\<lambda>(s, i, j). nat (j - i))") auto

declare reverse_loop.simps [simp del]

definition str_reverse :: "char list \<Rightarrow> int \<Rightarrow> char list run" where
  "str_reverse str len = reverse_loop str 0 (len - 1)"

definition STR_INTEGER_MIN :: string where
  "STR_INTEGER_MIN = ''-9223372036854775808''"

text \<open>\<open>char_of\<close> is the conversion to \<open>char\<close>; 48 is the code of the digit 0.\<close>

function digits_loop :: "int \<Rightarrow> char list \<Rightarrow> int \<Rightarrow> (char list \<times> int) run" where
  "digits_loop value buf end =
     (if value > 0 then
        (let next_value = value div 10
         in bind_run (put_char buf end (char_of (value - next_value * 10 + 48))) (\<lambda>buf1.
              digits_loop next_value buf1 (end + 1)))
      else Inr (buf, end))"
  by auto
termination by (relation "measure (\<lambda>(v, b, e). nat v)") auto

declare digits_loop.simps [simp del]

definition copy_chars :: "char list \<Rightarrow> string \<Rightarrow> char list run" where
  "copy_chars buf s = (if length s \<le> length buf then Inr (s @ drop (length s) buf) else Inl Bad_access)"

text \<open>\<open>None\<close> is the result \<open>NULL\<close>.  \<open>strncpy\<close> is given the length of the literal without its
  terminator.\<close>

definition wtoa :: "int \<Rightarrow> int \<Rightarrow> char list \<Rightarrow> int \<Rightarrow> char list option run" where
  "wtoa num places buf len =
     (let value = abs_value num
      in if places > len - 1 then Inr None
         else if INTEGER_MIN = num then bind_run (copy_chars buf STR_INTEGER_MIN) (\<lambda>b. Inr (Some b))
         else
           bind_run
             (if value = 0 then bind_run (put_char buf 0 (CHR ''0'')) (\<lambda>b. Inr (b, 1))
              else
                bind_run (digits_loop value buf 0) (\<lambda>(b1, end).
                bind_run (if num < 0 then bind_run (put_char b1 end (CHR ''-'')) (\<lambda>b. Inr (b, end + 1))
                          else Inr (b1, end)) (\<lambda>(b2, end2).
                bind_run (str_reverse b2 end2) (\<lambda>b3. Inr (b3, end2)))))
             (\<lambda>(b4, end3). bind_run (put_char b4 end3 (CHR 0x00)) (\<lambda>b5. Inr (Some b5))))"

section \<open>Decimal notation\<close>

definition digit :: "nat \<Rightarrow> char" where
  "digit d = char_of (d + 48)"

fun digits_le :: "nat \<Rightarrow> char list" where
  "digits_le n = (if n = 0 then [] else digit (n mod 10) # digits_le (n div 10))"

declare digits_le.simps [simp del]

definition decimal :: "int \<Rightarrow> string" where
  "decimal x = (if x = 0 then ''0''
     else (if x < 0 then ''-'' else []) @ rev (digits_le (nat \<bar>x\<bar>)))"

lemma digits_le_0 [simp]: "digits_le 0 = []"
  by (simp add: digits_le.simps)

lemma digits_le_pos: "0 < n \<Longrightarrow> digits_le n = digit (n mod 10) # digits_le (n div 10)"
  by (subst digits_le.simps) simp

lemma length_digits_le: "length (digits_le n) \<le> k \<longleftrightarrow> n < 10 ^ k"
proof (induction k arbitrary: n)
  case 0
  then show ?case by (cases "n = 0") (simp_all add: digits_le_pos)
next
  case (Suc k)
  show ?case
  proof (cases "n = 0")
    case False
    then have "length (digits_le n) \<le> Suc k \<longleftrightarrow> n div 10 < 10 ^ k"
      using Suc by (simp add: digits_le_pos)
    also have "\<dots> \<longleftrightarrow> n < 10 ^ Suc k" by (simp add: div_less_iff_less_mult mult.commute)
    finally show ?thesis .
  qed simp
qed

section \<open>Counting the places\<close>

lemma places_max_nth: "i < 18 \<Longrightarrow> places_max ! i = 10 ^ (i + 1) - 1"
  by (simp add: places_max_def less_Suc_eq numeral_eq_Suc) auto

lemma places_max_mono: "i \<le> j \<Longrightarrow> j < 18 \<Longrightarrow> places_max ! i \<le> places_max ! j"
proof -
  assume "i \<le> j" "j < 18"
  moreover from this have "(10 :: int) ^ (i + 1) \<le> 10 ^ (j + 1)" by (intro power_increasing) simp_all
  ultimately show ?thesis by (simp only: places_max_nth)
qed

lemma places_loop_spec:
  assumes "0 \<le> start" and "start \<le> end" and "end \<le> 18"
    and "\<forall>i. i < nat start \<longrightarrow> places_max ! i < positive"
    and "\<forall>i. nat end \<le> i \<and> i < 18 \<longrightarrow> positive \<le> places_max ! i"
    and "start = end \<Longrightarrow> rslt = start + 1"
  shows "\<exists>k \<le> 18. places_loop positive start end rslt = int k + 1
    \<and> (\<forall>i < k. places_max ! i < positive) \<and> (\<forall>i. k \<le> i \<and> i < 18 \<longrightarrow> positive \<le> places_max ! i)"
  using assms
proof (induction positive start "end" rslt rule: places_loop.induct)
  case (1 positive start "end" rslt)
  show ?case
  proof (cases "start < end")
    case False
    then have "start = end" using "1.prems"(2) by simp
    then show ?thesis using "1.prems"
      by (intro exI [of _ "nat start"]) (simp add: places_loop.simps)
  next
    case True
    define middle where "middle = start + (end - start) div 2"
    have m: "start \<le> middle" "middle < end" "nat middle < 18"
      using True "1.prems"(1,3) by (simp_all add: middle_def)
    show ?thesis
    proof (cases "positive \<le> places_max ! nat middle")
      case le: True
      have "places_max ! nat middle \<le> places_max ! i" if "nat middle \<le> i" "i < 18" for i
        using that by (rule places_max_mono)
      with le have "\<forall>i. nat middle \<le> i \<and> i < 18 \<longrightarrow> positive \<le> places_max ! i" by fastforce
      then show ?thesis
        using "1.IH"(1) [OF True middle_def le] "1.prems" True m le
        by (simp add: places_loop.simps [of positive start "end"] middle_def [symmetric] Let_def)
    next
      case gt: False
      have "places_max ! i \<le> places_max ! nat middle" if "i < nat (middle + 1)" for i
        using that m by (intro places_max_mono) auto
      with gt have "\<forall>i. i < nat (middle + 1) \<longrightarrow> places_max ! i < positive" by fastforce
      then show ?thesis
        using "1.IH"(2) [OF True middle_def gt] "1.prems" True m gt
        by (simp add: places_loop.simps [of positive start "end"] middle_def [symmetric] Let_def)
    qed
  qed
qed

lemma places_loop_digits:
  assumes "0 \<le> p" and "p < 10 ^ 19"
  shows "places_loop p 0 (int (length places_max)) 0 = (if p = 0 then 1 else int (length (digits_le (nat p))))"
proof -
  have len: "length places_max = 18" by (simp add: places_max_def)
  obtain k where k: "k \<le> 18" "places_loop p 0 18 0 = int k + 1"
    and below: "\<forall>i < k. places_max ! i < p" and above: "\<forall>i. k \<le> i \<and> i < 18 \<longrightarrow> p \<le> places_max ! i"
    using places_loop_spec [of 0 18 p 0] by auto
  show ?thesis
  proof (cases "p = 0")
    case True
    then have "k = 0" using below k(1) by (cases k) (auto simp: places_max_nth)
    then show ?thesis using True k(2) len by simp
  next
    case False
    have "p < 10 ^ (k + 1)"
      using above k(1) assms(2) by (cases "k = 18") (auto simp: places_max_nth)
    then have "length (digits_le (nat p)) \<le> k + 1" using assms(1)
      unfolding length_digits_le by (simp add: nat_less_iff)
    moreover have "\<not> length (digits_le (nat p)) \<le> k"
    proof (cases k)
      case 0
      then show ?thesis using False assms(1) by (simp add: digits_le_pos)
    next
      case (Suc j)
      then have "places_max ! j < p" "j < 18" using below k(1) by simp_all
      then have "10 ^ k \<le> p" using Suc by (simp add: places_max_nth)
      then show ?thesis using assms(1) unfolding length_digits_le by (simp add: nat_less_iff not_less)
    qed
    ultimately have "length (digits_le (nat p)) = k + 1" by simp
    then show ?thesis using False k(2) len by simp
  qed
qed

section \<open>Writing into an array\<close>

text \<open>\<open>put_string buf i s\<close> is the array with \<open>s\<close> at index \<open>i\<close>.\<close>

definition put_string :: "char list \<Rightarrow> nat \<Rightarrow> string \<Rightarrow> char list" where
  "put_string buf i s = take i buf @ s @ drop (i + length s) buf"

lemma put_string_Nil [simp]: "put_string buf i [] = buf"
  by (simp add: put_string_def)

lemma length_put_string [simp]: "i + length s \<le> length buf \<Longrightarrow> length (put_string buf i s) = length buf"
  by (simp add: put_string_def)

lemma put_char_put_string:
  assumes "i + length s < length buf"
  shows "put_char (put_string buf i s) (int i + int (length s)) c = Inr (put_string buf i (s @ [c]))"
proof -
  have "drop (i + length s) buf = buf ! (i + length s) # drop (Suc (i + length s)) buf"
    using assms by (simp add: Cons_nth_drop_Suc)
  moreover have "nat (int i + int (length s)) = i + length s" by simp
  ultimately have "(put_string buf i s)[nat (int i + int (length s)) := c] = put_string buf i (s @ [c])"
    using assms by (simp add: put_string_def list_update_append)
  then show ?thesis using assms by (simp add: put_char_def)
qed

lemma digits_loop_run:
  assumes "i + length s + length (digits_le (nat v)) \<le> length buf" and "0 \<le> v"
  shows "digits_loop v (put_string buf i s) (int i + int (length s))
    = Inr (put_string buf i (s @ digits_le (nat v)),
           int i + int (length s) + int (length (digits_le (nat v))))"
  using assms
proof (induction "nat v" arbitrary: v s rule: less_induct)
  case less
  show ?case
  proof (cases "v > 0")
    case False
    then show ?thesis using less.prems by (simp add: digits_loop.simps)
  next
    case True
    let ?c = "digit (nat v mod 10)"
    have le: "digits_le (nat v) = ?c # digits_le (nat (v div 10))"
      using True by (simp add: digits_le_pos nat_div_distrib)
    have "v - v div 10 * 10 = int (nat v mod 10)"
      using True by (simp add: nat_mod_distrib minus_div_mult_eq_mod zmod_int)
    then have c: "char_of (v - v div 10 * 10 + 48) = ?c"
      by (simp add: digit_def) (metis char_of_nat of_nat_add of_nat_numeral)
    have "nat (v div 10) < nat v" using True by simp
    then have ih: "digits_loop (v div 10) (put_string buf i (s @ [?c])) (int i + int (length (s @ [?c])))
        = Inr (put_string buf i ((s @ [?c]) @ digits_le (nat (v div 10))),
             int i + int (length (s @ [?c])) + int (length (digits_le (nat (v div 10)))))"
      by (rule less.hyps) (use less.prems le True in simp_all)
    have "digits_loop v (put_string buf i s) (int i + int (length s))
        = digits_loop (v div 10) (put_string buf i (s @ [?c])) (int i + int (length (s @ [?c])))"
      unfolding digits_loop.simps [of v] Let_def c
      using True less.prems(1) le by (simp add: put_char_put_string ac_simps)
    then show ?thesis unfolding ih by (simp add: le)
  qed
qed

lemma reverse_loop_run:
  "reverse_loop (a @ s @ b) (int (length a)) (int (length a) + int (length s) - 1) = Inr (a @ rev s @ b)"
proof (induction "length s" arbitrary: a s b rule: less_induct)
  case less
  show ?case
  proof (cases "length s \<le> 1")
    case True
    then have "rev s = s" by (cases s rule: rev_cases; cases s) auto
    then show ?thesis using True by (simp add: reverse_loop.simps)
  next
    case False
    then obtain x u where "s = x # u" "u \<noteq> []" by (cases s) auto
    then obtain t y where s: "s = x # t @ [y]" by (cases u rule: rev_cases) auto
    have "reverse_loop ((a @ [y]) @ t @ (x # b)) (int (length (a @ [y])))
        (int (length (a @ [y])) + int (length t) - 1) = Inr ((a @ [y]) @ rev t @ (x # b))"
      by (rule less.hyps) (simp add: s)
    moreover have "nat (int (length a) + int (length t) + 1) = length (a @ x # t)" by simp
    ultimately show ?thesis
      by (simp add: s reverse_loop.simps [of "a @ x # t @ y # b"] get_char_def put_char_def
          nth_append list_update_append algebra_simps)
  qed
qed

lemma str_reverse_run: "str_reverse (s @ b) (int (length s)) = Inr (rev s @ b)"
  using reverse_loop_run [of "[]" s b] by (simp add: str_reverse_def)

lemma decimal_neg: "x < 0 \<Longrightarrow> decimal x = ''-'' @ rev (digits_le (nat (- x)))"
  by (simp add: decimal_def)

lemma decimal_pos: "0 < x \<Longrightarrow> decimal x = rev (digits_le (nat x))"
  by (simp add: decimal_def)

lemma length_decimal:
  "int (length (decimal x)) = (if x = 0 then 1 else int (length (digits_le (nat \<bar>x\<bar>))) + (if x < 0 then 1 else 0))"
  by (simp add: decimal_def)

lemma is_intptr_bound: "is_intptr x \<Longrightarrow> x \<noteq> INTEGER_MIN \<Longrightarrow> \<bar>x\<bar> < 10 ^ 19"
  by (auto simp: is_intptr_def INTEGER_MIN_def INTEGER_MAX_def)

lemma length_digits_le_max:
  "length (digits_le (2 ^ 63)) = 19" "length (digits_le (2 ^ 63 - 1)) = 19"
proof -
  have "length (digits_le n) = 19" if "10 ^ 18 \<le> n" "n < 10 ^ 19" for n
    using that length_digits_le [of n 18] length_digits_le [of n 19] by simp
  then show "length (digits_le (2 ^ 63)) = 19" "length (digits_le (2 ^ 63 - 1)) = 19" by simp_all
qed

lemma count_places_length:
  assumes "is_intptr num"
  shows "count_places num = int (length (decimal num))"
proof (cases "num = INTEGER_MIN")
  case True
  have "abs_value (INTEGER_MIN + 1) = 2 ^ 63 - 1" by (simp add: abs_value_def INTEGER_MIN_def)
  then show ?thesis
    using True places_loop_digits [of "2 ^ 63 - 1"] length_digits_le_max
    by (simp add: count_places_def length_decimal Let_def INTEGER_MIN_def)
next
  case False
  have abs: "abs_value num = \<bar>num\<bar>" using False by (simp add: abs_value_def)
  have "places_loop \<bar>num\<bar> 0 (int (length places_max)) 0
      = (if num = 0 then 1 else int (length (digits_le (nat \<bar>num\<bar>))))"
    using places_loop_digits [of "\<bar>num\<bar>"] is_intptr_bound [OF assms False] by simp
  then show ?thesis
    using False unfolding count_places_def length_decimal Let_def abs by auto
qed

section \<open>Properties\<close>

text \<open>\<open>count_places\<close> is the length of the decimal notation of its argument, sign included,
  for every \<open>intptr_t\<close>, the smallest one too.\<close>

theorem count_places_decimal:
  assumes "is_intptr num"
  shows "count_places num = int (length (decimal num))"
  using assms by (rule count_places_length)

theorem count_places_decimal_witness: "count_places (-1234567890) = 11"
  using count_places_decimal [of "-1234567890"]
  by (simp add: is_intptr_def INTEGER_MIN_def INTEGER_MAX_def decimal_def digits_le.simps)

lemma wtoa_decimal:
  assumes "is_intptr num" and "count_places num < len" and "len \<le> int (length buf)"
  shows "wtoa num (count_places num) buf len =
    Inr (Some (if num = INTEGER_MIN then decimal num @ drop 20 buf
               else decimal num @ [CHR 0x00] @ drop (length (decimal num) + 1) buf))"
proof (cases "num = INTEGER_MIN")
  case True
  have "decimal num = STR_INTEGER_MIN"
    by (simp add: True INTEGER_MIN_def decimal_def digits_le_pos digit_def STR_INTEGER_MIN_def)
      (simp add: char_of_def bit_simps)
  then show ?thesis using assms True
    by (simp add: wtoa_def count_places_length copy_chars_def STR_INTEGER_MIN_def numeral_eq_Suc)
next
  case False
  let ?n = "nat \<bar>num\<bar>" and ?L = "length (decimal num)"
  have room: "?L < length buf" "\<not> count_places num > len - 1"
    using assms by (simp_all add: count_places_length)
  have abs: "abs_value num = \<bar>num\<bar>" using False by (simp add: abs_value_def)
  have nul: "put_char (s @ b) (int (length s)) c = Inr (s @ [c] @ drop 1 b)" if "b \<noteq> []" for s b c
    using that by (cases b) (simp_all add: put_char_def list_update_append)
  show ?thesis
  proof (cases "num = 0")
    case True
    then obtain a b r where "buf = a # b # r"
      using room(1) by (cases buf; cases "tl buf") (auto simp: decimal_def)
    then show ?thesis
      unfolding wtoa_def Let_def abs using True False room(2) by (simp add: put_char_def decimal_def)
  next
    case num: False
    define ds where "ds = digits_le ?n"
    let ?s = "ds @ (if num < 0 then ''-'' else [])"
    have L: "?L = length ?s" using num by (simp add: decimal_def ds_def)
    have digits: "digits_loop \<bar>num\<bar> buf 0 = Inr (put_string buf 0 (ds), int (length (ds)))"
      using digits_loop_run [of 0 "[]" "\<bar>num\<bar>" buf] room(1) L by (simp add: ds_def split: if_splits)
    have sign: "(if num < 0 then bind_run (put_char (put_string buf 0 (ds)) (int (length (ds))) (CHR ''-''))
          (\<lambda>b. Inr (b, int (length (ds)) + 1))
        else Inr (put_string buf 0 (ds), int (length (ds))))
      = Inr (put_string buf 0 ?s, int (length ?s))"
      using put_char_put_string [of 0 "ds" buf] room(1) L by simp
    have "put_string buf 0 ?s = ?s @ drop (length ?s) buf" by (simp add: put_string_def)
    moreover have "rev ?s = decimal num" using num by (simp add: decimal_def ds_def)
    ultimately have rev: "str_reverse (put_string buf 0 ?s) (int (length ?s)) = Inr (decimal num @ drop ?L buf)"
      using str_reverse_run [of ?s "drop (length ?s) buf"] L by simp
    have "put_char (decimal num @ drop ?L buf) (int ?L) (CHR 0x00)
        = Inr (decimal num @ [CHR 0x00] @ drop (?L + 1) buf)"
      using nul [of "drop ?L buf" "decimal num"] room(1) by simp
    then show ?thesis
      using False num room(2) digits sign rev L unfolding wtoa_def Let_def abs by simp
  qed
qed

text \<open>C33. Given the places that \<open>count_places\<close> counts and an array with room for a terminator,
  \<open>wtoa\<close> writes the decimal notation and the terminator, except for the smallest \<open>intptr_t\<close>, whose
  digits it leaves without a terminator.\<close>

theorem wtoa_writes_decimal:
  assumes "is_intptr num" and "count_places num < len" and "len \<le> int (length buf)"
  shows "wtoa num (count_places num) buf len =
    Inr (Some (if num = INTEGER_MIN then decimal num @ drop 20 buf
               else decimal num @ [CHR 0x00] @ drop (length (decimal num) + 1) buf))"
  by (rule wtoa_decimal [OF assms])

theorem wtoa_writes_decimal_witness:
  "wtoa (-407) 4 (replicate 8 (CHR ''x'')) 8 = Inr (Some (''-407'' @ [CHR 0x00] @ ''xxx''))"
proof -
  have d: "decimal (-407) = ''-407''"
    by (simp add: decimal_def digits_le_pos digit_def) (simp add: char_of_def bit_simps)
  have i: "is_intptr (-407)" by (simp add: is_intptr_def INTEGER_MIN_def INTEGER_MAX_def)
  have c: "count_places (-407) = 4" using count_places_length [OF i] d by simp
  show ?thesis
    using wtoa_writes_decimal [OF i, of 8 "replicate 8 (CHR ''x'')"] c d
    by (simp add: INTEGER_MIN_def numeral_eq_Suc)
qed

end
