(* ===== verification/AdvString.thy ===== *)
theory AdvString
  imports Numbers "HOL-Library.Char_ord"
begin

text \<open>
  The string conversions of \<open>src/adv_string.c\<close>.  A pointer to characters is \<open>None\<close> when it is
  \<open>NULL\<close> and the array otherwise; the operations give the return code and the array.
\<close>

section \<open>The code\<close>

record hixo_adv_string =
  mp_str :: string
  m_size :: int
  mp_buf :: "int option"

definition INIT_ADV_STRING :: "string \<Rightarrow> hixo_adv_string" where
  "INIT_ADV_STRING orig = \<lparr>mp_str = orig, m_size = int (length orig), mp_buf = None\<rparr>"

definition strreverse :: "char list option \<Rightarrow> int \<Rightarrow> int \<Rightarrow> (int \<times> char list option) run" where
  "strreverse p_str start end =
     (if p_str = None \<or> start < 0 \<or> end < 0 then Inr (-1, p_str)
      else if start > end then Inr (-1, p_str)
      else if start < end then
        bind_run (reverse_loop (the p_str) start (end - 1)) (\<lambda>str. Inr (0, Some str))
      else Inr (0, p_str))"

text \<open>Each of the three tests of its guard alone makes it refuse.\<close>

lemma strreverse_refuses:
  "strreverse None start end = Inr (-1, None)"
  "start < 0 \<Longrightarrow> strreverse p_str start end = Inr (-1, p_str)"
  "end < 0 \<Longrightarrow> strreverse p_str start end = Inr (-1, p_str)"
  by (simp_all add: strreverse_def)

text \<open>Division of C, which truncates.\<close>

definition c_div :: "int \<Rightarrow> int \<Rightarrow> int" where
  "c_div a b = sgn a * sgn b * (\<bar>a\<bar> div \<bar>b\<bar>)"

definition c_mod :: "int \<Rightarrow> int \<Rightarrow> int" where
  "c_mod a b = a - b * c_div a b"

function itostr_loop :: "int \<Rightarrow> int \<Rightarrow> char list \<Rightarrow> int \<Rightarrow> (char list \<times> int) run" where
  "itostr_loop num n p_rslt end =
     (if num \<noteq> 0 then
        (let n' = n - 1
         in if n' \<noteq> 0 then
              (let x = c_mod num 10
               in bind_run (put_char p_rslt end (char_of (48 + x))) (\<lambda>b.
                    itostr_loop (c_div num 10) n' b (end + 1)))
            else Inr (p_rslt, end))
      else Inr (p_rslt, end))"
  by auto
termination by (relation "measure (\<lambda>(num, n, b, e). nat \<bar>num\<bar>)")
    (auto simp: c_div_def abs_mult sgn_if)

declare itostr_loop.simps [simp del]

definition itostr :: "int \<Rightarrow> char list option \<Rightarrow> int \<Rightarrow> (int \<times> char list option) run" where
  "itostr num p_rslt n =
     (case p_rslt of
        None \<Rightarrow> Inr (-1, None)
      | Some buf \<Rightarrow>
          if n - 1 < 1 then Inr (-1, Some buf)
          else if num = 0 then
            bind_run (put_char buf 0 (CHR ''0'')) (\<lambda>b1.
            bind_run (put_char b1 1 (CHR 0x00)) (\<lambda>b2. Inr (0, Some b2)))
          else
            bind_run (if num < 0 then
                        bind_run (put_char buf 0 (CHR ''-'')) (\<lambda>b1.
                        bind_run (intptr_run (- num)) (\<lambda>m. Inr (b1, 1, m)))
                      else Inr (buf, 0, num)) (\<lambda>(b2, start, m).
            bind_run (itostr_loop m n b2 start) (\<lambda>(b3, end).
            bind_run (strreverse (Some b3) start end) (\<lambda>(_, b4).
            bind_run (put_char (the b4) end (CHR 0x00)) (\<lambda>b5. Inr (0, Some b5))))))"

function strtoi_loop :: "char list \<Rightarrow> int \<Rightarrow> int \<Rightarrow> int \<Rightarrow> (int \<times> int) run" where
  "strtoi_loop str n i val =
     (if i < n then
        bind_run (get_char str i) (\<lambda>c.
          if c > CHR ''9'' \<or> c < CHR ''0'' then Inr (-1, val)
          else bind_run (intptr_run (val * 10)) (\<lambda>v.
               bind_run (intptr_run (v + (of_char c - 48))) (\<lambda>v'.
               strtoi_loop str n (i + 1) v')))
      else Inr (0, val))"
  by auto
termination by (relation "measure (\<lambda>(s, n, i, v). nat (n - i))") auto

declare strtoi_loop.simps [simp del]

text \<open>\<open>p_value\<close> is \<open>None\<close> when it is \<open>NULL\<close>, and what it points at otherwise.\<close>

definition strtoi :: "char list option \<Rightarrow> int \<Rightarrow> int option \<Rightarrow> (int \<times> int option) run" where
  "strtoi pc_str n p_value =
     (case (pc_str, p_value) of
        (Some str, Some old) \<Rightarrow>
          if n < 1 then Inr (-1, p_value)
          else
            bind_run (get_char str 0) (\<lambda>c.
              let start = (if c = CHR ''-'' then 1 else 0)
              in bind_run (strtoi_loop str n start 0) (\<lambda>(rslt, val).
                   Inr (rslt, Some (if rslt = 0 then (if start \<noteq> 0 then 0 - val else val) else old))))
      | _ \<Rightarrow> Inr (-1, p_value))"

section \<open>Lemmas\<close>

lemma c_div_pos: "0 < num \<Longrightarrow> c_div num 10 = num div 10"
  and c_mod_pos: "0 < num \<Longrightarrow> c_mod num 10 = num mod 10"
  by (simp_all add: c_div_def c_mod_def minus_mult_div_eq_mod)

text \<open>The digits that fit are written, lowest first.\<close>

lemma itostr_loop_run:
  assumes "i + length s + k \<le> length buf" and "0 \<le> num"
    and "k = min (length (digits_le (nat num))) (nat n - 1)" and "0 < n"
  shows "itostr_loop num n (put_string buf i s) (int i + int (length s))
    = Inr (put_string buf i (s @ take k (digits_le (nat num))), int i + int (length s) + int k)"
  using assms
proof (induction "nat num" arbitrary: num s n k rule: less_induct)
  case less
  show ?case
  proof (cases "num > 0 \<and> n \<noteq> 1")
    case False
    then have "k = 0" using less.prems by auto
    then show ?thesis using False less.prems by (auto simp: itostr_loop.simps [of num])
  next
    case True
    let ?c = "digit (nat num mod 10)"
    have le: "digits_le (nat num) = ?c # digits_le (nat (num div 10))"
      using True by (simp add: digits_le_pos nat_div_distrib)
    obtain k' where k: "k = Suc k'" "k' = min (length (digits_le (nat (num div 10)))) (nat (n - 1) - 1)"
    proof -
      have n: "nat n - 1 = Suc (nat n - 2)" "nat (n - 1) - 1 = nat n - 2" using True less.prems(4) by linarith+
      show ?thesis
        by (rule that [of "min (length (digits_le (nat (num div 10)))) (nat n - 2)"])
          (use less.prems(3) in \<open>unfold le n, simp_all\<close>)
    qed
    have c: "char_of (48 + num mod 10) = ?c"
    proof -
      have "48 + num mod 10 = int (nat num mod 10 + 48)" using True by (simp add: zmod_int)
      then show ?thesis unfolding digit_def by (simp only: char_of_nat)
    qed
    have "nat (num div 10) < nat num" using True by (auto simp: int_div_less_self)
    then have ih: "itostr_loop (num div 10) (n - 1) (put_string buf i (s @ [?c])) (int i + int (length (s @ [?c])))
        = Inr (put_string buf i ((s @ [?c]) @ take k' (digits_le (nat (num div 10)))),
            int i + int (length (s @ [?c])) + int k')"
    proof (rule less.hyps)
      show "i + length (s @ [?c]) + k' \<le> length buf" using less.prems(1) k(1) by simp
      show "0 \<le> num div 10" using True by (simp add: pos_imp_zdiv_nonneg_iff)
      show "k' = min (length (digits_le (nat (num div 10)))) (nat (n - 1) - 1)" by (rule k(2))
      show "0 < n - 1" using True less.prems(4) by linarith
    qed
    have "itostr_loop num n (put_string buf i s) (int i + int (length s))
        = itostr_loop (num div 10) (n - 1) (put_string buf i (s @ [?c])) (int i + int (length (s @ [?c])))"
      unfolding itostr_loop.simps [of num] Let_def
      using True less.prems(1) k(1) by (simp add: c_div_pos c_mod_pos c put_char_put_string ac_simps)
    then show ?thesis unfolding ih using k(1) by (simp add: le)
  qed
qed

lemma strreverse_run:
  assumes "0 \<le> start" and "end = start + int (length s)" and "nat start = length a"
  shows "strreverse (Some (a @ s @ b)) start end = Inr (0, Some (a @ rev s @ b))"
proof (cases "s = []")
  case True
  with assms show ?thesis by (simp add: strreverse_def)
next
  case False
  have "start = int (length a)" using assms(1,3) by simp
  then show ?thesis
    using reverse_loop_run [of a s b] assms(2) False by (simp add: strreverse_def)
qed

lemma put_char_end:
  "b \<noteq> [] \<Longrightarrow> put_char (s @ b) (int (length s)) c = Inr (s @ [c] @ drop 1 b)"
  by (cases b) (simp_all add: put_char_def list_update_append)

text \<open>What \<open>itostr\<close> does behind the sign.\<close>

lemma itostr_tail:
  assumes "0 < m" and "1 < n" and "a = take (nat start) buf" and "nat start \<le> length buf" and "0 \<le> start"
    and k: "k = min (length (digits_le (nat m))) (nat n - 1)" and room: "nat start + k < length buf"
  shows "bind_run (itostr_loop m n buf start) (\<lambda>(b3, end).
      bind_run (strreverse (Some b3) start end) (\<lambda>(_, b4).
      bind_run (put_char (the b4) end (CHR 0x00)) (\<lambda>b5. Inr (0 :: int, Some b5))))
    = Inr (0, Some (a @ rev (take k (digits_le (nat m))) @ [CHR 0x00] @ drop (nat start + k + 1) buf))"
proof -
  let ?ds = "take k (digits_le (nat m))"
  have len: "length ?ds = k" using k by simp
  have "itostr_loop m n (put_string buf (nat start) ([] :: string)) (int (nat start) + int (length ([] :: string)))
    = Inr (put_string buf (nat start) ([] @ ?ds), int (nat start) + int (length ([] :: string)) + int k)"
    by (rule itostr_loop_run) (use assms(1,2,4) k room in simp_all)
  then have loop: "itostr_loop m n buf start = Inr (a @ ?ds @ drop (nat start + k) buf, start + int k)"
    using assms(5) len by (simp add: put_string_def assms(3))
  have rev: "strreverse (Some (a @ ?ds @ drop (nat start + k) buf)) start (start + int k)
      = Inr (0, Some (a @ rev ?ds @ drop (nat start + k) buf))"
    by (rule strreverse_run) (use assms(3-5) len in simp_all)
  have "put_char ((a @ rev ?ds) @ drop (nat start + k) buf) (int (length (a @ rev ?ds))) (CHR 0x00)
      = Inr ((a @ rev ?ds) @ [CHR 0x00] @ drop 1 (drop (nat start + k) buf))"
    by (rule put_char_end) (use room in simp)
  moreover have "int (length (a @ rev ?ds)) = start + int k" using assms(3-5) len by simp
  ultimately show ?thesis by (simp add: loop rev)
qed

section \<open>Reading digits\<close>

lemma strtoi_loop_digits:
  assumes "int m \<le> INTEGER_MAX" and "int (length a) + int (length (digits_le m)) \<le> n"
  shows "strtoi_loop (a @ rev (digits_le m) @ b) n (int (length a)) 0
    = strtoi_loop (a @ rev (digits_le m) @ b) n (int (length a) + int (length (digits_le m))) (int m)"
  using assms
proof (induction m arbitrary: b rule: less_induct)
  case (less m)
  show ?case
  proof (cases "m = 0")
    case False
    let ?d = "digit (m mod 10)" and ?q = "m div 10"
    have le: "digits_le m = ?d # digits_le ?q" using False by (simp add: digits_le_pos)
    have q: "?q < m" "int ?q \<le> INTEGER_MAX" using False less.prems(1) by auto
    let ?s = "a @ rev (digits_le ?q) @ ?d # b" and ?i = "int (length a) + int (length (digits_le ?q))"
    have ih: "strtoi_loop ?s n (int (length a)) 0 = strtoi_loop ?s n ?i (int ?q)"
      by (rule less.IH [OF q]) (use less.prems(2) le in simp)
    have get: "get_char ?s ?i = Inr ?d"
      by (simp add: get_char_def nth_append nat_add_distrib)
    have code: "of_char ?d = (m mod 10 + 48)" by (simp add: digit_def)
    have range: "\<not> (?d > CHR ''9'' \<or> ?d < CHR ''0'')"
      by (simp add: less_char_def code)
    have "(of_char ?d :: int) = int (of_char ?d)" by (rule of_nat_of_char [symmetric])
    then have code_int: "(of_char ?d :: int) = int (m mod 10) + 48" unfolding code by simp
    have "int ?q * 10 + int (m mod 10) = int m" by (metis mult.commute of_nat_add of_nat_mult of_nat_numeral mult_div_mod_eq)
    then have "intptr_run (int ?q * 10) = Inr (int ?q * 10)"
      "intptr_run (int ?q * 10 + (of_char ?d - 48)) = Inr (int m)"
      using less.prems(1) by (auto simp: intptr_run_def is_intptr_def code_int INTEGER_MIN_def)
    then have "strtoi_loop ?s n ?i (int ?q) = strtoi_loop ?s n (?i + 1) (int m)"
      using less.prems(2) range get by (simp add: strtoi_loop.simps [of ?s n ?i] le)
    with ih show ?thesis by (simp add: le algebra_simps)
  qed simp
qed

lemma intptr_negate: "is_intptr num \<Longrightarrow> num \<noteq> INTEGER_MIN \<Longrightarrow> intptr_run (- num) = Inr (- num)"
  by (auto simp: intptr_run_def is_intptr_def INTEGER_MIN_def INTEGER_MAX_def)

text \<open>\<open>itostr\<close> on a non-zero number, by its sign.\<close>

lemma itostr_pos:
  assumes "0 < num" and "1 < n" and "k = min (length (digits_le (nat num))) (nat n - 1)"
    and "k < length buf"
  shows "itostr num (Some buf) n
    = Inr (0, Some (rev (take k (digits_le (nat num))) @ [CHR 0x00] @ drop (k + 1) buf))"
proof -
  have "bind_run (itostr_loop num n buf 0) (\<lambda>(b3, end).
      bind_run (strreverse (Some b3) 0 end) (\<lambda>(_, b4).
      bind_run (put_char (the b4) end (CHR 0x00)) (\<lambda>b5. Inr (0 :: int, Some b5))))
    = Inr (0, Some ([] @ rev (take k (digits_le (nat num))) @ [CHR 0x00] @ drop (nat 0 + k + 1) buf))"
    by (rule itostr_tail [OF assms(1,2) _ _ _ assms(3)]) (use assms(4) in simp_all)
  then show ?thesis using assms(1,2) by (simp add: itostr_def)
qed

lemma itostr_neg:
  assumes "is_intptr num" and "num \<noteq> INTEGER_MIN" and "num < 0" and "1 < n"
    and "k = min (length (digits_le (nat (- num)))) (nat n - 1)" and "k + 1 < length buf"
  shows "itostr num (Some buf) n
    = Inr (0, Some (''-'' @ rev (take k (digits_le (nat (- num)))) @ [CHR 0x00] @ drop (k + 2) buf))"
proof -
  obtain b r where buf: "buf = b # r" using assms(6) by (cases buf) auto
  have "bind_run (itostr_loop (- num) n (CHR ''-'' # r) 1) (\<lambda>(b3, end).
      bind_run (strreverse (Some b3) 1 end) (\<lambda>(_, b4).
      bind_run (put_char (the b4) end (CHR 0x00)) (\<lambda>b5. Inr (0 :: int, Some b5))))
    = Inr (0, Some (''-'' @ rev (take k (digits_le (nat (- num)))) @ [CHR 0x00]
        @ drop (nat 1 + k + 1) (CHR ''-'' # r)))"
    by (rule itostr_tail [OF _ assms(4) _ _ _ assms(5)]) (use assms(3,6) buf in simp_all)
  then show ?thesis
    using assms(3,4) intptr_negate [OF assms(1,2)] by (simp add: itostr_def buf put_char_def)
qed

text \<open>A negative number that fills the array to its end.\<close>

lemma itostr_neg_overrun:
  assumes "is_intptr num" and "num \<noteq> INTEGER_MIN" and "num < 0" and "1 < n"
    and "n = int (length buf)" and "n \<le> int (length (digits_le (nat (- num))))"
  shows "itostr num (Some buf) n = Inl Bad_access"
proof -
  let ?k = "nat n - 1"
  obtain b r where buf: "buf = b # r" using assms(4,5) by (cases buf) auto
  let ?ds = "take ?k (digits_le (nat (- num)))" and ?b = "CHR ''-'' # r"
  have k: "?k = min (length (digits_le (nat (- num)))) (nat n - 1)" using assms(6) by simp
  have len: "length ?ds = length r" "length ?ds = ?k" using assms(5,6) buf by simp_all
  have "itostr_loop (- num) n (put_string ?b 1 ([] :: string)) (int 1 + int (length ([] :: string)))
    = Inr (put_string ?b 1 ([] @ ?ds), int 1 + int (length ([] :: string)) + int ?k)"
    by (rule itostr_loop_run [OF _ _ k]) (use assms(3-5) buf in simp_all)
  then have loop: "itostr_loop (- num) n ?b 1 = Inr (''-'' @ ?ds @ [], 1 + int ?k)"
    using len by (simp add: put_string_def)
  have rev: "strreverse (Some (''-'' @ ?ds @ [])) 1 (1 + int ?k) = Inr (0, Some (''-'' @ rev ?ds @ []))"
    by (rule strreverse_run) (use len in simp_all)
  have put: "put_char (''-'' @ rev ?ds @ []) (1 + int ?k) (CHR 0x00) = Inl Bad_access"
    using len by (simp add: put_char_def)
  show ?thesis
    unfolding itostr_def
    using assms(3,4) intptr_negate [OF assms(1,2)] loop rev put by (simp add: buf put_char_def [of "_ # _" 0])
qed

section \<open>Properties\<close>

text \<open>C32. With room for the sign, the digits and the terminator, \<open>itostr\<close> writes the decimal
  notation of every \<open>intptr_t\<close> but the smallest, whose negation overflows.\<close>

theorem itostr_writes_decimal:
  assumes "is_intptr num" and "int (length (decimal num)) < n" and "n \<le> int (length buf)"
  shows "itostr num (Some buf) n =
    (if num = INTEGER_MIN then Inl Signed_overflow
     else Inr (0, Some (decimal num @ [CHR 0x00] @ drop (length (decimal num) + 1) buf)))"
proof -
  have n: "1 < n" using assms(2) by (cases "num = 0") (auto simp: decimal_def digits_le_pos split: if_splits)
  consider "num = INTEGER_MIN" | "num = 0" | "num > 0" | "num < 0" "num \<noteq> INTEGER_MIN" by linarith
  then show ?thesis
  proof cases
    case 1
    then have "intptr_run (- num) = Inl Signed_overflow"
      by (simp add: intptr_run_def is_intptr_def INTEGER_MIN_def INTEGER_MAX_def)
    moreover have "buf \<noteq> []" using n assms(3) by auto
    ultimately show ?thesis using 1 n by (simp add: itostr_def put_char_def INTEGER_MIN_def)
  next
    case 2
    obtain a b r where "buf = a # b # r"
      using n assms(3) by (cases buf; cases "tl buf") auto
    then show ?thesis using 2 n
      by (simp add: itostr_def put_char_def decimal_def INTEGER_MIN_def)
  next
    case 3
    then have "num \<noteq> INTEGER_MIN" by (auto simp: INTEGER_MIN_def)
    moreover have "length (digits_le (nat num)) = min (length (digits_le (nat num))) (nat n - 1)"
      "length (digits_le (nat num)) < length buf"
      using assms(2,3) 3 by (simp_all add: decimal_def)
    ultimately show ?thesis using itostr_pos [OF 3 n] 3 by (simp add: decimal_def)
  next
    case 4
    then have "length (digits_le (nat (- num))) = min (length (digits_le (nat (- num)))) (nat n - 1)"
      "length (digits_le (nat (- num))) + 1 < length buf"
      using assms(2,3) by (simp_all add: decimal_def)
    then show ?thesis using itostr_neg [OF assms(1) 4(2,1) n] 4 by (simp add: decimal_def)
  qed
qed

theorem itostr_writes_decimal_witness:
  "itostr (-407) (Some ''xxxxxx'') 6 = Inr (0, Some (''-407'' @ [CHR 0x00, CHR ''x'']))"
proof -
  have d: "decimal (-407) = ''-407''"
    by (simp add: decimal_def digits_le_pos digit_def) (simp add: char_of_def bit_simps)
  show ?thesis using itostr_writes_decimal [of "-407" 6 "''xxxxxx''"] d
    by (simp add: is_intptr_def INTEGER_MIN_def INTEGER_MAX_def)
qed

text \<open>When the array is too short for the number \<open>itostr\<close> does not say so: a positive number
  loses its leading digits and the code is still 0; for a negative one the terminator is written
  behind the end of the array.\<close>

theorem itostr_short_buffer:
  assumes "is_intptr num" and "num \<noteq> INTEGER_MIN" and "1 < n" and "n = int (length buf)"
    and "n \<le> int (length (digits_le (nat \<bar>num\<bar>)))"
  shows "itostr num (Some buf) n =
    (if num < 0 then Inl Bad_access
     else Inr (0, Some (drop (length (decimal num) + 1 - nat n) (decimal num) @ [CHR 0x00])))"
proof (cases "num < 0")
  case True
  then show ?thesis using itostr_neg_overrun [OF assms(1,2) True assms(3,4)] assms(5) by simp
next
  case False
  then have pos: "0 < num" using assms(3,5) by (cases "num = 0") auto
  let ?ds = "digits_le (nat num)"
  have "nat n - 1 = min (length ?ds) (nat n - 1)" "nat n - 1 < length buf"
    using assms(3-5) pos by simp_all
  from itostr_pos [OF pos assms(3) this]
  have "itostr num (Some buf) n = Inr (0, Some (rev (take (nat n - 1) ?ds) @ [CHR 0x00] @ drop (nat n - 1 + 1) buf))" .
  moreover have "rev (take (nat n - 1) ?ds) = drop (length ?ds - (nat n - 1)) (rev ?ds)"
    by (simp add: rev_take)
  moreover have "length ?ds - (nat n - 1) = length ?ds + 1 - nat n" using assms(3) by linarith
  ultimately show ?thesis using pos assms(3,4) by (simp add: decimal_def)
qed

theorem itostr_short_buffer_witness:
  "itostr 4071 (Some ''xxx'') 3 = Inr (0, Some (''71'' @ [CHR 0x00])) \<and> itostr (-4071) (Some ''xxx'') 3 = Inl Bad_access"
proof -
  have d: "decimal 4071 = ''4071''" "length (digits_le 4071) = 4"
    by (simp_all add: decimal_def digits_le_pos digit_def) (simp add: char_of_def bit_simps)
  have range: "is_intptr 4071" "is_intptr (-4071)" "4071 \<noteq> INTEGER_MIN" "-4071 \<noteq> INTEGER_MIN"
    by (simp_all add: is_intptr_def INTEGER_MIN_def INTEGER_MAX_def)
  have "itostr 4071 (Some ''xxx'') 3 = (if (4071 :: int) < 0 then Inl Bad_access
     else Inr (0, Some (drop (length (decimal 4071) + 1 - nat 3) (decimal 4071) @ [CHR 0x00])))"
    by (rule itostr_short_buffer [OF range(1,3)]) (simp_all add: d(2))
  moreover have "itostr (-4071) (Some ''xxx'') 3 = (if (-4071 :: int) < 0 then Inl Bad_access
     else Inr (0, Some (drop (length (decimal (-4071)) + 1 - nat 3) (decimal (-4071)) @ [CHR 0x00])))"
    by (rule itostr_short_buffer [OF range(2,4)]) (simp_all add: d(2))
  ultimately show ?thesis by (simp add: d(1))
qed

text \<open>C31. \<open>strtoi\<close> reads back the decimal notation of every \<open>intptr_t\<close> but the smallest.\<close>

theorem strtoi_decimal:
  assumes "is_intptr num" and "num \<noteq> INTEGER_MIN"
  shows "strtoi (Some (decimal num @ rest)) (int (length (decimal num))) (Some old) = Inr (0, Some num)"
proof (cases "num = 0")
  case True
  have zero: "(of_char (CHR ''0'') :: int) = 48" by (simp add: of_char_def)
  show ?thesis
    by (simp add: True strtoi_def decimal_def get_char_def strtoi_loop.simps less_char_def zero
        intptr_run_def is_intptr_def INTEGER_MIN_def INTEGER_MAX_def)
next
  case False
  let ?m = "nat \<bar>num\<bar>" and ?a = "if num < 0 then ''-'' else []"
  have m: "int ?m \<le> INTEGER_MAX"
    using assms by (auto simp: is_intptr_def INTEGER_MIN_def INTEGER_MAX_def)
  have dec: "decimal num = ?a @ rev (digits_le ?m)" using False by (simp add: decimal_def)
  obtain d ds where rev: "rev (digits_le ?m) = digit d # ds" "d < 10"
  proof -
    have "\<forall>c \<in> set (digits_le k). \<exists>d < 10. c = digit d" for k
    proof (induction k rule: digits_le.induct)
      case (1 n)
      have "\<exists>d < 10. digit (n mod 10) = digit d" by (intro exI [of _ "n mod 10"]) simp
      with 1 show ?case by (cases "n = 0") (auto simp: digits_le_pos)
    qed
    moreover have "rev (digits_le ?m) \<noteq> []" using False by (simp add: digits_le_pos)
    ultimately show ?thesis using that by (metis list.exhaust list.set_intros(1) set_rev)
  qed
  have "digit d \<noteq> CHR ''-''"
  proof
    assume "digit d = CHR ''-''"
    then have "(of_char (digit d) :: nat) = of_char (CHR ''-'')" by simp
    then show False using rev(2) by (simp add: digit_def)
  qed
  then have first: "get_char (decimal num @ rest) 0 = Inr (if num < 0 then CHR ''-'' else digit d)"
    "digit d \<noteq> CHR ''-''"
    using rev(1) by (simp_all add: dec get_char_def)
  let ?n = "int (length (decimal num))"
  have "strtoi_loop (?a @ rev (digits_le ?m) @ rest) ?n (int (length ?a)) 0
      = strtoi_loop (?a @ rev (digits_le ?m) @ rest) ?n (int (length ?a) + int (length (digits_le ?m))) (int ?m)"
    by (rule strtoi_loop_digits [OF m]) (simp add: dec)
  also have "int (length ?a) + int (length (digits_le ?m)) = ?n" by (simp add: dec)
  finally have "strtoi_loop (decimal num @ rest) ?n (int (length ?a)) 0 = Inr (0, int ?m)"
    by (simp add: dec strtoi_loop.simps)
  then show ?thesis
    using first False by (auto simp: strtoi_def Let_def dec digits_le_pos split: if_splits)
qed

theorem strtoi_decimal_witness: "strtoi (Some ''-407,'') 4 (Some 9) = Inr (0, Some (-407))"
proof -
  have d: "decimal (-407) = ''-407''"
    by (simp add: decimal_def digits_le_pos digit_def) (simp add: char_of_def bit_simps)
  show ?thesis using strtoi_decimal [of "-407" "'',''" 9] d
    by (simp add: is_intptr_def INTEGER_MIN_def INTEGER_MAX_def)
qed

end
