(* ===== verification/Signals.thy ===== *)
theory Signals
  imports Prelude
begin

text \<open>
  Signals as a process of Linux sees them: the mask of those that are held back and the action for
  each, with the operations on them that \<open>src/hixo.c\<close> uses.
\<close>

section \<open>Masks and actions\<close>

type_synonym signo = int

definition SIGHUP :: signo where "SIGHUP = 1"
definition SIGINT :: signo where "SIGINT = 2"
definition SIGQUIT :: signo where "SIGQUIT = 3"
definition SIGKILL :: signo where "SIGKILL = 9"
definition SIGALRM :: signo where "SIGALRM = 14"
definition SIGCHLD :: signo where "SIGCHLD = 17"
definition SIGSTOP :: signo where "SIGSTOP = 19"

lemmas signal_numbers = SIGHUP_def SIGINT_def SIGQUIT_def SIGKILL_def SIGALRM_def SIGCHLD_def SIGSTOP_def

datatype sig_action = SIG_DFL | Sig_child_handler | Sig_int_handler

record sig_state =
  blocked :: "signo set"
  actions :: "signo \<Rightarrow> sig_action"

definition sigfillset :: "signo set" where "sigfillset = {1..64}"

definition sigdelset :: "signo \<Rightarrow> signo set \<Rightarrow> signo set" where "sigdelset n m = m - {n}"

text \<open>\<open>sigprocmask(SIG_SETMASK, &m, _)\<close>: \<open>SIGKILL\<close> and \<open>SIGSTOP\<close> cannot be held back.\<close>

definition sigprocmask :: "signo set \<Rightarrow> sig_state \<Rightarrow> sig_state" where
  "sigprocmask m st = st\<lparr>blocked := m - {SIGKILL, SIGSTOP}\<rparr>"

definition sigaction :: "signo \<Rightarrow> sig_action \<Rightarrow> sig_state \<Rightarrow> sig_state" where
  "sigaction n h st = st\<lparr>actions := (actions st)(n := h)\<rparr>"

text \<open>What a signal that arrives does to the process: nothing while it is held back; by default
  some are ignored (\<open>SIGCHLD\<close>, \<open>SIGCONT\<close>, \<open>SIGURG\<close>, \<open>SIGWINCH\<close>), some stop the process, and the others end it.\<close>

datatype reception = Held | Ignored | Stopped | Killed | Handled sig_action

definition default_action :: "signo \<Rightarrow> reception" where
  "default_action n = (if n \<in> {SIGCHLD, 18, 23, 28} then Ignored
     else if n \<in> {SIGSTOP, 20, 21, 22} then Stopped else Killed)"

definition receive :: "sig_state \<Rightarrow> signo \<Rightarrow> reception" where
  "receive st n = (if n \<in> blocked st then Held
     else case actions st n of SIG_DFL \<Rightarrow> default_action n | h \<Rightarrow> Handled h)"

lemma receive_filled:
  "n \<in> sigfillset \<Longrightarrow> n \<noteq> SIGKILL \<Longrightarrow> n \<noteq> SIGSTOP \<Longrightarrow> receive (sigprocmask sigfillset st) n = Held"
  by (simp add: receive_def sigprocmask_def)

lemma sigprocmask_simps [simp]:
  "blocked (sigprocmask m st) = m - {SIGKILL, SIGSTOP}" "actions (sigprocmask m st) = actions st"
  "sigprocmask m (sigprocmask m' st) = sigprocmask m st"
  by (simp_all add: sigprocmask_def)

lemma sigaction_simps [simp]:
  "blocked (sigaction n h st) = blocked st" "actions (sigaction n h st) = (actions st)(n := h)"
  by (simp_all add: sigaction_def)

end
