(* ===== verification/Master.thy ===== *)
theory Master
  imports Startup AdvString Signals
begin

text \<open>
  The processes of the server, \<open>src/hixo.c\<close>: the table of modules and the order in which their
  functions are called, the fork of the workers, the loops of the master and of a worker, and
  \<open>hixo_main\<close>, with the signal masks.  The table is the list \<open>mods\<close>, whose end is the \<open>NULL\<close> of \<open>gap_modules\<close>.
  The run loop of a worker has no end of its own: it either waits for the next answer of the kernel
  (\<open>Waiting\<close>) or has returned (\<open>Left\<close>); \<open>None\<close> is reserved for a computation that hangs.
\<close>

unbundle bit_operations_syntax

section \<open>The state of a process\<close>

datatype hixo_status = HIXO_STATUS_RUNNING | HIXO_STATUS_QUIT | HIXO_STATUS_CHILD | HIXO_STATUS_INT | HIXO_STATUS_HUP

record hixo_sysconf =
  M_PAGE_SIZE :: int
  M_MAX_FILE_NO :: int
  M_NCPUS :: int

text \<open>\<open>m_power\<close> of \<open>*gp_ps_info\<close> is the field \<open>m_power\<close> of the worker's \<open>world\<close>.\<close>

record hixo_ps_info =
  m_pid :: int
  m_cpuid :: int

record ps_table =
  ga_pss_info :: "nat \<Rightarrow> hixo_ps_info"
  gp_ps_info :: "nat option"

text \<open>The contexts of the application modules are \<open>app_of a\<close> for their nodes \<open>a\<close> in \<open>app_nodes\<close>, in
  the order of the table.  \<open>affinity\<close> is the set of processors that may run the process.\<close>

record hixo =
  g_core :: core
  s_conf :: hixo_conf
  mp_conf :: "hixo_conf option"
  s_epoll :: epoll_private
  app_nodes :: "addr list"
  app_of :: "addr \<Rightarrow> app_ctx"
  pss :: ps_table
  g_status :: hixo_status
  g_child_count :: int
  signals :: sig_state
  affinity :: "int set"

definition HIXO_MAX_PSS :: int where "HIXO_MAX_PSS = 1024"

section \<open>Modules\<close>

text \<open>How far a worker has come with the answers of the kernel that it has been given.\<close>

datatype progress = Waiting hixo | Left int hixo

datatype hixo_module_type = HIXO_MODULE_CORE | HIXO_MODULE_EVENT | HIXO_MODULE_APP

text \<open>A function pointer that is \<open>NULL\<close> is \<open>None\<close>.  \<open>mpf_runloop\<close> is the one of \<open>mp_ctx\<close> of a core
  module.\<close>

record hixo_module =
  mpf_init_master :: "(hixo \<Rightarrow> (int \<times> hixo) run) option"
  mpf_init_worker :: "(hixo \<Rightarrow> (int \<times> hixo) run) option"
  mpf_exit_worker :: "(hixo \<Rightarrow> hixo run) option"
  mpf_exit_master :: "(hixo \<Rightarrow> hixo run) option"
  m_type :: hixo_module_type
  mpf_runloop :: "(hixo \<Rightarrow> progress run option) option"

section \<open>A worker\<close>

fun init_worker_loop ::
    "hixo_module_type \<Rightarrow> hixo_module list \<Rightarrow> int \<Rightarrow> hixo \<Rightarrow> (int \<times> hixo) run" where
  "init_worker_loop module_type [] rslt s = Inr (rslt, s)"
| "init_worker_loop module_type (p_mod # mods) rslt s =
     (if module_type \<noteq> m_type p_mod then init_worker_loop module_type mods rslt s
      else case mpf_init_worker p_mod of
             None \<Rightarrow> init_worker_loop module_type mods rslt s
           | Some f \<Rightarrow> bind_run (f s) (\<lambda>(rslt', s'). init_worker_loop module_type mods rslt' s'))"

definition INIT_WORKER :: "hixo_module list \<Rightarrow> hixo_module_type \<Rightarrow> hixo \<Rightarrow> (int \<times> hixo) run" where
  "INIT_WORKER mods module_type s = init_worker_loop module_type mods HIXO_OK s"

fun EXIT_WORKER :: "hixo_module list \<Rightarrow> hixo_module_type \<Rightarrow> hixo \<Rightarrow> hixo run" where
  "EXIT_WORKER [] module_type s = Inr s"
| "EXIT_WORKER (p_mod # mods) module_type s =
     (if module_type \<noteq> m_type p_mod then EXIT_WORKER mods module_type s
      else case mpf_exit_master p_mod of
             None \<Rightarrow> EXIT_WORKER mods module_type s
           | Some f \<Rightarrow> bind_run (f s) (EXIT_WORKER mods module_type))"

fun run_loops :: "hixo_module list \<Rightarrow> int \<Rightarrow> hixo \<Rightarrow> progress run option" where
  "run_loops [] rslt s = Some (Inr (Left rslt s))"
| "run_loops (p_mod # mods) rslt s =
     (if HIXO_MODULE_CORE \<noteq> m_type p_mod then run_loops mods rslt s
      else case mpf_runloop p_mod of
             None \<Rightarrow> run_loops mods rslt s
           | Some f \<Rightarrow>
               (case f s of
                  None \<Rightarrow> None
                | Some (Inl e) \<Rightarrow> Some (Inl e)
                | Some (Inr (Waiting s')) \<Rightarrow> Some (Inr (Waiting s'))
                | Some (Inr (Left rslt' s')) \<Rightarrow>
                    if rslt' = -1 then Some (Inr (Left rslt' s')) else run_loops mods rslt' s'))"

fun after :: "'a run \<Rightarrow> ('a \<Rightarrow> 'b run option) \<Rightarrow> 'b run option" where
  "after (Inl e) f = Some (Inl e)"
| "after (Inr x) f = f x"

definition exit_workers :: "hixo_module list \<Rightarrow> hixo_module_type list \<Rightarrow> int \<Rightarrow> hixo \<Rightarrow> progress run" where
  "exit_workers mods types rslt s =
     bind_run (foldl (\<lambda>r t. bind_run r (EXIT_WORKER mods t)) (Inr s) types) (\<lambda>s'. Inr (Left rslt s'))"

definition worker_main_core :: "hixo_module list \<Rightarrow> hixo \<Rightarrow> progress run option" where
  "worker_main_core mods s =
     after (INIT_WORKER mods HIXO_MODULE_CORE s) (\<lambda>(rslt, s1).
     if rslt = HIXO_ERROR then Some (exit_workers mods [] rslt s1)
     else after (INIT_WORKER mods HIXO_MODULE_EVENT s1) (\<lambda>(rslt, s2).
     if rslt = HIXO_ERROR then Some (exit_workers mods [HIXO_MODULE_CORE] rslt s2)
     else after (INIT_WORKER mods HIXO_MODULE_APP s2) (\<lambda>(rslt, s3).
     if rslt = HIXO_ERROR then Some (exit_workers mods [HIXO_MODULE_EVENT, HIXO_MODULE_CORE] rslt s3)
     else case run_loops mods rslt s3 of
            None \<Rightarrow> None
          | Some r \<Rightarrow> after r (\<lambda>p. case p of
              Waiting s4 \<Rightarrow> Some (Inr (Waiting s4))
            | Left rslt s4 \<Rightarrow>
                Some (exit_workers mods [HIXO_MODULE_APP, HIXO_MODULE_EVENT, HIXO_MODULE_CORE] rslt s4)))))"

text \<open>What becomes of a process: it ends with a status or by a signal, \<open>hixo_main\<close> returns, the master
  sleeps in \<open>sigsuspend\<close>, or it is a worker, which serves, waiting in \<open>epoll_wait\<close>, or has come back from
  \<open>worker_main_core\<close> in each of the turns of its loop that are looked at.\<close>

datatype fate = Exited int hixo | Terminated signo | Returned int hixo | Sleeping | Serving hixo | Working hixo

text \<open>The first \<open>n\<close> turns of the endless loop of \<open>worker_main\<close>, and the function, where \<open>bound\<close>
  says whether \<open>sched_setaffinity\<close> succeeds.\<close>

fun worker_turns :: "nat \<Rightarrow> hixo_module list \<Rightarrow> hixo \<Rightarrow> fate run option" where
  "worker_turns 0 mods s = Some (Inr (Working s))"
| "worker_turns (Suc n) mods s =
     (case worker_main_core mods s of
        None \<Rightarrow> None
      | Some r \<Rightarrow> after r (\<lambda>p. case p of
          Waiting s' \<Rightarrow> Some (Inr (Serving s'))
        | Left rslt s' \<Rightarrow> worker_turns n mods s'))"

definition worker_main :: "nat \<Rightarrow> bool \<Rightarrow> hixo_module list \<Rightarrow> int \<Rightarrow> hixo \<Rightarrow> fate run option" where
  "worker_main n bound mods cpu_id s =
     worker_turns n mods (if bound then s\<lparr>affinity := {cpu_id}\<rparr> else s)"

section \<open>Forking the workers\<close>

text \<open>\<open>fork i\<close> is what the \<open>i\<close>-th call gives in this process.\<close>

fun spawn_loop :: "(nat \<Rightarrow> int) \<Rightarrow> int \<Rightarrow> nat list \<Rightarrow> int \<Rightarrow> ps_table \<Rightarrow> int \<times> ps_table" where
  "spawn_loop fork ncpus [] cpid t = (cpid, t)"
| "spawn_loop fork ncpus (i # is) cpid t =
     (let cpid = fork i
      in if cpid = -1 then (cpid, t)
         else if cpid > 0 then
           (cpid, t\<lparr>ga_pss_info := (ga_pss_info t)(i := \<lparr>m_pid = cpid, m_cpuid = int i mod ncpus\<rparr>),
                    gp_ps_info := Some i\<rparr>)
         else spawn_loop fork ncpus is cpid t)"

definition hixo_spawn_workers ::
    "(nat \<Rightarrow> int) \<Rightarrow> int \<Rightarrow> int \<Rightarrow> ps_table \<Rightarrow> sig_state \<Rightarrow> int \<times> ps_table \<times> sig_state" where
  "hixo_spawn_workers fork ncpus n_workers t sg =
     (let old_mask = blocked sg;
          sg1 = sigprocmask sigfillset sg;
          (cpid, t1) = spawn_loop fork ncpus [0..<nat n_workers] (-1) t;
          sg2 = (if 0 = cpid then sigprocmask old_mask sg1 else sg1)
      in (cpid, t1, sg2))"

section \<open>The master\<close>

text \<open>The handlers.\<close>

fun deliver :: "sig_action \<Rightarrow> hixo \<Rightarrow> hixo" where
  "deliver Sig_child_handler s = s\<lparr>g_status := HIXO_STATUS_CHILD\<rparr>"
| "deliver Sig_int_handler s = s"
| "deliver SIG_DFL s = s"

text \<open>The loop when the signals \<open>sigs\<close> arrive; \<open>sigsuspend\<close> returns after a handler has run.  \<open>None\<close>: the
  master sleeps; \<open>Inl sig\<close>: the signal has ended the process.\<close>

fun master_loop :: "signo set \<Rightarrow> signo list \<Rightarrow> hixo \<Rightarrow> (signo + hixo) run option" where
  "master_loop cmd_mask [] s = (if g_child_count s \<noteq> 0 then None else Some (Inr (Inr s)))"
| "master_loop cmd_mask (sig # sigs) s =
     (if g_child_count s \<noteq> 0 then
        (case receive (sigprocmask cmd_mask (signals s)) sig of
           Handled h \<Rightarrow>
             (let s1 = deliver h s
              in case g_status s1 of
                   HIXO_STATUS_RUNNING \<Rightarrow> master_loop cmd_mask sigs s1
                 | HIXO_STATUS_CHILD \<Rightarrow> master_loop cmd_mask sigs (s1\<lparr>g_child_count := g_child_count s1 - 1\<rparr>)
                 | _ \<Rightarrow> Some (Inl Assert_failed))
         | Killed \<Rightarrow> Some (Inr (Inl sig))
         | _ \<Rightarrow> master_loop cmd_mask sigs s)
      else Some (Inr (Inr s)))"

definition set_signals :: "(sig_state \<Rightarrow> sig_state) \<Rightarrow> hixo \<Rightarrow> hixo" where
  "set_signals f s = s\<lparr>signals := f (signals s)\<rparr>"

text \<open>\<open>chld\<close> and \<open>intr\<close>: whether the two calls of \<open>sigaction\<close> succeed.\<close>

definition master_main :: "bool \<Rightarrow> bool \<Rightarrow> signo list \<Rightarrow> hixo \<Rightarrow> (signo + int \<times> hixo) run option" where
  "master_main chld intr sigs s =
     (let old_mask = blocked (signals s);
          s1 = set_signals (sigprocmask sigfillset) s
      in if \<not> chld then Some (Inr (Inr (HIXO_ERROR, s1)))
         else
           let s2 = set_signals (sigaction SIGCHLD Sig_child_handler) s1
           in if \<not> intr then Some (Inr (Inr (HIXO_ERROR, s2)))
              else
                let s3 = set_signals (sigaction SIGINT Sig_int_handler) s2;
                    cmd_mask = sigdelset SIGHUP (sigdelset SIGINT (sigdelset SIGQUIT (sigdelset SIGCHLD sigfillset)))
                in case master_loop cmd_mask sigs s3 of
                     None \<Rightarrow> None
                   | Some r \<Rightarrow> after r (\<lambda>res. case res of
                       Inl sig \<Rightarrow> Some (Inr (Inl sig))
                     | Inr s4 \<Rightarrow> Some (Inr (Inr (HIXO_OK, set_signals (sigprocmask old_mask) s4)))))"

section \<open>\<open>hixo_main\<close>\<close>

text \<open>The loop over the core modules; the second component is \<open>i\<close> when it is left.\<close>

fun init_master_loop :: "hixo_module list \<Rightarrow> nat \<Rightarrow> int \<Rightarrow> hixo \<Rightarrow> (int \<times> nat \<times> hixo) run" where
  "init_master_loop [] i rslt s = Inr (rslt, i, s)"
| "init_master_loop (p_mod # mods) i rslt s =
     (if HIXO_MODULE_CORE \<noteq> m_type p_mod then init_master_loop mods (i + 1) rslt s
      else case mpf_init_master p_mod of
             None \<Rightarrow> init_master_loop mods (i + 1) rslt s
           | Some f \<Rightarrow> bind_run (f s) (\<lambda>(rslt', s').
               if rslt' = HIXO_ERROR then Inr (rslt', i, s')
               else init_master_loop mods (i + 1) rslt' s'))"

text \<open>The loop at \<open>EXIT\<close>, over the modules before \<open>i\<close>, last first.\<close>

fun exit_master_loop :: "hixo_module list \<Rightarrow> hixo \<Rightarrow> hixo run" where
  "exit_master_loop [] s = Inr s"
| "exit_master_loop (p_mod # mods) s =
     (if HIXO_MODULE_CORE \<noteq> m_type p_mod then exit_master_loop mods s
      else case mpf_exit_master p_mod of
             None \<Rightarrow> exit_master_loop mods s
           | Some f \<Rightarrow> bind_run (f s) (exit_master_loop mods))"

record main_calls =
  daemon_forks :: "int \<times> int"
  fork_result :: "nat \<Rightarrow> int"
  ncpus :: int
  sigaction_ok :: "bool \<times> bool"
  wakes :: "signo list"
  affinity_ok :: bool
  turns :: nat

text \<open>The parents of the two forks leave with \<open>exit(0)\<close>; so does a process whose fork fails.\<close>

definition fall_into_daemon :: "int \<times> int \<Rightarrow> bool" where
  "fall_into_daemon forks \<longleftrightarrow> \<not> (0 \<noteq> fst forks) \<and> \<not> (0 \<noteq> snd forks)"

definition leave_main :: "hixo_module list \<Rightarrow> nat \<Rightarrow> int \<Rightarrow> hixo \<Rightarrow> fate run option" where
  "leave_main mods i rslt s =
     Some (bind_run (exit_master_loop (rev (take i mods)) s) (\<lambda>s'. Inr (Returned rslt s')))"

definition hixo_main :: "main_calls \<Rightarrow> hixo_module list \<Rightarrow> hixo \<Rightarrow> fate run option" where
  "hixo_main sys mods s =
     after (init_master_loop mods 0 HIXO_OK s) (\<lambda>(rslt, i, s1).
     if rslt = HIXO_ERROR then leave_main mods i rslt s1
     else case mp_conf s1 of
            None \<Rightarrow> Some (Inl Bad_access)
          | Some p_conf \<Rightarrow>
              if m_daemon p_conf \<and> \<not> fall_into_daemon (daemon_forks sys) then Some (Inr (Exited 0 s1))
              else after (assert_run (m_worker_processes p_conf < HIXO_MAX_PSS) (Inr ())) (\<lambda>_.
                let (cpid, t, sg) = hixo_spawn_workers (fork_result sys) (ncpus sys) (m_worker_processes p_conf)
                      (pss s1) (signals s1);
                    s2 = s1\<lparr>pss := t, signals := sg\<rparr>
                in if cpid = -1 then leave_main mods i rslt s2
                   else if cpid = 0 then
                     after (assert_run (gp_ps_info (pss s2) = None) (Inr ())) (\<lambda>_.
                       case master_main (fst (sigaction_ok sys)) (snd (sigaction_ok sys)) (wakes sys) s2 of
                         None \<Rightarrow> Some (Inr Sleeping)
                       | Some r \<Rightarrow> after r (\<lambda>res. case res of
                           Inl sig \<Rightarrow> Some (Inr (Terminated sig))
                         | Inr (rslt, s3) \<Rightarrow> leave_main mods i rslt s3))
                   else
                     case gp_ps_info (pss s2) of
                       None \<Rightarrow> Some (Inl Bad_access)
                     | Some k \<Rightarrow>
                         let w = wd (g_core s2);
                             power = m_max_connections p_conf - c_div (m_max_connections p_conf) 8;
                             s3 = s2\<lparr>g_core := (g_core s2)\<lparr>wd := w\<lparr>m_power := power\<rparr>\<rparr>\<rparr>
                         in worker_main (turns sys) (affinity_ok sys) mods (m_cpuid (ga_pss_info (pss s3) k)) s3))"

text \<open>\<open>rlimit\<close> is what \<open>getrlimit\<close> gives, \<open>None\<close> when it fails.\<close>

definition PAGE_SIZE :: int where "PAGE_SIZE = 4096"

definition hixo_get_sysconf :: "int option \<Rightarrow> int \<Rightarrow> hixo_sysconf \<Rightarrow> int \<times> hixo_sysconf" where
  "hixo_get_sysconf rlimit nprocs c =
     (case rlimit of
        None \<Rightarrow> (HIXO_ERROR, c)
      | Some rlim_cur \<Rightarrow> (HIXO_OK, c\<lparr>M_MAX_FILE_NO := c_int rlim_cur, M_PAGE_SIZE := PAGE_SIZE,
                                     M_NCPUS := c_int nprocs\<rparr>))"

end
