(* ===== verification/Echo.thy ===== *)
theory Echo
  imports Http Numbers
begin

text \<open>
  The application module \<open>src/modules/echo.c\<close>: it reads what a connection has to say into
  buffers, answers with a page made of the first buffer, and closes the connection.

  A \<open>hixo_buffer_t\<close> that \<open>calloc\<close> gave out is a block of \<open>heap\<close> at its address, its fields are
  the record that \<open>bufs\<close> holds there and its link is the node \<open>buffer_node\<close> of \<open>dlinks\<close>.  The
  addresses that \<open>calloc\<close> returns and those of the two queues on the stack are the record
  \<open>echo_env\<close>; 0 stands for an allocation that failed.
\<close>

unbundle bit_operations_syntax

section \<open>The code\<close>

definition NBUFS :: nat where "NBUFS = 4"
definition BUF_SIZE :: int where "BUF_SIZE = 4096"

definition EFAULT :: errno where "EFAULT = 14"

definition sizeof_hixo_buffer :: int where "sizeof_hixo_buffer = 48"

record echo_env =
  calloc_buffer :: "world \<Rightarrow> addr"
  calloc_array :: "world \<Rightarrow> addr"
  old_queue :: addr
  tmp_queue :: addr

text \<open>\<open>CONTAINER_OF(p_node, hixo_buffer_t, m_node)\<close>\<close>

definition buffer_of :: "addr \<Rightarrow> addr" where
  "buffer_of p_node = p_node - 16"

definition new_buffer :: "echo_env \<Rightarrow> world \<Rightarrow> (world \<times> addr) run" where
  "new_buffer E w =
     (let p_buf = calloc_buffer E w
      in if p_buf = 0 then Inl Bad_access
         else
           let w1 = w\<lparr>heap := calloc (heap w) p_buf sizeof_hixo_buffer,
                      bufs := (bufs w)(p_buf := \<lparr>buf_offset = 0, buf_size = 0,
                        m_byte_array = \<lparr>mp_data = 0, arr_capacity = 0\<rparr>\<rparr>)\<rparr>
           in bind_run (hixo_create_buffer (heap w1) (dlinks w1) p_buf (bufs w1 p_buf) BUF_SIZE (calloc_array E w1))
                (\<lambda>(rslt, bl, d, buf). Inr (w1\<lparr>heap := bl, dlinks := d, bufs := (bufs w1)(p_buf := buf)\<rparr>, p_buf)))"

text \<open>One turn of the loop that prepares the buffers of a \<open>readv\<close>, and the whole loop; it gives
  the base and the length of each.\<close>

definition open_buffer :: "echo_env \<Rightarrow> world \<Rightarrow> (world \<times> (addr \<times> int)) run" where
  "open_buffer E w =
     bind_run
      (if \<not> dlist_empty (dlinks w) (old_queue E) then
         (let p_node = dlist_get_head (dlinks w) (old_queue E)
          in assert_run (p_node \<noteq> 0) (Inr (w\<lparr>dlinks := dlist_del (dlinks w) p_node\<rparr>, buffer_of p_node)))
       else new_buffer E w)
      (\<lambda>(w1, p_buf).
        let w2 = w1\<lparr>dlinks := dlist_add_tail (dlinks w1) (tmp_queue E) (buffer_node p_buf)\<rparr>
        in Inr (w2, hixo_buffer_get_data (bufs w2 p_buf), hixo_buffer_get_capacity (bufs w2 p_buf)))"

primrec open_buffers :: "echo_env \<Rightarrow> nat \<Rightarrow> world \<Rightarrow> (world \<times> (addr \<times> int) list) run" where
  "open_buffers E 0 w = Inr (w, [])"
| "open_buffers E (Suc n) w =
     bind_run (open_buffer E w) (\<lambda>(w1, v).
       bind_run (open_buffers E n w1) (\<lambda>(w2, vs). Inr (w2, v # vs)))"

text \<open>\<open>readv\<close> with the data \<open>r\<close> waiting: it fills the buffers in turn, up to the first whose base
  is \<open>NULL\<close>, and gives the number of bytes.\<close>

definition put_bytes :: "blocks \<Rightarrow> addr \<Rightarrow> byte list \<Rightarrow> blocks" where
  "put_bytes bl p bs = (case bl p of None \<Rightarrow> bl | Some old \<Rightarrow> bl(p \<mapsto> bs @ drop (length bs) old))"

fun scatter :: "blocks \<Rightarrow> (addr \<times> int) list \<Rightarrow> byte list \<Rightarrow> blocks" where
  "scatter bl [] bs = bl"
| "scatter bl ((p, n) # vs) bs = scatter (put_bytes bl p (take (nat n) bs)) vs (drop (nat n) bs)"

definition readv :: "blocks \<Rightarrow> (addr \<times> int) list \<Rightarrow> errno + byte list \<Rightarrow> (errno + int) \<times> blocks" where
  "readv bl p_vecs r =
     (case r of
        Inl e \<Rightarrow> (Inl e, bl)
      | Inr bs \<Rightarrow>
          let vs = takeWhile (\<lambda>(p, n). p \<noteq> 0) p_vecs;
              room = sum_list (map snd vs)
          in if bs \<noteq> [] \<and> room = 0 then (Inl EFAULT, bl)
             else (Inr (min (int (length bs)) room), scatter bl vs bs))"

text \<open>The loop that shares the number of bytes out among the buffers.\<close>

fun fill_sizes :: "addr list \<Rightarrow> int \<Rightarrow> (addr \<Rightarrow> hixo_buffer) \<Rightarrow> (addr \<Rightarrow> hixo_buffer)" where
  "fill_sizes [] recved_size b = b"
| "fill_sizes (p_pos_node # ns) recved_size b =
     (let p_buf = buffer_of p_pos_node
      in if recved_size = 0 then b
         else if recved_size < BUF_SIZE then
           fill_sizes ns 0 (b(p_buf := hixo_buffer_set_size (b p_buf) recved_size))
         else
           fill_sizes ns (recved_size - BUF_SIZE) (b(p_buf := hixo_buffer_set_size (b p_buf) BUF_SIZE)))"

text \<open>The body of the loops that release a queue, and the loop.\<close>

definition free_buffer :: "addr \<Rightarrow> world \<Rightarrow> world" where
  "free_buffer p_pos_node w =
     (let w1 = w\<lparr>dlinks := dlist_del (dlinks w) p_pos_node\<rparr>;
          p_buf = buffer_of p_pos_node;
          r = hixo_destroy_buffer (heap w1) (bufs w1 p_buf)
      in w1\<lparr>heap := c_free (fst r) p_buf, bufs := (bufs w1)(p_buf := snd r)\<rparr>)"

definition free_buffers :: "addr \<Rightarrow> world \<Rightarrow> world run" where
  "free_buffers queue w = of_option (dlist_for_each_f_safe dlinks free_buffer w queue)"

definition echo_head :: "int \<Rightarrow> byte list" where
  "echo_head n = take 255 (bytes_of (''HTTP/1.1 200 OK'' @ CRLF @
     ''Server: hixo'' @ CRLF @
     ''Content-Length: '' @ decimal n @ CRLF @
     ''Content-Type: text/html'' @ CRLF @
     ''Connection: keep-alive'' @ CRLF @ CRLF))"

text \<open>The first node of the queue is taken for a buffer whether it is one or not.  When the queue is
  empty that is the head inside the socket: the memory is readable but holds the socket.\<close>

definition echo_test_syn_send :: "kernel \<Rightarrow> addr \<Rightarrow> world \<Rightarrow> world run" where
  "echo_test_syn_send K p_sock w =
     (let p_buf = buffer_of (mp_next (dlinks w) (readbuf_queue p_sock))
      in if heap w p_buf = None then Inl Wrong_object
         else
           let n = hixo_buffer_get_size (bufs w p_buf);
               body = (case heap w (hixo_buffer_get_data (bufs w p_buf)) of
                         None \<Rightarrow> [] | Some bs \<Rightarrow> take (nat n) bs);
               f = m_fd (socks w p_sock);
               r = writev_loop (echo_head n @ body) (writes K f) 0 [];
               w1 = write_out w f (snd r)
           in Inr (hixo_socket_close (hixo_socket_shutdown w1 p_sock) p_sock))"

text \<open>One turn of the loop around \<open>readv\<close>, whose result is \<open>r\<close>; the second component says whether
  the turn ends with \<open>continue\<close>.\<close>

definition read_round ::
    "echo_env \<Rightarrow> kernel \<Rightarrow> addr \<Rightarrow> errno + byte list \<Rightarrow> world \<Rightarrow> (world \<times> bool) run" where
  "read_round E K p_sock r w =
     bind_run (open_buffers E NBUFS (w\<lparr>dlinks := dlist_init (dlinks w) (tmp_queue E)\<rparr>)) (\<lambda>(w1, p_vecs).
       let res = readv (heap w1) p_vecs r;
           w2 = w1\<lparr>heap := snd res\<rparr>
       in if (case fst res of Inl e \<Rightarrow> False | Inr recved_size \<Rightarrow> recved_size > 0) then
            bind_run (of_option (dlist_for_each_f (dlinks w2) (tmp_queue E))) (\<lambda>ns.
              let w3 = w2\<lparr>bufs := fill_sizes ns (projr (fst res)) (bufs w2)\<rparr>
              in Inr (w3\<lparr>dlinks := dlist_merge (dlinks w3) (readbuf_queue p_sock) (tmp_queue E)\<rparr>, True))
          else
            bind_run (free_buffers (tmp_queue E) w2) (\<lambda>w3.
              case fst res of
                Inr _ \<Rightarrow> Inr (hixo_socket_close w3 p_sock, False)
              | Inl tmp_err \<Rightarrow>
                  if tmp_err = ECONNRESET then Inr (hixo_socket_close w3 p_sock, False)
                  else bind_run (echo_test_syn_send K p_sock
                                   (set_sock w3 p_sock (\<lambda>k. k\<lparr>m_readable := False\<rparr>)))
                         (\<lambda>w4. Inr (w4, False))))"

text \<open>\<open>rs\<close> are the results of the successive calls.\<close>

fun read_loop :: "echo_env \<Rightarrow> kernel \<Rightarrow> addr \<Rightarrow> (errno + byte list) list \<Rightarrow> world \<Rightarrow> world run" where
  "read_loop E K p_sock [] w =
     (if m_readable (socks w p_sock) then
        bind_run (read_round E K p_sock (Inl EAGAIN) w) (\<lambda>(w1, again). Inr w1)
      else Inr w)"
| "read_loop E K p_sock (r # rs) w =
     (if m_readable (socks w p_sock) then
        bind_run (read_round E K p_sock r w) (\<lambda>(w1, again).
          if again then read_loop E K p_sock rs w1 else Inr w1)
      else Inr w)"

definition echo_handle_connect :: handler where
  "echo_handle_connect K p_sock w = Inr w"

definition echo_handle_read :: "echo_env \<Rightarrow> handler" where
  "echo_handle_read E K p_sock w =
     (let w1 = w\<lparr>dlinks := dlist_init (dlinks w) (old_queue E)\<rparr>;
          w2 = w1\<lparr>dlinks := dlist_merge (dlinks w1) (old_queue E) (readbuf_queue p_sock)\<rparr>
      in bind_run
          (if \<not> dlist_empty (dlinks w2) (old_queue E) then
             bind_run (of_option (dlist_for_each_f (dlinks w2) (old_queue E))) (\<lambda>ns.
               Inr (w2\<lparr>bufs := fold (\<lambda>n b. b(buffer_of n := hixo_buffer_set_size (b (buffer_of n)) 0)) ns (bufs w2)\<rparr>))
           else Inr w2)
          (\<lambda>w3. bind_run (read_loop E K p_sock (reads K (m_fd (socks w3 p_sock))) w3) (\<lambda>w4.
            Inr (w4\<lparr>dlinks := dlist_merge (dlinks w4) (readbuf_queue p_sock) (old_queue E)\<rparr>))))"

definition echo_handle_write :: handler where
  "echo_handle_write K p_sock w = Inr w"

definition echo_handle_disconnect :: handler where
  "echo_handle_disconnect K p_sock w =
     bind_run
      (if \<not> dlist_empty (dlinks w) (readbuf_queue p_sock) then free_buffers (readbuf_queue p_sock) w
       else Inr w)
      (\<lambda>w1. assert_run (dlist_empty (dlinks w1) (readbuf_queue p_sock)) (Inr w1))"

definition sa_echo_srvs :: "hixo_listen_conf list" where
  "sa_echo_srvs = [\<lparr>mp_ip = ''0.0.0.0'', m_port = 8001, m_backlog = 0\<rparr>]"

definition echo_init_worker :: "hixo_listen_conf list \<Rightarrow> int \<times> hixo_listen_conf list" where
  "echo_init_worker srvs =
     (HIXO_OK, foldl (\<lambda>ss i. ss[i := (ss ! i)\<lparr>m_port := htons (m_port (ss ! i))\<rparr>]) srvs [0..<length srvs])"

definition echo_ctx :: "echo_env \<Rightarrow> hixo_listen_conf list \<Rightarrow> app_ctx" where
  "echo_ctx E srvs = \<lparr>mpf_handle_connect = echo_handle_connect, mpf_handle_read = echo_handle_read E,
     mpf_handle_write = echo_handle_write, mpf_handle_disconnect = echo_handle_disconnect,
     mpa_servers = srvs\<rparr>"

section \<open>Queues of buffers\<close>

definition data_of :: "world \<Rightarrow> addr \<Rightarrow> addr" where
  "data_of w n = hixo_buffer_get_data (bufs w (buffer_of n))"

text \<open>The node \<open>n\<close> belongs to a live buffer with an array of its own.\<close>

definition live_buffer :: "world \<Rightarrow> addr \<Rightarrow> bool" where
  "live_buffer w n \<longleftrightarrow> n \<noteq> 0 \<and> heap w (buffer_of n) \<noteq> None \<and> data_of w n \<noteq> 0 \<and> data_of w n \<noteq> buffer_of n
     \<and> (\<exists>bs. heap w (data_of w n) = Some bs \<and> length bs = 4096)
     \<and> hixo_buffer_get_capacity (bufs w (buffer_of n)) = BUF_SIZE"

definition blocks_of :: "world \<Rightarrow> addr \<Rightarrow> addr set" where
  "blocks_of w n = {buffer_of n, data_of w n}"

text \<open>The buffers at the nodes \<open>N\<close> own their blocks, and the rest of the heap is \<open>g\<close>.\<close>

definition owns :: "blocks \<Rightarrow> world \<Rightarrow> addr set \<Rightarrow> bool" where
  "owns g w N \<longleftrightarrow> (\<forall>n \<in> N. live_buffer w n)
     \<and> (\<forall>m \<in> N. \<forall>n \<in> N. m \<noteq> n \<longrightarrow> blocks_of w m \<inter> blocks_of w n = {})
     \<and> (\<forall>a. a \<notin> (\<Union>n \<in> N. blocks_of w n) \<longrightarrow> heap w a = g a)
     \<and> (\<forall>n \<in> N. \<forall>a \<in> blocks_of w n. g a = None)
     \<and> finite (dom (heap w))"

text \<open>The three queues of the read handler.\<close>

definition queues :: "echo_env \<Rightarrow> addr \<Rightarrow> dheap \<Rightarrow> addr list \<Rightarrow> addr list \<Rightarrow> addr list \<Rightarrow> bool" where
  "queues E s d bs ol ts \<longleftrightarrow>
     dring d (readbuf_queue s) bs \<and> dring d (old_queue E) ol \<and> dring d (tmp_queue E) ts
     \<and> distinct (readbuf_queue s # old_queue E # tmp_queue E # bs @ ol @ ts)"

text \<open>What \<open>calloc\<close> promises while there is memory: a new block, away from the queues.\<close>

definition allocator :: "echo_env \<Rightarrow> addr set \<Rightarrow> bool" where
  "allocator E H \<longleftrightarrow> (\<forall>w. finite (dom (heap w)) \<longrightarrow>
     heap w (calloc_buffer E w) = None \<and> calloc_buffer E w > 0 \<and> buffer_node (calloc_buffer E w) \<notin> H
     \<and> heap w (calloc_array E w) = None \<and> calloc_array E w > 0 \<and> buffer_node (calloc_array E w) \<notin> H)"

lemma buffer_node_of [simp]: "buffer_of (buffer_node p) = p" "buffer_node (buffer_of n) = n"
  by (simp_all add: buffer_of_def buffer_node_def)

lemma buffer_of_eq [simp]: "buffer_of m = buffer_of n \<longleftrightarrow> m = n"
  by (simp add: buffer_of_def)

lemma new_buffer_ok:
  assumes own: "owns g w N" and E: "allocator E H"
  obtains p q buf where "new_buffer E w = Inr (w\<lparr>heap := (heap w)(p \<mapsto> replicate 48 0, q \<mapsto> replicate 4096 0),
      dlinks := dlist_init (dlinks w) (buffer_node p), bufs := (bufs w)(p := buf)\<rparr>, p)"
    and "heap w p = None" and "p > 0" and "buffer_node p \<notin> H" and "heap w q = None" and "q > 0" and "q \<noteq> p"
    and "buffer_node q \<notin> H" and "buf = \<lparr>buf_offset = 0, buf_size = 0, m_byte_array = \<lparr>mp_data = q, arr_capacity = BUF_SIZE\<rparr>\<rparr>"
proof -
  define p where "p = calloc_buffer E w"
  have fin: "finite (dom (heap w))" using own by (simp add: owns_def)
  then have p: "heap w p = None" "p > 0" "buffer_node p \<notin> H"
    using E by (simp_all add: allocator_def p_def)
  define w1 where "w1 = w\<lparr>heap := calloc (heap w) p sizeof_hixo_buffer,
      bufs := (bufs w)(p := \<lparr>buf_offset = 0, buf_size = 0, m_byte_array = \<lparr>mp_data = 0, arr_capacity = 0\<rparr>\<rparr>)\<rparr>"
  define q where "q = calloc_array E w1"
  have "finite (dom (heap w1))" using fin p by (simp add: w1_def calloc_def)
  then have "heap w1 q = None" "q > 0" "buffer_node q \<notin> H" using E by (simp_all add: allocator_def q_def)
  then have q: "heap w q = None" "q > 0" "q \<noteq> p" "buffer_node q \<notin> H" using p by (auto simp: w1_def calloc_def split: if_splits)
  show ?thesis
  proof (rule that [where p = p and q = q])
    show "new_buffer E w = Inr (w\<lparr>heap := (heap w)(p \<mapsto> replicate 48 0, q \<mapsto> replicate 4096 0),
        dlinks := dlist_init (dlinks w) (buffer_node p),
        bufs := (bufs w)(p := \<lparr>buf_offset = 0, buf_size = 0, m_byte_array = \<lparr>mp_data = q, arr_capacity = BUF_SIZE\<rparr>\<rparr>)\<rparr>, p)"
      using p q unfolding new_buffer_def p_def [symmetric] Let_def w1_def [symmetric] q_def [symmetric]
      by (simp add: hixo_create_buffer_def hixo_create_byte_array_def run_simps calloc_def BUF_SIZE_def
          sizeof_hixo_buffer_def w1_def)
  qed (use p q in simp_all)
qed


lemma ownsD:
  assumes "owns g w N" and "n \<in> N"
  shows "n \<noteq> 0" "heap w (buffer_of n) \<noteq> None" "data_of w n \<noteq> 0" "data_of w n \<noteq> buffer_of n"
    "\<exists>bs. heap w (data_of w n) = Some bs \<and> length bs = 4096"
    "hixo_buffer_get_capacity (bufs w (buffer_of n)) = BUF_SIZE"
    "g (buffer_of n) = None" "g (data_of w n) = None"
  using assms by (auto simp: owns_def live_buffer_def blocks_of_def)

lemma owns_apart:
  assumes "owns g w N" and "m \<in> N" and "n \<in> N" and "m \<noteq> n"
  shows "data_of w m \<noteq> data_of w n" "data_of w m \<noteq> buffer_of n" "buffer_of m \<noteq> data_of w n"
  using assms by (auto simp: owns_def blocks_of_def)

lemma owns_change:
  assumes own: "owns g w N"
    and array: "\<And>n. n \<in> N \<Longrightarrow> m_byte_array (bufs w' (buffer_of n)) = m_byte_array (bufs w (buffer_of n))"
    and dom: "dom (heap w') = dom (heap w)"
    and len: "\<And>n. n \<in> N \<Longrightarrow> \<exists>bs. heap w' (data_of w n) = Some bs \<and> length bs = 4096"
    and rest: "\<And>a. a \<notin> data_of w ` N \<Longrightarrow> heap w' a = heap w a"
  shows "owns g w' N"
proof -
  have data: "data_of w' n = data_of w n" if "n \<in> N" for n
    using array [OF that] by (simp add: data_of_def hixo_buffer_get_data_def)
  have "hixo_buffer_get_capacity (bufs w' (buffer_of n)) = hixo_buffer_get_capacity (bufs w (buffer_of n))" if "n \<in> N" for n
    using array [OF that] by (simp add: hixo_buffer_get_capacity_def)
  moreover have "heap w' a \<noteq> None \<longleftrightarrow> heap w a \<noteq> None" for a using dom by (auto simp: dom_def)
  ultimately have "live_buffer w' n" if "n \<in> N" for n
    using own that data len by (auto simp: owns_def live_buffer_def)
  moreover have "blocks_of w' n = blocks_of w n" if "n \<in> N" for n
    using data that by (simp add: blocks_of_def)
  moreover have "heap w' a = g a" if "a \<notin> (\<Union>n \<in> N. blocks_of w n)" for a
  proof -
    have "a \<notin> data_of w ` N" using that by (auto simp: blocks_of_def)
    with own rest that show ?thesis by (auto simp: owns_def)
  qed
  ultimately show ?thesis using own dom by (simp add: owns_def)
qed

lemma owns_same:
  assumes "owns g w N" and "heap w' = heap w"
    and "\<And>n. n \<in> N \<Longrightarrow> m_byte_array (bufs w' (buffer_of n)) = m_byte_array (bufs w (buffer_of n))"
  shows "owns g w' N"
  by (rule owns_change [OF assms(1,3)]) (use assms(2) ownsD(5) [OF assms(1)] in simp_all)

lemma owns_new:
  assumes own: "owns g w N" and p: "heap w p = None" "p > 0" and q: "heap w q = None" "q > 0" "q \<noteq> p"
    and w': "heap w' = (heap w)(p \<mapsto> xs, q \<mapsto> replicate 4096 0)"
      "bufs w' = (bufs w)(p := \<lparr>buf_offset = 0, buf_size = 0, m_byte_array = \<lparr>mp_data = q, arr_capacity = BUF_SIZE\<rparr>\<rparr>)"
  shows "owns g w' (insert (buffer_node p) N)" and "buffer_node p \<notin> N"
proof -
  have old: "p \<noteq> buffer_of n" "q \<noteq> buffer_of n" "p \<noteq> data_of w n" "q \<noteq> data_of w n" if "n \<in> N" for n
    using ownsD(2,5) [OF own that] p(1) q(1) by auto
  from old(1) show new: "buffer_node p \<notin> N" by (auto dest: old(1))
  have data: "data_of w' n = data_of w n" "blocks_of w' n = blocks_of w n" if "n \<in> N" for n
    using old [OF that] by (simp_all add: data_of_def blocks_of_def w')
  have data': "data_of w' (buffer_node p) = q" "blocks_of w' (buffer_node p) = {p, q}"
    by (simp_all add: data_of_def blocks_of_def w' hixo_buffer_get_data_def)
  have none: "a \<notin> {p, q}" if "n \<in> N" "a \<in> blocks_of w n" for a n
    using old [OF that(1)] that(2) by (auto simp: blocks_of_def)
  have "live_buffer w' n" if "n \<in> N" for n
    using own that old [OF that] data [OF that] by (auto simp: owns_def live_buffer_def w')
  moreover have "live_buffer w' (buffer_node p)"
    using p q by (simp add: live_buffer_def data' w' hixo_buffer_get_capacity_def) (simp add: buffer_node_def)
  moreover have g: "g p = None" "g q = None"
    using own p(1) q(1) none by (force simp: owns_def)+
  moreover have "heap w' a = g a" if "a \<notin> {p, q}" "a \<notin> (\<Union>n \<in> N. blocks_of w n)" for a
    using own that by (simp add: owns_def w')
  moreover have "finite (dom (heap w'))" using own by (simp add: owns_def w')
  ultimately show "owns g w' (insert (buffer_node p) N)"
    using own none unfolding owns_def by (auto simp: data data')
qed

lemma owns_free:
  assumes own: "owns g w N" and n: "n \<in> N"
  shows "owns g (free_buffer n w) (N - {n})"
    and "free_buffer n w = w\<lparr>dlinks := dlist_del (dlinks w) n,
      heap := (heap w)(data_of w n := None, buffer_of n := None),
      bufs := (bufs w)(buffer_of n := (bufs w (buffer_of n))\<lparr>m_byte_array := (m_byte_array (bufs w (buffer_of n)))\<lparr>mp_data := 0\<rparr>\<rparr>)\<rparr>"
proof -
  have "mp_data (m_byte_array (bufs w (buffer_of n))) \<noteq> 0"
    using ownsD(3) [OF own n] by (simp add: data_of_def hixo_buffer_get_data_def)
  then show eq: "free_buffer n w = w\<lparr>dlinks := dlist_del (dlinks w) n,
      heap := (heap w)(data_of w n := None, buffer_of n := None),
      bufs := (bufs w)(buffer_of n := (bufs w (buffer_of n))\<lparr>m_byte_array := (m_byte_array (bufs w (buffer_of n)))\<lparr>mp_data := 0\<rparr>\<rparr>)\<rparr>"
    by (simp add: free_buffer_def Let_def hixo_destroy_buffer_def hixo_destroy_byte_array_def c_free_def
        data_of_def hixo_buffer_get_data_def)
  let ?w = "free_buffer n w"
  have data: "data_of ?w m = data_of w m" "blocks_of ?w m = blocks_of w m" if "m \<in> N - {n}" for m
    using that by (auto simp: data_of_def blocks_of_def eq)
  have apart: "a \<notin> blocks_of w n" if "m \<in> N - {n}" "a \<in> blocks_of w m" for a m
    using own n that unfolding owns_def by blast
  have same: "heap ?w a = heap w a" if "a \<notin> blocks_of w n" for a
    using that by (auto simp: eq blocks_of_def)
  have bufs: "bufs ?w (buffer_of m) = bufs w (buffer_of m)" if "m \<in> N - {n}" for m
    using that by (simp add: eq)
  have gone: "heap ?w a = None" if "a \<in> blocks_of w n" for a
    using that by (auto simp: eq blocks_of_def)
  have live: "live_buffer ?w m" if m: "m \<in> N - {n}" for m
  proof -
    have "heap ?w (buffer_of m) = heap w (buffer_of m)" "heap ?w (data_of w m) = heap w (data_of w m)"
      by (rule same, rule apart [OF m], simp add: blocks_of_def)+
    with own m show ?thesis by (simp add: owns_def live_buffer_def data [OF m] bufs [OF m])
  qed
  have "heap ?w a = g a" if a: "a \<notin> (\<Union>m \<in> N - {n}. blocks_of w m)" for a
  proof (cases "a \<in> blocks_of w n")
    case True
    with own n show ?thesis by (simp add: gone owns_def)
  next
    case False
    with a have "a \<notin> (\<Union>m \<in> N. blocks_of w m)" by auto
    with own False show ?thesis by (simp add: same owns_def)
  qed
  moreover have "finite (dom (heap ?w))" using own by (simp add: eq owns_def)
  ultimately show "owns g ?w (N - {n})"
    using own live unfolding owns_def by (auto simp: data)
qed


section \<open>The queues after the list operations\<close>

lemma queues_open_old:
  assumes Q: "queues E s d bs (n # ol) ts"
  shows "queues E s (dlist_add_tail (dlist_del d n) (tmp_queue E) n) bs ol (ts @ [n])"
    and "apart d (dlist_add_tail (dlist_del d n) (tmp_queue E) n) (set (old_queue E # tmp_queue E # (n # ol) @ ts))"
proof -
  have q: "dring d (readbuf_queue s) bs" "dring d (old_queue E) (n # ol)" "dring d (tmp_queue E) ts"
    "distinct (readbuf_queue s # old_queue E # tmp_queue E # bs @ (n # ol) @ ts)"
    using Q by (simp_all add: queues_def)
  let ?d = "dlist_del d n"
  have del: "apart d ?d (set (old_queue E # ol))" using apart_ops(3) [of d "old_queue E" "[]" n ol] q(2) by simp
  have r: "dring ?d (readbuf_queue s) bs" "dring ?d (tmp_queue E) ts" "dring ?d (old_queue E) ol"
    by (rule apart_ring [OF q(1) del], use q(4) in auto) (rule apart_ring [OF q(3) del], use q(4) in auto, rule dlist_del_head_ring [OF q(2)])
  note add = apart_ops(2) [OF r(2), of n]
  show "queues E s (dlist_add_tail ?d (tmp_queue E) n) bs ol (ts @ [n])"
    unfolding queues_def
    using apart_ring [OF r(1) add] apart_ring [OF r(3) add] dlist_add_tail_ring [OF r(2), of n] q(4)
    by auto
  show "apart d (dlist_add_tail ?d (tmp_queue E) n) (set (old_queue E # tmp_queue E # (n # ol) @ ts))"
    by (rule apart_trans [OF del add]) auto
qed

lemma queues_open_new:
  assumes Q: "queues E s d bs ol ts" and n: "n \<notin> set (readbuf_queue s # old_queue E # tmp_queue E # bs @ ol @ ts)"
  shows "queues E s (dlist_add_tail (dlist_init d n) (tmp_queue E) n) bs ol (ts @ [n])"
    and "apart d (dlist_add_tail (dlist_init d n) (tmp_queue E) n) (insert n (set (tmp_queue E # ts)))"
proof -
  have q: "dring d (readbuf_queue s) bs" "dring d (old_queue E) ol" "dring d (tmp_queue E) ts"
    "distinct (readbuf_queue s # old_queue E # tmp_queue E # bs @ ol @ ts)"
    using Q by (simp_all add: queues_def)
  let ?d = "dlist_init d n"
  note init = apart_ops(1) [of d n]
  have r: "dring ?d (readbuf_queue s) bs" "dring ?d (tmp_queue E) ts" "dring ?d (old_queue E) ol"
    using apart_ring [OF q(1) init] apart_ring [OF q(2) init] apart_ring [OF q(3) init] n by auto
  note add = apart_ops(2) [OF r(2), of n]
  show "queues E s (dlist_add_tail ?d (tmp_queue E) n) bs ol (ts @ [n])"
    unfolding queues_def
    using apart_ring [OF r(1) add] apart_ring [OF r(3) add] dlist_add_tail_ring [OF r(2), of n] q(4) n
    by auto
  show "apart d (dlist_add_tail ?d (tmp_queue E) n) (insert n (set (tmp_queue E # ts)))"
    by (rule apart_trans [OF init add]) auto
qed

lemma queues_merge:
  assumes Q: "queues E s d bs ol ts"
  shows "queues E s (dlist_merge d (readbuf_queue s) (tmp_queue E)) (bs @ ts) ol []"
    and "queues E s (dlist_merge d (readbuf_queue s) (old_queue E)) (bs @ ol) [] ts"
    and "queues E s (dlist_merge d (old_queue E) (readbuf_queue s)) [] (ol @ bs) ts"
proof -
  have q: "dring d (readbuf_queue s) bs" "dring d (old_queue E) ol" "dring d (tmp_queue E) ts"
    "distinct (readbuf_queue s # old_queue E # tmp_queue E # bs @ ol @ ts)"
    using Q by (simp_all add: queues_def)
  show "queues E s (dlist_merge d (readbuf_queue s) (tmp_queue E)) (bs @ ts) ol []"
    unfolding queues_def
    using dlist_merge_ring [OF q(1,3)] apart_ring [OF q(2) apart_merge [OF q(1,3)]] q(4) by auto
  show "queues E s (dlist_merge d (readbuf_queue s) (old_queue E)) (bs @ ol) [] ts"
    unfolding queues_def
    using dlist_merge_ring [OF q(1,2)] apart_ring [OF q(3) apart_merge [OF q(1,2)]] q(4) by auto
  show "queues E s (dlist_merge d (old_queue E) (readbuf_queue s)) [] (ol @ bs) ts"
    unfolding queues_def
    using dlist_merge_ring [OF q(2,1)] apart_ring [OF q(3) apart_merge [OF q(2,1)]] q(4) by auto
qed

end
