(* ===== verification/EchoRead.thy ===== *)
theory EchoRead
  imports Echo Demo
begin

text \<open>
  What the read handler of \<open>echo.c\<close> does: the state of its queues and buffers from turn to turn
  (\<open>echo_inv\<close> inside a turn, \<open>between\<close> two turns, \<open>queue_ok\<close> between two calls), and the properties.
\<close>

unbundle bit_operations_syntax

section \<open>Opening the buffers of a turn\<close>

text \<open>Nothing but the heap, the links and the buffers changes, and not the links of the nodes \<open>F\<close>,
  which belong to others; \<open>keeps\<close>: the buffers at \<open>N\<close> stay too.\<close>

definition buffers_only :: "addr set \<Rightarrow> world \<Rightarrow> world \<Rightarrow> bool" where
  "buffers_only F w w' \<longleftrightarrow> (\<exists>h d b. w' = w\<lparr>heap := h, dlinks := d, bufs := b\<rparr>) \<and> apart (dlinks w) (dlinks w') (- F)"

definition keeps :: "world \<Rightarrow> world \<Rightarrow> addr set \<Rightarrow> bool" where
  "keeps w w' N \<longleftrightarrow> (\<forall>n \<in> N. bufs w' (buffer_of n) = bufs w (buffer_of n) \<and> heap w' (data_of w n) = heap w (data_of w n))"

lemma buffers_only_refl [simp]: "buffers_only F w w"
  by (cases w) (auto simp: buffers_only_def apart_sets)

lemma buffers_only_trans:
  assumes "buffers_only F w w1" and "buffers_only F w1 w2"
  shows "buffers_only F w w2"
proof -
  obtain h d b h' d' b' where "w1 = w\<lparr>heap := h, dlinks := d, bufs := b\<rparr>" "w2 = w1\<lparr>heap := h', dlinks := d', bufs := b'\<rparr>"
    using assms by (auto simp: buffers_only_def)
  then have "w2 = w\<lparr>heap := h', dlinks := d', bufs := b'\<rparr>" by simp
  moreover have "apart (dlinks w) (dlinks w2) (- F)" using assms apart_trans unfolding buffers_only_def by blast
  ultimately show ?thesis unfolding buffers_only_def by blast
qed

lemma buffers_onlyI:
  assumes "w' = w\<lparr>heap := heap w', dlinks := dlinks w', bufs := bufs w'\<rparr>"
    and "apart (dlinks w) (dlinks w') X" and "X \<inter> F = {}"
  shows "buffers_only F w w'"
proof -
  have "apart (dlinks w) (dlinks w') (- F)" using assms(2,3) unfolding apart_def by blast
  with assms(1) show ?thesis unfolding buffers_only_def by blast
qed

lemma keeps_refl [simp]: "keeps w w N"
  by (simp add: keeps_def)

lemma keeps_data: "keeps w w' N \<Longrightarrow> n \<in> N \<Longrightarrow> data_of w' n = data_of w n"
  by (simp add: keeps_def data_of_def)

lemma keeps_trans: "keeps w w1 N \<Longrightarrow> keeps w1 w2 N' \<Longrightarrow> N \<subseteq> N' \<Longrightarrow> keeps w w2 N"
  using keeps_data [of w w1 N] unfolding keeps_def by (metis subsetD)

abbreviation heads :: "echo_env \<Rightarrow> addr \<Rightarrow> addr set" where
  "heads E s \<equiv> {readbuf_queue s, old_queue E, tmp_queue E}"

definition echo_inv :: "addr set \<Rightarrow> blocks \<Rightarrow> echo_env \<Rightarrow> addr \<Rightarrow> world \<Rightarrow> addr list \<Rightarrow> addr list \<Rightarrow> addr list \<Rightarrow> bool" where
  "echo_inv F g E s w bs ol ts \<longleftrightarrow> queues E s (dlinks w) bs ol ts \<and> owns g w (set (bs @ ol @ ts))
     \<and> heap w (buffer_of (readbuf_queue s)) = None \<and> F \<inter> (heads E s \<union> set (bs @ ol @ ts)) = {}"

lemma open_buffer_ok:
  assumes inv: "echo_inv F g E s w bs ol ts" and E: "allocator E (heads E s \<union> F)"
  obtains w' n where "open_buffer E w = Inr (w', (data_of w' n, BUF_SIZE))"
    and "echo_inv F g E s w' bs (tl ol) (ts @ [n])"
    and "buffers_only F w w'" and "keeps w w' (set (bs @ ts))"
proof -
  have Q: "queues E s (dlinks w) bs ol ts" and own: "owns g w (set (bs @ ol @ ts))"
    and none: "heap w (buffer_of (readbuf_queue s)) = None" and F: "F \<inter> (heads E s \<union> set (bs @ ol @ ts)) = {}"
    using inv by (simp_all add: echo_inv_def)
  show ?thesis
  proof (cases ol)
    case (Cons n ol')
    let ?w = "w\<lparr>dlinks := dlist_add_tail (dlist_del (dlinks w) n) (tmp_queue E) n\<rparr>"
    have ring: "dring (dlinks w) (old_queue E) ol" using Q by (simp add: queues_def)
    have n: "n \<in> set (bs @ ol @ ts)" using Cons by simp
    have data: "data_of ?w = data_of w" by (simp add: data_of_def fun_eq_iff)
    have "open_buffer E w = Inr (?w, (data_of ?w n, BUF_SIZE))"
      using dlist_empty_ring [OF ring] dlist_get_head_ring [OF ring] ownsD(1,6) [OF own n] Cons
      by (simp add: open_buffer_def run_simps Let_def data_of_def)
    moreover have "owns g ?w (set (bs @ ol @ ts))" by (rule owns_same [OF own]) simp_all
    then have "owns g ?w (set (bs @ tl ol @ ts @ [n]))" using Cons by (simp add: insert_commute Un_commute)
    moreover have "queues E s (dlinks ?w) bs (tl ol) (ts @ [n])"
      and ap: "apart (dlinks w) (dlinks ?w) (set (old_queue E # tmp_queue E # ol @ ts))"
      using queues_open_old [of E s "dlinks w" bs n ol' ts] Q Cons by simp_all
    moreover have "buffers_only F w ?w" by (rule buffers_onlyI [OF _ ap]) (use F in auto)
    moreover have "F \<inter> (heads E s \<union> set (bs @ tl ol @ ts @ [n])) = {}" using F Cons by auto
    moreover have "keeps w ?w (set (bs @ ts))" by (simp add: keeps_def)
    ultimately show ?thesis using none by (intro that [of ?w n]) (simp_all add: echo_inv_def)
  next
    case Nil
    have ring: "dring (dlinks w) (old_queue E) ol" using Q by (simp add: queues_def)
    obtain p q buf where new: "new_buffer E w = Inr (w\<lparr>heap := (heap w)(p \<mapsto> replicate 48 0, q \<mapsto> replicate 4096 0),
        dlinks := dlist_init (dlinks w) (buffer_node p), bufs := (bufs w)(p := buf)\<rparr>, p)"
      "heap w p = None" "p > 0" "buffer_node p \<notin> heads E s \<union> F" "heap w q = None" "q > 0" "q \<noteq> p"
      "buffer_node q \<notin> heads E s \<union> F" "buf = \<lparr>buf_offset = 0, buf_size = 0, m_byte_array = \<lparr>mp_data = q, arr_capacity = BUF_SIZE\<rparr>\<rparr>"
      by (rule new_buffer_ok [OF own E])
    let ?n = "buffer_node p"
    let ?w = "w\<lparr>heap := (heap w)(p \<mapsto> replicate 48 0, q \<mapsto> replicate 4096 0),
        dlinks := dlist_add_tail (dlist_init (dlinks w) ?n) (tmp_queue E) ?n, bufs := (bufs w)(p := buf)\<rparr>"
    have own': "owns g ?w (insert ?n (set (bs @ ol @ ts)))" and fresh: "?n \<notin> set (bs @ ol @ ts)"
      using owns_new [OF own new(2,3,5,6,7), of ?w] new(9) by simp_all
    have "open_buffer E w = Inr (?w, (data_of ?w ?n, BUF_SIZE))"
      using dlist_empty_ring [OF ring] Nil new(1,9)
      by (simp add: open_buffer_def Let_def data_of_def hixo_buffer_get_capacity_def)
    moreover have "?n \<notin> set (readbuf_queue s # old_queue E # tmp_queue E # bs @ ol @ ts)" using fresh new(4) by simp
    note opened = queues_open_new [OF Q this]
    moreover have "queues E s (dlinks ?w) bs (tl ol) (ts @ [?n])" using opened(1) Nil by simp
    moreover have "owns g ?w (set (bs @ tl ol @ ts @ [?n]))" using own' Nil by (simp add: insert_commute)
    moreover have ap: "apart (dlinks w) (dlinks ?w) (insert ?n (set (tmp_queue E # ts)))" using opened(2) by simp
    have "buffers_only F w ?w" by (rule buffers_onlyI [OF _ ap]) (use F new(4) in auto)
    moreover have "F \<inter> (heads E s \<union> set (bs @ tl ol @ ts @ [?n])) = {}" using F new(4) Nil by auto
    moreover have "keeps w ?w (set (bs @ ts))"
      unfolding keeps_def
    proof
      fix m assume m: "m \<in> set (bs @ ts)"
      then have "m \<in> set (bs @ ol @ ts)" by auto
      note ownsD(2,5) [OF own this]
      then show "bufs ?w (buffer_of m) = bufs w (buffer_of m) \<and> heap ?w (data_of w m) = heap w (data_of w m)"
        using new(2,5) by auto
    qed
    moreover have "heap ?w (buffer_of (readbuf_queue s)) = None"
      using none new(4,8) by auto
    ultimately show ?thesis by (intro that [of ?w ?n]) (simp_all add: echo_inv_def)
  qed
qed

lemma open_buffers_ok:
  assumes inv: "echo_inv F g E s w bs ol ts" and E: "allocator E (heads E s \<union> F)"
  shows "\<exists>w' ns. open_buffers E k w = Inr (w', map (\<lambda>n. (data_of w' n, BUF_SIZE)) ns) \<and> length ns = k
    \<and> echo_inv F g E s w' bs (drop k ol) (ts @ ns)
    \<and> buffers_only F w w' \<and> keeps w w' (set (bs @ ts))"
  using inv
proof (induction k arbitrary: w ol ts)
  case 0
  then show ?case by simp
next
  case (Suc k)
  obtain w1 n where w1: "open_buffer E w = Inr (w1, (data_of w1 n, BUF_SIZE))"
    "echo_inv F g E s w1 bs (tl ol) (ts @ [n])"
    "buffers_only F w w1" "keeps w w1 (set (bs @ ts))"
    by (rule open_buffer_ok [OF Suc.prems E])
  from Suc.IH [OF w1(2)] obtain w' ns where
    w': "open_buffers E k w1 = Inr (w', map (\<lambda>n. (data_of w' n, BUF_SIZE)) ns)" "length ns = k"
      "echo_inv F g E s w' bs (drop k (tl ol)) ((ts @ [n]) @ ns)" "buffers_only F w1 w'" "keeps w1 w' (set (bs @ ts @ [n]))" by auto
  have "data_of w' n = data_of w1 n" by (rule keeps_data [OF w'(5)]) simp
  then have "open_buffers E (Suc k) w = Inr (w', map (\<lambda>n. (data_of w' n, BUF_SIZE)) (n # ns))"
    using w1(1) w'(1) by simp
  moreover have "keeps w w' (set (bs @ ts))" by (rule keeps_trans [OF w1(4) w'(5)]) auto
  moreover have "drop k (tl ol) = drop (Suc k) ol" by (simp add: drop_Suc)
  ultimately show ?case
    using w' buffers_only_trans [OF w1(3) w'(4)]
    by (intro exI [of _ w'] exI [of _ "n # ns"]) simp
qed


section \<open>What a read leaves in the buffers\<close>

lemma put_bytes_ok:
  assumes "bl p = Some old" and "length old = 4096" and "length xs \<le> 4096"
  shows "put_bytes bl p xs = bl(p \<mapsto> xs @ drop (length xs) old)" and "length (xs @ drop (length xs) old) = 4096"
    and "dom (put_bytes bl p xs) = dom bl"
  using assms by (auto simp: put_bytes_def)

lemma scatter_ok:
  assumes "\<And>n. n \<in> set ns \<Longrightarrow> \<exists>old. bl (f n) = Some old \<and> length old = 4096"
  shows "dom (scatter bl (map (\<lambda>n. (f n, BUF_SIZE)) ns) bs) = dom bl
    \<and> (\<forall>n. (\<exists>old. bl n = Some old \<and> length old = 4096) \<longrightarrow>
          (\<exists>old. scatter bl (map (\<lambda>n. (f n, BUF_SIZE)) ns) bs n = Some old \<and> length old = 4096))
    \<and> (\<forall>a. a \<notin> f ` set ns \<longrightarrow> scatter bl (map (\<lambda>n. (f n, BUF_SIZE)) ns) bs a = bl a)"
  using assms
proof (induction ns arbitrary: bl bs)
  case (Cons n ns)
  obtain old where old: "bl (f n) = Some old" "length old = 4096" using Cons.prems by auto
  let ?xs = "take (nat BUF_SIZE) bs"
  have len: "length ?xs \<le> 4096" by (simp add: BUF_SIZE_def)
  note put = put_bytes_ok [of bl "f n" old ?xs, OF old len]
  let ?bl = "put_bytes bl (f n) ?xs"
  have keep: "\<exists>old. ?bl a = Some old \<and> length old = 4096" if "\<exists>old. bl a = Some old \<and> length old = 4096" for a
    using that put(2) by (auto simp: put(1))
  have "\<And>m. m \<in> set ns \<Longrightarrow> \<exists>old. ?bl (f m) = Some old \<and> length old = 4096"
    using Cons.prems keep by simp
  note IH = Cons.IH [of ?bl "drop (nat BUF_SIZE) bs", OF this]
  have "?bl a = bl a" if "a \<notin> f ` set (n # ns)" for a using that by (auto simp: put(1))
  with IH put(3) keep show ?case by simp
qed simp

lemma scatter_first:
  assumes "\<And>m. m \<in> set (n # ns) \<Longrightarrow> \<exists>old. bl (f m) = Some old \<and> length old = 4096" and "f n \<notin> f ` set ns"
  shows "\<exists>old. scatter bl (map (\<lambda>n. (f n, BUF_SIZE)) (n # ns)) bs (f n) = Some (take 4096 bs @ old)"
proof -
  obtain old where old: "bl (f n) = Some old" "length old = 4096" using assms(1) by auto
  let ?xs = "take (nat BUF_SIZE) bs"
  note put = put_bytes_ok [of bl "f n" old ?xs, OF old]
  have *: "put_bytes bl (f n) ?xs = bl(f n \<mapsto> ?xs @ drop (length ?xs) old)" "length (?xs @ drop (length ?xs) old) = 4096"
    using put by (simp_all add: BUF_SIZE_def)
  have "\<And>m. m \<in> set ns \<Longrightarrow> \<exists>old. put_bytes bl (f n) ?xs (f m) = Some old \<and> length old = 4096"
    using assms(1) *(2) by (auto simp: *(1))
  from scatter_ok [of ns "put_bytes bl (f n) ?xs" f "drop (nat BUF_SIZE) bs", OF this] assms(2)
  have "scatter bl (map (\<lambda>n. (f n, BUF_SIZE)) (n # ns)) bs (f n) = put_bytes bl (f n) ?xs (f n)" by simp
  also have "\<dots> = Some (?xs @ drop (length ?xs) old)" by (simp add: *(1))
  finally show ?thesis by (simp add: BUF_SIZE_def)
qed

lemma readv_vecs:
  assumes "\<And>n. n \<in> set ns \<Longrightarrow> f n \<noteq> 0" and "ns \<noteq> []"
  shows "readv bl (map (\<lambda>n. (f n, BUF_SIZE)) ns) r =
    (case r of Inl e \<Rightarrow> (Inl e, bl)
     | Inr bs \<Rightarrow> (Inr (min (int (length bs)) (4096 * int (length ns))), scatter bl (map (\<lambda>n. (f n, BUF_SIZE)) ns) bs))"
proof -
  have tw: "takeWhile (\<lambda>(p, n). p \<noteq> 0) (map (\<lambda>n. (f n, BUF_SIZE)) ns) = map (\<lambda>n. (f n, BUF_SIZE)) ns"
    using assms(1) by (intro takeWhile_eq_all_conv [THEN iffD2]) auto
  have room: "sum_list (map snd (map (\<lambda>n. (f n, BUF_SIZE)) ns)) = 4096 * int (length ns)"
    by (induction ns) (simp_all add: BUF_SIZE_def)
  show ?thesis
    unfolding readv_def Let_def tw room using assms(2) by (simp split: sum.splits)
qed

lemma fill_sizes_ok:
  "m_byte_array (fill_sizes ns k b a) = m_byte_array (b a)"
  "a \<notin> buffer_of ` set ns \<Longrightarrow> fill_sizes ns k b a = b a"
proof -
  show "m_byte_array (fill_sizes ns k b a) = m_byte_array (b a)"
    by (induction ns arbitrary: k b) (auto simp: Let_def hixo_buffer_set_size_def)
  show "a \<notin> buffer_of ` set ns \<Longrightarrow> fill_sizes ns k b a = b a"
    by (induction ns arbitrary: k b) (auto simp: Let_def)
qed

lemma fill_sizes_first:
  "0 < k \<Longrightarrow> n \<notin> set ns \<Longrightarrow> buf_size (fill_sizes (n # ns) k b (buffer_of n)) = min k BUF_SIZE"
proof -
  assume k: "0 < k" "n \<notin> set ns"
  then have "fill_sizes ns j c (buffer_of n) = c (buffer_of n)" for j c by (intro fill_sizes_ok(2)) auto
  with k show ?thesis by (simp add: Let_def hixo_buffer_set_size_def BUF_SIZE_def)
qed

section \<open>Releasing a queue\<close>

lemma free_buffers_ok:
  assumes ring: "dring (dlinks w) h ns" and own: "owns g w (set ns \<union> M)" and apart: "set ns \<inter> M = {}"
    and F: "F \<inter> set (h # ns) = {}"
  obtains w' where "free_buffers h w = Inr w'" and "owns g w' M" and "dring (dlinks w') h []"
    and "apart (dlinks w) (dlinks w') (set (h # ns))" and "buffers_only F w w'" and "keeps w w' M"
    and "\<And>a. heap w a = None \<Longrightarrow> heap w' a = None"
proof -
  have "dlinks (free_buffer p v) = dlist_del (dlinks v) p" for p v by (simp add: free_buffer_def Let_def)
  note drain = dlist_for_each_f_safe_drain [of dlinks free_buffer, OF this ring]
  have "owns g (fold free_buffer ns w) M \<and> apart (dlinks w) (dlinks (fold free_buffer ns w)) (set (h # ns))
    \<and> buffers_only F w (fold free_buffer ns w) \<and> keeps w (fold free_buffer ns w) M
    \<and> (\<forall>a. heap w a = None \<longrightarrow> heap (fold free_buffer ns w) a = None)"
    using ring own apart F
  proof (induction ns arbitrary: w)
    case Nil
    then show ?case by (simp add: apart_sets)
  next
    case (Cons n ns)
    let ?w = "free_buffer n w"
    note free = owns_free [OF Cons.prems(2), of n]
    have dl: "dlinks ?w = dlist_del (dlinks w) n" by (simp add: free_buffer_def Let_def)
    have ring: "dring (dlinks ?w) h ns" using dlist_del_head_ring [OF Cons.prems(1)] by (simp add: dl)
    have dist: "n \<notin> set ns" "n \<notin> M" using dring_distinct [OF Cons.prems(1)] Cons.prems(3) by auto
    then have "set (n # ns) \<union> M - {n} = set ns \<union> M" by auto
    with free(1) have own: "owns g ?w (set ns \<union> M)" by simp
    note IH = Cons.IH [OF ring own]
    have ap: "apart (dlinks w) (dlinks ?w) (set (h # ns))"
      using apart_ops(3) [of "dlinks w" h "[]" n ns] Cons.prems(1) by (simp add: dl)
    moreover have "buffers_only F w ?w"
      by (rule buffers_onlyI [OF _ ap]) (use free(2) Cons.prems(4) in auto)
    moreover have "keeps w ?w M"
      unfolding keeps_def
    proof
      fix m assume m: "m \<in> M"
      then have "m \<noteq> n" using dist by auto
      note owns_apart [OF Cons.prems(2) _ _ this]
      with m \<open>m \<noteq> n\<close> free(2) show "bufs ?w (buffer_of m) = bufs w (buffer_of m) \<and> heap ?w (data_of w m) = heap w (data_of w m)"
        by simp
    qed
    moreover have "heap w a = None \<Longrightarrow> heap ?w a = None" for a using free(2) by simp
    ultimately show ?case
      using IH Cons.prems(3,4)
      by (auto intro: apart_trans buffers_only_trans keeps_trans)
  qed
  then show ?thesis
    using drain by (intro that [of "fold free_buffer ns w"]) (simp_all add: free_buffers_def run_simps)
qed


section \<open>A turn of the read loop\<close>

text \<open>The buffer at \<open>n\<close> holds the first bytes of \<open>b\<close>.\<close>

definition first_chunk :: "world \<Rightarrow> addr \<Rightarrow> byte list \<Rightarrow> bool" where
  "first_chunk w n b \<longleftrightarrow> buf_size (bufs w (buffer_of n)) = min (int (length b)) BUF_SIZE
     \<and> (\<exists>rest. heap w (data_of w n) = Some (take 4096 b @ rest))"

lemma first_chunk_keeps: "first_chunk w n b \<Longrightarrow> keeps w w' N \<Longrightarrow> n \<in> N \<Longrightarrow> first_chunk w' n b"
  using keeps_data [of w w' N n] by (simp add: first_chunk_def keeps_def)

text \<open>The state between two turns, where there is no \<open>tmp_queue\<close>.\<close>

definition between :: "addr set \<Rightarrow> blocks \<Rightarrow> echo_env \<Rightarrow> addr \<Rightarrow> world \<Rightarrow> addr list \<Rightarrow> addr list \<Rightarrow> bool" where
  "between F g E s w bs ol \<longleftrightarrow> dring (dlinks w) (readbuf_queue s) bs \<and> dring (dlinks w) (old_queue E) ol
     \<and> distinct (readbuf_queue s # old_queue E # tmp_queue E # bs @ ol)
     \<and> owns g w (set (bs @ ol)) \<and> heap w (buffer_of (readbuf_queue s)) = None
     \<and> F \<inter> (heads E s \<union> set (bs @ ol)) = {}"

lemma inv_between: "echo_inv F g E s w bs ol [] \<Longrightarrow> between F g E s w bs ol"
  by (simp add: echo_inv_def queues_def between_def)

lemma inv_init_tmp:
  assumes "between F g E s w bs ol"
  shows "echo_inv F g E s (w\<lparr>dlinks := dlist_init (dlinks w) (tmp_queue E)\<rparr>) bs ol []"
proof -
  let ?d = "dlist_init (dlinks w) (tmp_queue E)"
  note init = apart_ops(1) [of "dlinks w" "tmp_queue E"]
  have "owns g (w\<lparr>dlinks := ?d\<rparr>) (set (bs @ ol))"
    by (rule owns_same [of g w]) (use assms in \<open>simp_all add: between_def\<close>)
  moreover have "queues E s ?d bs ol []"
    unfolding queues_def
    using assms apart_ring [OF _ init, of "readbuf_queue s" bs] apart_ring [OF _ init, of "old_queue E" ol] dlist_init_ring
    by (auto simp: between_def)
  ultimately show ?thesis using assms by (simp add: echo_inv_def between_def)
qed

lemma turn_opens:
  assumes inv: "between F g E s w bs ol" and E: "allocator E (heads E s \<union> F)"
  obtains w' ns where "open_buffers E NBUFS (w\<lparr>dlinks := dlist_init (dlinks w) (tmp_queue E)\<rparr>)
      = Inr (w', map (\<lambda>n. (data_of w' n, BUF_SIZE)) ns)"
    and "length ns = 4" and "echo_inv F g E s w' bs (drop 4 ol) ns" and "buffers_only F w w'" and "keeps w w' (set bs)"
proof -
  let ?w = "w\<lparr>dlinks := dlist_init (dlinks w) (tmp_queue E)\<rparr>"
  from open_buffers_ok [OF inv_init_tmp [OF inv] E, of NBUFS] obtain w' ns where
    w': "open_buffers E NBUFS ?w = Inr (w', map (\<lambda>n. (data_of w' n, BUF_SIZE)) ns)" "length ns = NBUFS"
      "echo_inv F g E s w' bs (drop NBUFS ol) ([] @ ns)" "buffers_only F ?w w'" "keeps ?w w' (set (bs @ []))" by blast
  have ap: "apart (dlinks w) (dlinks ?w) {tmp_queue E}" using apart_ops(1) [of "dlinks w" "tmp_queue E"] by simp
  have "buffers_only F w ?w" by (rule buffers_onlyI [OF _ ap]) (use inv in \<open>auto simp: between_def\<close>)
  from buffers_only_trans [OF this w'(4)] w' show ?thesis
    by (intro that [of w' ns]) (simp_all add: NBUFS_def keeps_def data_of_def)
qed

lemma round_data:
  assumes inv: "between F g E s w bs ol" and E: "allocator E (heads E s \<union> F)" and b: "b \<noteq> []"
  obtains w' ns where "read_round E K s (Inr b) w = Inr (w', True)" and "length ns = 4"
    and "between F g E s w' (bs @ ns) (drop 4 ol)" and "buffers_only F w w'" and "keeps w w' (set bs)"
    and "first_chunk w' (hd ns) b"
proof -
  from inv E obtain w1 ns where w1: "open_buffers E NBUFS (w\<lparr>dlinks := dlist_init (dlinks w) (tmp_queue E)\<rparr>)
      = Inr (w1, map (\<lambda>n. (data_of w1 n, BUF_SIZE)) ns)" "length ns = 4"
    "echo_inv F g E s w1 bs (drop 4 ol) ns" "buffers_only F w w1" "keeps w w1 (set bs)" by (rule turn_opens)
  have Q: "queues E s (dlinks w1) bs (drop 4 ol) ns" and own: "owns g w1 (set (bs @ drop 4 ol @ ns))"
    and none: "heap w1 (buffer_of (readbuf_queue s)) = None" and F: "F \<inter> (heads E s \<union> set (bs @ drop 4 ol @ ns)) = {}"
    using w1(3) by (simp_all add: echo_inv_def)
  obtain n ns' where ns: "ns = n # ns'" using w1(2) by (cases ns) auto
  let ?h = "scatter (heap w1) (map (\<lambda>n. (data_of w1 n, BUF_SIZE)) ns) b"
  let ?k = "min (int (length b)) (4096 * int (length ns))"
  have k: "0 < ?k" "min ?k BUF_SIZE = min (int (length b)) BUF_SIZE" using b w1(2) by (auto simp: BUF_SIZE_def)
  have live: "\<And>m. m \<in> set ns \<Longrightarrow> data_of w1 m \<noteq> 0" "\<And>m. m \<in> set ns \<Longrightarrow> \<exists>old. heap w1 (data_of w1 m) = Some old \<and> length old = 4096"
    using ownsD(3,5) [OF own] by auto
  have dist: "distinct (bs @ drop 4 ol @ ns)" using Q by (simp add: queues_def)
  have rv: "readv (heap w1) (map (\<lambda>n. (data_of w1 n, BUF_SIZE)) ns) (Inr b) = (Inr ?k, ?h)"
    using readv_vecs [of ns "data_of w1" "heap w1" "Inr b"] live(1) ns by simp
  let ?w3 = "w1\<lparr>heap := ?h, bufs := fill_sizes ns ?k (bufs w1)\<rparr>"
  let ?w = "?w3\<lparr>dlinks := dlist_merge (dlinks w1) (readbuf_queue s) (tmp_queue E)\<rparr>"
  have visit: "dlist_for_each_f (dlinks w1) (tmp_queue E) = Some ns"
    using Q by (intro dlist_for_each_f_ring) (simp add: queues_def)
  have run: "read_round E K s (Inr b) w = Inr (?w, True)"
    unfolding read_round_def w1(1) Let_def bind_run.simps prod.case rv fst_conv snd_conv sum.case
    using k(1) visit by (simp add: run_simps)
  note sc = scatter_ok [of ns "heap w1" "data_of w1" b, OF live(2)]
  have data: "data_of ?w m = data_of w1 m" for m
    by (simp add: data_of_def hixo_buffer_get_data_def fill_sizes_ok)
  have "owns g ?w (set (bs @ drop 4 ol @ ns))"
  proof (rule owns_change [OF own])
    show "dom (heap ?w) = dom (heap w1)" using sc by simp
    show "\<exists>bs. heap ?w (data_of w1 m) = Some bs \<and> length bs = 4096" if "m \<in> set (bs @ drop 4 ol @ ns)" for m
      using sc ownsD(5) [OF own that] by simp
    show "heap ?w a = heap w1 a" if "a \<notin> data_of w1 ` set (bs @ drop 4 ol @ ns)" for a
      using sc that by auto
  qed (simp add: fill_sizes_ok)
  moreover have "queues E s (dlinks ?w) (bs @ ns) (drop 4 ol) []" using queues_merge(1) [OF Q] by simp
  moreover have "dom ?h = dom (heap w1)" using sc by blast
  then have "?h (buffer_of (readbuf_queue s)) = None" using none by (metis domIff)
  then have "heap ?w (buffer_of (readbuf_queue s)) = None" by simp
  ultimately have inv': "between F g E s ?w (bs @ ns) (drop 4 ol)" using F by (intro inv_between) (simp add: echo_inv_def ac_simps)
  have out: "data_of w1 m \<notin> data_of w1 ` set ns" "buffer_of m \<notin> buffer_of ` set ns" if "m \<in> set bs" for m
    using that dist owns_apart(1) [OF own, of m] by auto
  have "keeps w1 ?w (set bs)"
    using out sc by (simp add: keeps_def fill_sizes_ok(2))
  then have keep: "keeps w ?w (set bs)" by (rule keeps_trans [OF w1(5)]) simp
  have ap: "apart (dlinks w1) (dlinks ?w) (set (readbuf_queue s # bs @ tmp_queue E # ns))"
    using apart_merge [of "dlinks w1" "readbuf_queue s" bs "tmp_queue E" ns] Q by (simp add: queues_def)
  have "buffers_only F w1 ?w" by (rule buffers_onlyI [OF _ ap]) (use F in auto)
  with w1(4) have only: "buffers_only F w ?w" by (rule buffers_only_trans)
  have n: "n \<notin> set ns'" "data_of w1 n \<notin> data_of w1 ` set ns'"
    using dist owns_apart(1) [OF own, of n] ns by auto
  have "buf_size (bufs ?w (buffer_of n)) = min (int (length b)) BUF_SIZE"
    using fill_sizes_first [OF k(1) n(1), of "bufs w1"] k(2) by (simp add: ns del: fill_sizes.simps)
  moreover have "\<exists>rest. heap ?w (data_of w1 n) = Some (take 4096 b @ rest)"
    using scatter_first [of n ns' "heap w1" "data_of w1" b] live(2) n(2) by (simp add: ns)
  ultimately have "first_chunk ?w (hd ns) b" unfolding first_chunk_def data by (simp add: ns)
  with run w1(2) inv' only keep show ?thesis by (rule that)
qed


lemma round_end:
  assumes inv: "between F g E s w bs ol" and E: "allocator E (heads E s \<union> F)" and r: "r = Inl e \<or> r = Inr []"
  obtains w' where "between F g E s w' bs (drop 4 ol)" and "buffers_only F w w'" and "keeps w w' (set bs)"
    and "read_round E K s r w = (if r = Inr [] \<or> r = Inl ECONNRESET then Inr (hixo_socket_close w' s, False)
      else bind_run (echo_test_syn_send K s (set_sock w' s (\<lambda>k. k\<lparr>m_readable := False\<rparr>))) (\<lambda>w4. Inr (w4, False)))"
proof -
  from inv E obtain w1 ns where w1: "open_buffers E NBUFS (w\<lparr>dlinks := dlist_init (dlinks w) (tmp_queue E)\<rparr>)
      = Inr (w1, map (\<lambda>n. (data_of w1 n, BUF_SIZE)) ns)" "length ns = 4"
    "echo_inv F g E s w1 bs (drop 4 ol) ns" "buffers_only F w w1" "keeps w w1 (set bs)" by (rule turn_opens)
  have Q: "dring (dlinks w1) (readbuf_queue s) bs" "dring (dlinks w1) (old_queue E) (drop 4 ol)"
    "dring (dlinks w1) (tmp_queue E) ns" "distinct (readbuf_queue s # old_queue E # tmp_queue E # bs @ drop 4 ol @ ns)"
    and own: "owns g w1 (set (bs @ drop 4 ol @ ns))" and none: "heap w1 (buffer_of (readbuf_queue s)) = None"
    and F: "F \<inter> (heads E s \<union> set (bs @ drop 4 ol @ ns)) = {}"
    using w1(3) by (simp_all add: echo_inv_def queues_def)
  have "set ns \<union> set (bs @ drop 4 ol) = set (bs @ drop 4 ol @ ns)" by auto
  with own have "owns g w1 (set ns \<union> set (bs @ drop 4 ol))" by simp
  moreover have "set ns \<inter> set (bs @ drop 4 ol) = {}" "F \<inter> set (tmp_queue E # ns) = {}" using Q(4) F by auto
  ultimately obtain w2 where w2: "free_buffers (tmp_queue E) w1 = Inr w2" "owns g w2 (set (bs @ drop 4 ol))"
    "apart (dlinks w1) (dlinks w2) (set (tmp_queue E # ns))" "buffers_only F w1 w2"
    "keeps w1 w2 (set (bs @ drop 4 ol))" "\<And>a. heap w1 a = None \<Longrightarrow> heap w2 a = None"
    by (rule free_buffers_ok [OF Q(3)]) blast
  have rings: "dring (dlinks w2) (readbuf_queue s) bs" "dring (dlinks w2) (old_queue E) (drop 4 ol)"
    by (rule apart_ring [OF Q(1) w2(3)], use Q(4) in auto) (rule apart_ring [OF Q(2) w2(3)], use Q(4) in auto)
  have live: "\<And>m. m \<in> set ns \<Longrightarrow> data_of w1 m \<noteq> 0" using ownsD(3) [OF own] by auto
  have ns: "ns \<noteq> []" using w1(2) by auto
  have "put_bytes bl p [] = bl" for bl :: blocks and p
    by (cases "bl p") (simp_all add: put_bytes_def fun_upd_idem)
  then have sc: "scatter bl vs [] = bl" for bl :: blocks and vs
    by (induction vs) auto
  then have rv: "readv (heap w1) (map (\<lambda>n. (data_of w1 n, BUF_SIZE)) ns) r
      = (case r of Inl e \<Rightarrow> Inl e | Inr bs \<Rightarrow> Inr 0, heap w1)"
    using readv_vecs [of ns "data_of w1" "heap w1" r] live ns r sc by auto
  have "w1\<lparr>heap := heap w1\<rparr> = w1" by simp
  then have run: "read_round E K s r w = (if r = Inr [] \<or> r = Inl ECONNRESET then Inr (hixo_socket_close w2 s, False)
      else bind_run (echo_test_syn_send K s (set_sock w2 s (\<lambda>k. k\<lparr>m_readable := False\<rparr>))) (\<lambda>w4. Inr (w4, False)))"
    unfolding read_round_def w1(1) Let_def bind_run.simps prod.case rv fst_conv snd_conv
    using r w2(1) by (elim disjE) simp_all
  have "between F g E s w2 bs (drop 4 ol)" using rings Q(4) w2(2) w2(6) [OF none] F by (auto simp: between_def)
  moreover have "keeps w w2 (set bs)" by (rule keeps_trans [OF w1(5) w2(5)]) simp
  ultimately show ?thesis using buffers_only_trans [OF w1(4) w2(4)] run by (intro that)
qed

section \<open>The answer\<close>

definition echo_page :: "byte list \<Rightarrow> byte list" where
  "echo_page b = echo_head (min (int (length b)) BUF_SIZE) @ take 4096 b"

definition answered :: "kernel \<Rightarrow> addr \<Rightarrow> byte list \<Rightarrow> world \<Rightarrow> world" where
  "answered K s out w =
     hixo_socket_close (hixo_socket_shutdown
       (write_out w (m_fd (socks w s)) (snd (writev_loop out (writes K (m_fd (socks w s))) 0 []))) s) s"

lemma syn_send_first:
  assumes "between F g E s w (n # bs) ol" and "first_chunk w n b"
  shows "echo_test_syn_send K s w = Inr (answered K s (echo_page b) w)"
proof -
  have ring: "dring (dlinks w) (readbuf_queue s) (n # bs)" and own: "owns g w (set ((n # bs) @ ol))"
    using assms(1) by (simp_all add: between_def)
  have hd: "mp_next (dlinks w) (readbuf_queue s) = n" using dring_next_head [OF ring] by simp
  obtain rest where rest: "heap w (data_of w n) = Some (take 4096 b @ rest)"
    "buf_size (bufs w (buffer_of n)) = min (int (length b)) BUF_SIZE" using assms(2) by (auto simp: first_chunk_def)
  have "take (nat (min (int (length b)) BUF_SIZE)) (take 4096 b @ rest) = take 4096 b"
    by (cases "length b \<le> 4096") (simp_all add: BUF_SIZE_def min_def nat_eq_iff)
  then show ?thesis
    using ownsD(2) [OF own, of n] rest
    by (simp add: echo_test_syn_send_def hd Let_def hixo_buffer_get_size_def answered_def echo_page_def
        data_of_def [symmetric] del: writev_loop.simps take_append)
qed

lemma syn_send_empty:
  assumes "between F g E s w [] ol"
  shows "echo_test_syn_send K s w = Inl Wrong_object"
proof -
  have ring: "dring (dlinks w) (readbuf_queue s) []" using assms by (simp add: between_def)
  show ?thesis
    using dring_next_head [OF ring] assms by (simp add: echo_test_syn_send_def between_def Let_def)
qed


section \<open>The handlers\<close>

text \<open>How the loop ends: with an answer, unless the peer has closed or reset the connection.\<close>

fun replies :: "(errno + byte list) list \<Rightarrow> bool" where
  "replies [] \<longleftrightarrow> True"
| "replies (Inl e # rs) \<longleftrightarrow> e \<noteq> ECONNRESET"
| "replies (Inr b # rs) \<longleftrightarrow> b \<noteq> [] \<and> replies rs"

text \<open>The end of the read handler on a socket whose first buffer holds the start of \<open>b\<close>.\<close>

definition finished :: "kernel \<Rightarrow> addr \<Rightarrow> (errno + byte list) list \<Rightarrow> byte list \<Rightarrow> world \<Rightarrow> world" where
  "finished K s rs b w =
     (if replies rs then answered K s (echo_page b) (set_sock w s (\<lambda>k. k\<lparr>m_readable := False\<rparr>))
      else hixo_socket_close w s)"

lemma between_cong:
  assumes "between F g E s w bs ol" and "heap w' = heap w" and "dlinks w' = dlinks w" and "bufs w' = bufs w"
  shows "between F g E s w' bs ol"
  using assms owns_same [of g w "set (bs @ ol)" w'] by (simp add: between_def)

lemma finished_parts:
  "heap (finished K s rs b w) = heap w" "dlinks (finished K s rs b w) = dlinks w" "bufs (finished K s rs b w) = bufs w"
  by (simp_all add: finished_def answered_def hixo_socket_close_def hixo_socket_shutdown_def write_out_def)

lemma socks_only: "buffers_only F w w' \<Longrightarrow> socks w' = socks w"
  by (auto simp: buffers_only_def)

lemma round_last:
  assumes inv: "between F g E s w (n # bs) ol" and E: "allocator E (heads E s \<union> F)" and first: "first_chunk w n b"
    and r: "r = Inl e \<or> r = Inr []"
  shows "\<exists>w'. read_round E K s r w = Inr (finished K s (r # rs) b w', False)
    \<and> between F g E s w' (n # bs) (drop 4 ol) \<and> buffers_only F w w'"
proof -
  obtain w' where w': "between F g E s w' (n # bs) (drop 4 ol)" "buffers_only F w w'" "keeps w w' (set (n # bs))"
    "read_round E K s r w = (if r = Inr [] \<or> r = Inl ECONNRESET then Inr (hixo_socket_close w' s, False)
      else bind_run (echo_test_syn_send K s (set_sock w' s (\<lambda>k. k\<lparr>m_readable := False\<rparr>))) (\<lambda>w4. Inr (w4, False)))"
    by (rule round_end [OF inv E r])
  let ?w = "set_sock w' s (\<lambda>k. k\<lparr>m_readable := False\<rparr>)"
  have "between F g E s ?w (n # bs) (drop 4 ol)" by (rule between_cong [OF w'(1)]) simp_all
  moreover have "first_chunk ?w n b"
    using first_chunk_keeps [OF first w'(3)] by (simp add: first_chunk_def data_of_def)
  ultimately have "echo_test_syn_send K s ?w = Inr (answered K s (echo_page b) ?w)" by (rule syn_send_first)
  then have "read_round E K s r w = Inr (finished K s (r # rs) b w', False)"
    using r w'(4) by (auto simp: finished_def)
  with w'(1,2) show ?thesis by blast
qed

lemma read_loop_answers:
  assumes "between F g E s w (n # bs) ol" and E: "allocator E (heads E s \<union> F)" and "first_chunk w n b" and "m_readable (socks w s)"
  shows "\<exists>w' bs' ol'. read_loop E K s rs w = Inr (finished K s rs b w') \<and> between F g E s w' (n # bs') ol' \<and> buffers_only F w w'"
  using assms(1,3,4)
proof (induction rs arbitrary: w bs ol)
  case Nil
  from round_last [OF Nil.prems(1) E Nil.prems(2), of "Inl EAGAIN" EAGAIN K "[]"] Nil.prems(3)
  show ?case by (fastforce simp: finished_def EAGAIN_def ECONNRESET_def)
next
  case (Cons r rs)
  show ?case
  proof (cases "\<exists>c. r = Inr c \<and> c \<noteq> []")
    case True
    then obtain c where c: "r = Inr c" "c \<noteq> []" by blast
    obtain w1 ns where w1: "read_round E K s (Inr c) w = Inr (w1, True)" "length ns = 4"
      "between F g E s w1 ((n # bs) @ ns) (drop 4 ol)" "buffers_only F w w1" "keeps w w1 (set (n # bs))" "first_chunk w1 (hd ns) c"
      by (rule round_data [OF Cons.prems(1) E c(2)])
    have "first_chunk w1 n b" by (rule first_chunk_keeps [OF Cons.prems(2) w1(5)]) simp
    moreover have "m_readable (socks w1 s)" using Cons.prems(3) socks_only [OF w1(4)] by simp
    ultimately obtain w' bs' ol' where w': "read_loop E K s rs w1 = Inr (finished K s rs b w')"
      "between F g E s w' (n # bs') ol'" "buffers_only F w1 w'"
      using Cons.IH [of w1 "bs @ ns" "drop 4 ol"] w1(3) by auto
    then have "read_loop E K s (r # rs) w = Inr (finished K s (r # rs) b w')"
      using c w1(1) Cons.prems(3) by (simp add: finished_def)
    with w' buffers_only_trans [OF w1(4)] show ?thesis by blast
  next
    case False
    then obtain e where r: "r = Inl e \<or> r = Inr []" by (cases r) auto
    from round_last [OF Cons.prems(1) E Cons.prems(2) r, of K rs] Cons.prems(3) show ?thesis by fastforce
  qed
qed

text \<open>The whole loop: an answer needs a first buffer.\<close>

fun outcome :: "kernel \<Rightarrow> addr \<Rightarrow> (errno + byte list) list \<Rightarrow> world \<Rightarrow> world run" where
  "outcome K s [] w = Inl Wrong_object"
| "outcome K s (Inl e # rs) w = (if e = ECONNRESET then Inr (hixo_socket_close w s) else Inl Wrong_object)"
| "outcome K s (Inr b # rs) w = (if b = [] then Inr (hixo_socket_close w s) else Inr (finished K s rs b w))"

lemma read_loop_outcome:
  assumes inv: "between F g E s w [] ol" and E: "allocator E (heads E s \<union> F)" and readable: "m_readable (socks w s)"
  shows "\<exists>w' bs ol'. read_loop E K s rs w = outcome K s rs w' \<and> between F g E s w' bs ol' \<and> buffers_only F w w'"
proof -
  have last: "\<exists>w'. read_round E K s r w = bind_run (outcome K s (r # rs) w') (\<lambda>w1. Inr (w1, False))
    \<and> between F g E s w' [] (drop 4 ol) \<and> buffers_only F w w'" if r: "r = Inl e \<or> r = Inr []" for r e rs
  proof -
    obtain w' where w': "between F g E s w' [] (drop 4 ol)" "buffers_only F w w'"
      "read_round E K s r w = (if r = Inr [] \<or> r = Inl ECONNRESET then Inr (hixo_socket_close w' s, False)
        else bind_run (echo_test_syn_send K s (set_sock w' s (\<lambda>k. k\<lparr>m_readable := False\<rparr>))) (\<lambda>w4. Inr (w4, False)))"
      by (rule round_end [OF inv E r])
    have "between F g E s (set_sock w' s (\<lambda>k. k\<lparr>m_readable := False\<rparr>)) [] (drop 4 ol)" by (rule between_cong [OF w'(1)]) simp_all
    note syn_send_empty [OF this, of K]
    then have "read_round E K s r w = bind_run (outcome K s (r # rs) w') (\<lambda>w1. Inr (w1, False))"
      using r w'(3) by (elim disjE) simp_all
    with w'(1,2) show ?thesis by blast
  qed
  have strip: "bind_run (bind_run x (\<lambda>w1. Inr (w1, False))) (\<lambda>(w1, again). if again then f w1 else Inr w1) = x"
    "bind_run (bind_run x (\<lambda>w1. Inr (w1, False))) (\<lambda>(w1, again). Inr w1) = x" for x :: "world run" and f
    by (cases x; simp)+
  show ?thesis
  proof (cases rs)
    case Nil
    from last [of "Inl EAGAIN" EAGAIN "[]"] obtain w' where
      "read_round E K s (Inl EAGAIN) w = bind_run (outcome K s [Inl EAGAIN] w') (\<lambda>w1. Inr (w1, False))"
      "between F g E s w' [] (drop 4 ol)" "buffers_only F w w'" by blast
    moreover have "outcome K s [Inl EAGAIN] w' = outcome K s [] w'" by (simp add: EAGAIN_def ECONNRESET_def)
    ultimately show ?thesis using readable Nil by (intro exI [of _ w'] exI [of _ "[]"] exI [of _ "drop 4 ol"]) simp
  next
    case (Cons r rs')
    show ?thesis
    proof (cases "\<exists>b. r = Inr b \<and> b \<noteq> []")
      case True
      then obtain b where b: "r = Inr b" "b \<noteq> []" by blast
      obtain w1 ns where w1: "read_round E K s (Inr b) w = Inr (w1, True)" "length ns = 4"
        "between F g E s w1 ([] @ ns) (drop 4 ol)" "buffers_only F w w1" "first_chunk w1 (hd ns) b"
        by (rule round_data [OF inv E b(2)])
      then obtain n ns' where ns: "ns = n # ns'" by (cases ns) auto
      have "m_readable (socks w1 s)" using readable socks_only [OF w1(4)] by simp
      with read_loop_answers [of F g E s w1 n ns' "drop 4 ol" b K rs'] w1 ns E obtain w' bs' ol' where
        "read_loop E K s rs' w1 = Inr (finished K s rs' b w')" "between F g E s w' (n # bs') ol'" "buffers_only F w1 w'" by auto
      with buffers_only_trans [OF w1(4)] w1(1) b readable Cons show ?thesis
        by (intro exI [of _ w'] exI [of _ "n # bs'"] exI [of _ ol']) simp
    next
      case False
      then obtain e where "r = Inl e \<or> r = Inr []" by (cases r) auto
      from last [OF this, of rs'] obtain w' where
        w': "read_round E K s r w = bind_run (outcome K s (r # rs') w') (\<lambda>w1. Inr (w1, False))"
          "between F g E s w' [] (drop 4 ol)" "buffers_only F w w'" by blast
      have "read_loop E K s rs w = outcome K s rs w'"
        using Cons readable w'(1) strip(1) [of "outcome K s (r # rs') w'" "read_loop E K s rs'"] by simp
      with w'(2,3) show ?thesis by blast
    qed
  qed
qed


text \<open>A socket between two calls: its queue holds the buffers \<open>bs\<close>.\<close>

definition queue_ok :: "addr set \<Rightarrow> blocks \<Rightarrow> echo_env \<Rightarrow> addr \<Rightarrow> world \<Rightarrow> addr list \<Rightarrow> bool" where
  "queue_ok F g E s w bs \<longleftrightarrow> dring (dlinks w) (readbuf_queue s) bs
     \<and> distinct (readbuf_queue s # old_queue E # tmp_queue E # bs)
     \<and> owns g w (set bs) \<and> heap w (buffer_of (readbuf_queue s)) = None \<and> F \<inter> (heads E s \<union> set bs) = {}"

lemma reset_sizes:
  "m_byte_array (fold (\<lambda>n b. b(buffer_of n := hixo_buffer_set_size (b (buffer_of n)) 0)) ns b a) = m_byte_array (b a)"
  by (induction ns arbitrary: b) (simp_all add: hixo_buffer_set_size_def)

lemma outcome_links:
  "bind_run (outcome K s rs w) (\<lambda>v. Inr (v\<lparr>dlinks := f (dlinks v)\<rparr>)) = outcome K s rs (w\<lparr>dlinks := f (dlinks w)\<rparr>)"
proof -
  have "(finished K s rs b w)\<lparr>dlinks := f (dlinks w)\<rparr> = finished K s rs b (w\<lparr>dlinks := f (dlinks w)\<rparr>)" for b rs
    by (simp add: finished_def answered_def hixo_socket_close_def hixo_socket_shutdown_def write_out_def)
  then show ?thesis
    by (cases rs rule: replies.cases) (simp_all add: finished_parts hixo_socket_close_def)
qed

lemma handle_read_outcome:
  assumes ok: "queue_ok F g E s w bs" and E: "allocator E (heads E s \<union> F)" and readable: "m_readable (socks w s)"
  shows "\<exists>w' bs'. echo_handle_read E K s w = outcome K s (reads K (m_fd (socks w s))) w'
    \<and> queue_ok F g E s w' bs' \<and> buffers_only F w w'"
proof -
  let ?f = "m_fd (socks w s)"
  define w2 where "w2 = w\<lparr>dlinks := dlist_merge (dlist_init (dlinks w) (old_queue E)) (old_queue E) (readbuf_queue s)\<rparr>"
  define w3 where "w3 = (if bs = [] then w2
    else w2\<lparr>bufs := fold (\<lambda>n b. b(buffer_of n := hixo_buffer_set_size (b (buffer_of n)) 0)) bs (bufs w2)\<rparr>)"
  note init = apart_ops(1) [of "dlinks w" "old_queue E"]
  have r: "dring (dlist_init (dlinks w) (old_queue E)) (readbuf_queue s) bs"
    by (rule apart_ring [OF _ init]) (use ok in \<open>auto simp: queue_ok_def\<close>)
  have rings: "dring (dlinks w2) (old_queue E) bs" "dring (dlinks w2) (readbuf_queue s) []"
    using dlist_merge_ring [OF dlist_init_ring r] ok by (auto simp: w2_def queue_ok_def)
  have "owns g w3 (set bs)"
    by (rule owns_same [of g w]) (use ok in \<open>simp_all add: w3_def w2_def queue_ok_def reset_sizes\<close>)
  then have inv: "between F g E s w3 [] bs"
    using ok rings by (auto simp: between_def w3_def w2_def queue_ok_def)
  have F: "F \<inter> (heads E s \<union> set bs) = {}" using ok by (simp add: queue_ok_def)
  have merged: "apart (dlist_init (dlinks w) (old_queue E)) (dlinks w2) (set (old_queue E # readbuf_queue s # bs))"
    using apart_merge [OF dlist_init_ring r] by (simp add: w2_def)
  have "apart (dlinks w) (dlinks w2) (set (old_queue E # readbuf_queue s # bs))" by (rule apart_trans [OF init merged]) auto
  then have ap: "apart (dlinks w) (dlinks w3) (set (old_queue E # readbuf_queue s # bs))"
    by (cases "bs = []") (simp_all add: w3_def)
  have only: "buffers_only F w w3" by (rule buffers_onlyI [OF _ ap]) (use F in \<open>auto simp: w3_def w2_def\<close>)
  have run: "echo_handle_read E K s w = bind_run (read_loop E K s (reads K ?f) w3)
      (\<lambda>w4. Inr (w4\<lparr>dlinks := dlist_merge (dlinks w4) (readbuf_queue s) (old_queue E)\<rparr>))"
    using dlist_empty_ring [OF rings(1)] dlist_for_each_f_ring [OF rings(1)] socks_only [OF only]
    by (simp add: echo_handle_read_def Let_def w2_def w3_def run_simps)
  obtain w' bs' ol' where w': "read_loop E K s (reads K ?f) w3 = outcome K s (reads K ?f) w'"
    "between F g E s w' bs' ol'" "buffers_only F w3 w'"
    using read_loop_outcome [OF inv E] readable socks_only [OF only] by fastforce
  let ?w = "w'\<lparr>dlinks := dlist_merge (dlinks w') (readbuf_queue s) (old_queue E)\<rparr>"
  have "echo_handle_read E K s w = outcome K s (reads K ?f) ?w"
    using run outcome_links [of K s "reads K ?f" w'] by (simp add: w'(1))
  moreover have "owns g ?w (set (bs' @ ol'))" by (rule owns_same [of g w']) (use w'(2) in \<open>simp_all add: between_def\<close>)
  then have "queue_ok F g E s ?w (bs' @ ol')"
    using dlist_merge_ring [of "dlinks w'" "readbuf_queue s" bs' "old_queue E" ol'] w'(2)
    by (auto simp: between_def queue_ok_def)
  moreover have ap': "apart (dlinks w') (dlinks ?w) (set (readbuf_queue s # bs' @ old_queue E # ol'))"
    using apart_merge [of "dlinks w'" "readbuf_queue s" bs' "old_queue E" ol'] w'(2) by (simp add: between_def)
  have "buffers_only F w' ?w" by (rule buffers_onlyI [OF _ ap']) (use w'(2) in \<open>auto simp: between_def\<close>)
  then have "buffers_only F w ?w" using only w'(3) buffers_only_trans by blast
  ultimately show ?thesis by blast
qed

lemma queue_ok_cong:
  "queue_ok F g E s w bs \<Longrightarrow> heap w' = heap w \<Longrightarrow> dlinks w' = dlinks w \<Longrightarrow> bufs w' = bufs w \<Longrightarrow> queue_ok F g E s w' bs"
  using owns_same [of g w "set bs" w'] by (simp add: queue_ok_def)

lemma disconnect_ok:
  assumes "queue_ok F g E s w bs"
  shows "\<exists>w'. echo_handle_disconnect K s w = Inr w' \<and> heap w' = g \<and> dring (dlinks w') (readbuf_queue s) [] \<and> buffers_only F w w'"
proof -
  have ring: "dring (dlinks w) (readbuf_queue s) bs" and own: "owns g w (set bs \<union> {})"
    and F: "F \<inter> set (readbuf_queue s # bs) = {}"
    using assms by (auto simp: queue_ok_def)
  obtain w' where w': "free_buffers (readbuf_queue s) w = Inr w'" "owns g w' {}" "dring (dlinks w') (readbuf_queue s) []"
    "buffers_only F w w'" by (rule free_buffers_ok [OF ring own _ F]) auto
  have g: "heap w' = g" using w'(2) by (auto simp: owns_def)
  show ?thesis
  proof (cases "bs = []")
    case True
    then have "heap w = g" using own by (auto simp: owns_def)
    with True ring dlist_empty_ring [OF ring] show ?thesis
      by (auto simp: echo_handle_disconnect_def run_simps)
  next
    case False
    with w' g dlist_empty_ring [OF ring] dlist_empty_ring [OF w'(3)] show ?thesis
      by (auto simp: echo_handle_disconnect_def run_simps)
  qed
qed


lemma read_answers:
  assumes "queue_ok F g E s w bs" and "allocator E (heads E s \<union> F)" and "m_readable (socks w s)"
    and "reads K (m_fd (socks w s)) = Inr b # rs" and "b \<noteq> []" and "replies rs"
    and "writes K (m_fd (socks w s)) = Inr k # ws" and "length (echo_page b) \<le> k"
  shows "\<exists>w'. echo_handle_read E K s w = Inr w' \<and> m_close (socks w' s) \<and> \<not> m_readable (socks w' s)
    \<and> shut (os w') (m_fd (socks w s))
    \<and> sent (os w') (m_fd (socks w s)) = sent (os w) (m_fd (socks w s)) @ echo_page b"
proof -
  obtain w' bs' where w': "echo_handle_read E K s w = outcome K s (reads K (m_fd (socks w s))) w'"
    "queue_ok F g E s w' bs'" "buffers_only F w w'"
    using handle_read_outcome [OF assms(1-3)] by blast
  have page: "echo_page b \<noteq> []" using assms(5) by (simp add: echo_page_def)
  have "snd (writev_loop (echo_page b) (Inr k # ws) 0 []) = echo_page b"
    using page assms(8) by simp
  then show ?thesis
    using w'(1,3) assms(4-7) socks_only [OF w'(3)]
    by (auto simp: finished_def answered_def buffers_only_def hixo_socket_close_def hixo_socket_shutdown_def
        write_out_def simp del: writev_loop.simps)
qed

section \<open>A concrete connection\<close>

text \<open>An allocator that gives out addresses above \<open>b\<close>.\<close>

definition env_above :: "int \<Rightarrow> echo_env" where
  "env_above b = \<lparr>calloc_buffer = (\<lambda>w. 1 + Max (insert b (dom (heap w)))),
     calloc_array = (\<lambda>w. 1 + Max (insert b (dom (heap w)))), old_queue = 8192, tmp_queue = 8208\<rparr>"

lemma env_above_queues [simp]: "old_queue (env_above b) = 8192" "tmp_queue (env_above b) = 8208"
  by (simp_all add: env_above_def)

definition echo_demo_env :: echo_env where
  "echo_demo_env = env_above 10000"

definition echo_demo_world :: world where
  "echo_demo_world = set_sock demo_world 4200 (\<lambda>k. k\<lparr>m_readable := True\<rparr>)"

definition echo_demo_kernel :: "(errno + byte list) list \<Rightarrow> kernel" where
  "echo_demo_kernel rs = demo_kernel\<lparr>reads := (\<lambda>_. []) (7 := rs)\<rparr>"

lemma env_above_allocates:
  assumes "0 \<le> b" and "\<forall>a \<in> H. a \<le> b"
  shows "allocator (env_above b) H"
  unfolding allocator_def
proof (intro allI impI)
  fix w :: world assume fin: "finite (dom (heap w))"
  let ?p = "1 + Max (insert b (dom (heap w)))"
  have below: "a < ?p" if "a \<in> insert b (dom (heap w))" for a
    using Max_ge [OF _ that] fin by simp
  have "?p \<notin> dom (heap w)" using below [of ?p] by blast
  moreover have p: "b < ?p" by (rule below) simp
  moreover have "buffer_node ?p \<notin> H" using assms p by (auto simp: buffer_node_def)
  ultimately have "heap w ?p = None \<and> 0 < ?p \<and> buffer_node ?p \<notin> H" using assms(1) by (simp add: domIff)
  then show "heap w (calloc_buffer (env_above b) w) = None \<and> 0 < calloc_buffer (env_above b) w
      \<and> buffer_node (calloc_buffer (env_above b) w) \<notin> H
      \<and> heap w (calloc_array (env_above b) w) = None \<and> 0 < calloc_array (env_above b) w
      \<and> buffer_node (calloc_array (env_above b) w) \<notin> H"
    unfolding env_above_def by simp
qed

lemma echo_demo_allocates: "\<forall>a \<in> H. a \<le> 10000 \<Longrightarrow> allocator echo_demo_env H"
  unfolding echo_demo_env_def by (rule env_above_allocates) simp_all

lemma echo_demo_allocator: "allocator echo_demo_env (heads echo_demo_env 4200 \<union> {})"
  by (rule echo_demo_allocates) (simp add: echo_demo_env_def readbuf_queue_def)

lemma echo_demo_ok: "queue_ok {} Map.empty echo_demo_env 4200 echo_demo_world []"
  and echo_demo_socket: "m_readable (socks echo_demo_world 4200)" "m_fd (socks echo_demo_world 4200) = 7"
    "sent (os echo_demo_world) 7 = []" "heap echo_demo_world = Map.empty"
    "reads (echo_demo_kernel rs) 7 = rs" "writes (echo_demo_kernel rs) 7 = [Inr 1000]"
  by (simp_all add: queue_ok_def echo_demo_world_def demo_world_def demo_links_def dring_def readbuf_queue_def
      echo_demo_env_def owns_def demo_client_def new_socket_def demo_os_def echo_demo_kernel_def demo_kernel_def)

section \<open>Properties\<close>

text \<open>C10. The read handler on a connection for which the first \<open>readv\<close> of the call gives data
  (\<open>b \<noteq> []\<close>), every later one data too until one finds no more or fails without a reset (\<open>replies rs\<close>:
  the peer has neither closed its side nor reset the connection), and the kernel takes the whole page in one
  \<open>writev\<close>: the handler sends a page whose body is the first of the data, at most 4096 bytes of the first
  \<open>readv\<close>, shuts the connection down and marks it to be closed.  What came behind is never sent.  The
  other cases are C40 (nothing to read) and \<open>echo_half_close\<close> (the peer closes its side).\<close>

theorem echo_answers_first_buffer:
  assumes "queue_ok F g E s w bs" and "allocator E (heads E s \<union> F)" and "m_readable (socks w s)"
    and "reads K (m_fd (socks w s)) = Inr b # rs" and "b \<noteq> []" and "replies rs"
    and "writes K (m_fd (socks w s)) = Inr k # ws" and "length (echo_page b) \<le> k"
  shows "\<exists>w'. echo_handle_read E K s w = Inr w' \<and> m_close (socks w' s) \<and> \<not> m_readable (socks w' s)
    \<and> shut (os w') (m_fd (socks w s))
    \<and> sent (os w') (m_fd (socks w s)) = sent (os w) (m_fd (socks w s)) @ echo_page b"
  by (rule read_answers [OF assms])

theorem echo_answers_first_buffer_witness:
  "\<exists>w'. echo_handle_read echo_demo_env (echo_demo_kernel [Inr [104, 105], Inr [33], Inl EAGAIN]) 4200 echo_demo_world = Inr w'
     \<and> sent (os w') 7 = echo_page [104, 105] \<and> m_close (socks w' 4200)"
proof -
  have "length (echo_page [104, 105]) \<le> 255 + 2" by (simp add: echo_page_def echo_head_def)
  then have len: "length (echo_page [104, 105]) \<le> 1000" by simp
  have "\<exists>w'. echo_handle_read echo_demo_env (echo_demo_kernel [Inr [104, 105], Inr [33], Inl EAGAIN]) 4200 echo_demo_world = Inr w'
     \<and> m_close (socks w' 4200) \<and> \<not> m_readable (socks w' 4200) \<and> shut (os w') (m_fd (socks echo_demo_world 4200))
     \<and> sent (os w') (m_fd (socks echo_demo_world 4200)) = sent (os echo_demo_world) (m_fd (socks echo_demo_world 4200)) @ echo_page [104, 105]"
    by (rule echo_answers_first_buffer [OF echo_demo_ok echo_demo_allocator, where k = 1000 and ws = "[]"
          and rs = "[Inr [33], Inl EAGAIN]"])
      (simp_all add: echo_demo_socket len EAGAIN_def ECONNRESET_def)
  then show ?thesis by (auto simp: echo_demo_socket)
qed

text \<open>A peer that sends its request and closes its side, or resets the connection, before the handler has
  read to the end gets no answer: the connection is only marked to be closed.\<close>

theorem echo_half_close:
  assumes "queue_ok F g E s w bs" and "allocator E (heads E s \<union> F)" and "m_readable (socks w s)"
    and "reads K (m_fd (socks w s)) = Inr b # rs" and "b = [] \<or> \<not> replies rs"
  shows "\<exists>w'. echo_handle_read E K s w = Inr w' \<and> m_close (socks w' s) \<and> os w' = os w"
proof -
  obtain w' bs' where "echo_handle_read E K s w = outcome K s (reads K (m_fd (socks w s))) w'"
    "buffers_only F w w'"
    using handle_read_outcome [OF assms(1-3)] by blast
  then show ?thesis using assms(4,5)
    by (auto simp: finished_def buffers_only_def hixo_socket_close_def split: if_splits)
qed

theorem echo_half_close_witness:
  "\<exists>w'. echo_handle_read echo_demo_env (echo_demo_kernel [Inr [104, 105], Inr []]) 4200 echo_demo_world = Inr w'
     \<and> m_close (socks w' 4200) \<and> os w' = os echo_demo_world"
  by (rule echo_half_close [OF echo_demo_ok echo_demo_allocator, where b = "[104, 105]" and rs = "[Inr []]"])
    (simp_all add: echo_demo_socket)


text \<open>C40. If the first \<open>readv\<close> of a call finds nothing, or fails in any way but a reset, the handler
  takes the head of the empty queue inside the socket for a buffer: it goes on with the memory of the
  socket as if it were a buffer (\<open>Wrong_object\<close>).\<close>

theorem echo_empty_wakeup:
  assumes "queue_ok F g E s w bs" and "allocator E (heads E s \<union> F)" and "m_readable (socks w s)"
    and "reads K (m_fd (socks w s)) = [] \<or> reads K (m_fd (socks w s)) = Inl e # rs \<and> e \<noteq> ECONNRESET"
  shows "echo_handle_read E K s w = Inl Wrong_object"
  using handle_read_outcome [OF assms(1-3), of K] assms(4) by auto

theorem echo_empty_wakeup_witness:
  "echo_handle_read echo_demo_env (echo_demo_kernel []) 4200 echo_demo_world = Inl Wrong_object"
  by (rule echo_empty_wakeup [OF echo_demo_ok echo_demo_allocator])
    (simp_all add: echo_demo_socket)

lemma returned_queue:
  assumes "queue_ok F g E s w bs" and "allocator E (heads E s \<union> F)" and "m_readable (socks w s)"
    and "echo_handle_read E K s w = Inr w1"
  obtains bs' w' where "queue_ok F g E s w1 bs'" and "buffers_only F w w'" and "outcome K s (reads K (m_fd (socks w s))) w' = Inr w1"
proof -
  obtain w' bs' where w': "outcome K s (reads K (m_fd (socks w s))) w' = Inr w1" "queue_ok F g E s w' bs'" "buffers_only F w w'"
    using handle_read_outcome [OF assms(1-3), of K] assms(4) by auto
  then have "heap w1 = heap w' \<and> dlinks w1 = dlinks w' \<and> bufs w1 = bufs w'"
    by (cases "(K, s, reads K (m_fd (socks w s)), w')" rule: outcome.cases)
      (auto simp: finished_parts hixo_socket_close_def split: if_splits)
  then have "queue_ok F g E s w1 bs'" using queue_ok_cong [OF w'(2)] by simp
  with w' show ?thesis by (intro that)
qed

lemma read_returned:
  assumes "queue_ok F g E s w bs" and "allocator E (heads E s \<union> F)" and "m_readable (socks w s)"
    and "echo_handle_read E K s w = Inr w1"
  shows "(\<exists>bs'. queue_ok F g E s w1 bs') \<and> m_close (socks w1 s) \<and> app_frame s w w1
    \<and> apart (dlinks w) (dlinks w1) (- F)"
proof -
  obtain bs' w' where w': "queue_ok F g E s w1 bs'" "buffers_only F w w'" "outcome K s (reads K (m_fd (socks w s))) w' = Inr w1"
    by (rule returned_queue [OF assms])
  have "m_close (socks w1 s) \<and> app_frame s w w1"
    using w'(2,3)
    by (cases "(K, s, reads K (m_fd (socks w s)), w')" rule: outcome.cases)
      (auto simp: finished_def answered_def buffers_only_def hixo_socket_close_def hixo_socket_shutdown_def
        write_out_def app_frame_def core_same_def flags_only_iff simp del: writev_loop.simps split: if_splits)
  moreover have "dlinks w1 = dlinks w'"
    using w'(3) by (cases "(K, s, reads K (m_fd (socks w s)), w')" rule: outcome.cases)
      (auto simp: finished_parts hixo_socket_close_def split: if_splits)
  ultimately show ?thesis using w'(1,2) unfolding buffers_only_def by metis
qed

text \<open>C12. Whenever the read handler returns, the queue of the socket is well formed again: a ring of
  buffers, each with an array of 4096 bytes of its own, the rest of the heap untouched.  The socket
  is marked to be closed, and nothing but its flags, its queue and what was sent has changed; the links
  of the nodes \<open>F\<close>, which are not the handler's, stay.\<close>

theorem echo_keeps_queue:
  assumes "queue_ok F g E s w bs" and "allocator E (heads E s \<union> F)" and "m_readable (socks w s)"
    and "echo_handle_read E K s w = Inr w1"
  shows "(\<exists>bs'. queue_ok F g E s w1 bs') \<and> m_close (socks w1 s) \<and> app_frame s w w1
    \<and> apart (dlinks w) (dlinks w1) (- F)"
  by (rule read_returned [OF assms])

theorem echo_keeps_queue_witness:
  "\<exists>w1 bs. echo_handle_read echo_demo_env (echo_demo_kernel [Inl ECONNRESET]) 4200 echo_demo_world = Inr w1
     \<and> queue_ok {} Map.empty echo_demo_env 4200 w1 bs \<and> m_close (socks w1 4200)"
proof -
  obtain w' where w': "echo_handle_read echo_demo_env (echo_demo_kernel [Inl ECONNRESET]) 4200 echo_demo_world
      = outcome (echo_demo_kernel [Inl ECONNRESET]) 4200 [Inl ECONNRESET] w'"
    using handle_read_outcome [OF echo_demo_ok echo_demo_allocator echo_demo_socket(1), of "echo_demo_kernel [Inl ECONNRESET]"]
    by (auto simp: echo_demo_socket)
  then obtain w1 where w1: "echo_handle_read echo_demo_env (echo_demo_kernel [Inl ECONNRESET]) 4200 echo_demo_world = Inr w1" by simp
  with echo_keeps_queue [OF echo_demo_ok echo_demo_allocator echo_demo_socket(1) w1] show ?thesis by auto
qed

text \<open>C11. No buffer is lost or freed twice: when the read handler returns, disconnecting the
  socket gives back every block that it took and all that were queued before, and leaves the
  queue empty.\<close>

theorem echo_frees_buffers:
  assumes "queue_ok F g E s w bs" and "allocator E (heads E s \<union> F)" and "m_readable (socks w s)"
    and "echo_handle_read E K s w = Inr w1"
  shows "\<exists>w2. echo_handle_disconnect K s w1 = Inr w2 \<and> heap w2 = g \<and> dring (dlinks w2) (readbuf_queue s) []"
proof -
  obtain bs' w' where "queue_ok F g E s w1 bs'" "buffers_only F w w'" by (rule returned_queue [OF assms])
  from disconnect_ok [OF this(1), of K] show ?thesis by blast
qed

theorem echo_frees_buffers_witness:
  "\<exists>w1 w2. echo_handle_read echo_demo_env (echo_demo_kernel [Inr [104, 105]]) 4200 echo_demo_world = Inr w1
     \<and> echo_handle_disconnect (echo_demo_kernel [Inr [104, 105]]) 4200 w1 = Inr w2 \<and> heap w2 = heap echo_demo_world"
proof -
  obtain w' bs' where w': "echo_handle_read echo_demo_env (echo_demo_kernel [Inr [104, 105]]) 4200 echo_demo_world
      = outcome (echo_demo_kernel [Inr [104, 105]]) 4200 [Inr [104, 105]] w'"
    using handle_read_outcome [OF echo_demo_ok echo_demo_allocator echo_demo_socket(1), of "echo_demo_kernel [Inr [104, 105]]"]
    by (auto simp: echo_demo_socket)
  then obtain w1 where w1: "echo_handle_read echo_demo_env (echo_demo_kernel [Inr [104, 105]]) 4200 echo_demo_world = Inr w1" by simp
  with echo_frees_buffers [OF echo_demo_ok echo_demo_allocator echo_demo_socket(1) w1] show ?thesis
    by (auto simp: echo_demo_socket)
qed

end
