(* ===== verification/EchoServer.thy ===== *)
theory EchoServer
  imports EchoRead Server
begin

text \<open>
  A worker that serves both application modules, \<open>simple_http.c\<close> and \<open>echo.c\<close>.  The contexts at
  the addresses \<open>es\<close> are those of \<open>echo\<close>.  Between two calls the queues of the connections are
  empty and all buffers are given back; only while a connection of \<open>echo\<close> is served, from the
  read handler to the disconnect handler, its queue holds buffers.  That is the state \<open>M\<close> of
  the contract \<open>app_modules\<close>.  At the end several such workers share the page of the accept lock.
\<close>

section \<open>The modules together\<close>

definition both_modules :: "echo_env \<Rightarrow> addr set \<Rightarrow> (addr \<Rightarrow> hixo_listen_conf list) \<Rightarrow> addr \<Rightarrow> app_ctx" where
  "both_modules E es srvs a = (if a \<in> es then echo_ctx E (srvs a) else simple_http_ctx (srvs a))"

text \<open>What the initialisation of a worker does to the ports of the servers.\<close>

definition swap_ports :: "hixo_listen_conf list \<Rightarrow> hixo_listen_conf list" where
  "swap_ports srvs = map (\<lambda>srv. srv\<lparr>m_port := htons (m_port srv)\<rparr>) srvs"

lemma init_swap: "simple_http_init_worker srvs = (HIXO_OK, swap_ports srvs)"
  "echo_init_worker srvs = (HIXO_OK, swap_ports srvs)"
  by (simp_all add: simple_http_init_worker_def echo_init_worker_def swap_ports_def
      foldl_update_map [of "\<lambda>srv. srv\<lparr>m_port := htons (m_port srv)\<rparr>"])

text \<open>Nodes of the double lists that no buffer and no queue on the stack may coincide with: the
  ring of the contexts and the heads in the sockets; and all of them but the head of \<open>s\<close>.\<close>

definition list_nodes :: "world \<Rightarrow> addr list \<Rightarrow> addr set" where
  "list_nodes w apps = set (app_ctx_list w # apps) \<union> readbuf_queue ` set (slots w)"

definition other_nodes :: "world \<Rightarrow> addr list \<Rightarrow> addr \<Rightarrow> addr set" where
  "other_nodes w apps s = set (app_ctx_list w # apps) \<union> readbuf_queue ` (set (slots w) - {s})"

definition memory_layout :: "echo_env \<Rightarrow> blocks \<Rightarrow> world \<Rightarrow> addr list \<Rightarrow> bool" where
  "memory_layout E g w apps \<longleftrightarrow> dring (dlinks w) (app_ctx_list w) apps
     \<and> old_queue E \<noteq> tmp_queue E \<and> {old_queue E, tmp_queue E} \<inter> list_nodes w apps = {}
     \<and> allocator E ({old_queue E, tmp_queue E} \<union> list_nodes w apps)
     \<and> (\<forall>s \<in> set (slots w). g (buffer_of (readbuf_queue s)) = None
          \<and> {readbuf_queue s, writebuf_queue s} \<inter> set (app_ctx_list w # apps) = {})"

text \<open>Between two calls.\<close>

definition queues_idle :: "echo_env \<Rightarrow> blocks \<Rightarrow> world \<Rightarrow> addr set \<Rightarrow> bool" where
  "queues_idle E g w S \<longleftrightarrow> (\<exists>apps. memory_layout E g w apps) \<and> heap w = g \<and> finite (dom g)
     \<and> (\<forall>s \<in> S. dring (dlinks w) (readbuf_queue s) [])"

text \<open>After the read handler of \<open>s\<close>.\<close>

definition queue_filled :: "echo_env \<Rightarrow> addr set \<Rightarrow> blocks \<Rightarrow> addr \<Rightarrow> world \<Rightarrow> addr set \<Rightarrow> bool" where
  "queue_filled E es g s w S \<longleftrightarrow>
     (\<exists>apps bs. memory_layout E g w apps \<and> queue_ok (other_nodes w apps s) g E s w bs
        \<and> (bs = [] \<or> m_close (socks w s) \<and> (\<exists>a \<in> es. mpf_disconnect_handler (socks w s) = App_disconnect a)))
     \<and> (\<forall>t \<in> S - {s}. dring (dlinks w) (readbuf_queue t) [])"

text \<open>The kernel has something to say about every descriptor that \<open>echo\<close> is asked to read: data, the
  end of the stream or a reset.\<close>

definition speaks :: "kernel \<Rightarrow> fd \<Rightarrow> bool" where
  "speaks K f \<longleftrightarrow> (\<exists>r rs. reads K f = r # rs \<and> (r = Inl ECONNRESET \<or> (\<exists>b. r = Inr b)))"

definition all_speak :: "addr set \<Rightarrow> kernel \<Rightarrow> bool" where
  "all_speak es K \<longleftrightarrow> es = {} \<or> (\<forall>f. speaks K f)"

lemma memory_layout_cong:
  assumes "memory_layout E g w apps" and "dring (dlinks w') (app_ctx_list w') apps"
    and "slots w' = slots w" and "app_ctx_list w' = app_ctx_list w"
  shows "memory_layout E g w' apps"
  using assms unfolding memory_layout_def list_nodes_def by simp

lemma other_nodes_head:
  assumes "memory_layout E g w apps" and "s \<in> set (slots w)"
  shows "list_nodes w apps = insert (readbuf_queue s) (other_nodes w apps s)"
    and "readbuf_queue s \<notin> other_nodes w apps s"
  using assms by (auto simp: memory_layout_def list_nodes_def other_nodes_def readbuf_queue_def)

lemma layout_allocator:
  assumes "memory_layout E g w apps" and "s \<in> set (slots w)"
  shows "allocator E (heads E s \<union> other_nodes w apps s)"
proof -
  have "heads E s \<union> other_nodes w apps s = {old_queue E, tmp_queue E} \<union> list_nodes w apps"
    unfolding other_nodes_head(1) [OF assms] by auto
  then show ?thesis using assms(1) by (simp add: memory_layout_def)
qed

lemma idle_queue_ok:
  assumes "memory_layout E g w apps" and "heap w = g" and "finite (dom g)"
    and "s \<in> set (slots w)" and "dring (dlinks w) (readbuf_queue s) []"
  shows "queue_ok (other_nodes w apps s) g E s w []"
  using assms(1-3,5) other_nodes_head [OF assms(1,4)] assms(4)
  by (auto simp: queue_ok_def owns_def memory_layout_def)

lemma owns_finite: "owns g w N \<Longrightarrow> finite (dom g)"
proof -
  assume own: "owns g w N"
  have "heap w a \<noteq> None" if "g a \<noteq> None" for a
    using own that by (cases "a \<in> (\<Union>n \<in> N. blocks_of w n)") (auto simp: owns_def)
  then have "dom g \<subseteq> dom (heap w)" by auto
  with own show ?thesis unfolding owns_def by (metis finite_subset)
qed

lemma slot_queues_apart:
  assumes "core_inv w conns ps fs xs" and "s \<in> set (slots w)" and "t \<in> set (slots w)" and "s \<noteq> t"
  shows "readbuf_queue t \<noteq> readbuf_queue s" and "readbuf_queue t \<noteq> writebuf_queue s"
proof -
  have "s + 104 \<le> t \<or> t + 104 \<le> s"
    using slot_distance [OF core_layout(1) [OF assms(1)]] assms(2-4) by (simp add: slots_slot_list)
  then show "readbuf_queue t \<noteq> readbuf_queue s" "readbuf_queue t \<noteq> writebuf_queue s"
    by (auto simp: readbuf_queue_def writebuf_queue_def)
qed

section \<open>The handlers keep the contract\<close>

lemma idle_cong:
  assumes "queues_idle E g w S" and "dlinks w' = dlinks w" and "heap w' = heap w"
    and "slots w' = slots w" and "app_ctx_list w' = app_ctx_list w"
  shows "queues_idle E g w' S"
  using assms memory_layout_cong [of E g w _ w'] unfolding queues_idle_def by (metis memory_layout_def)

lemma idle_create:
  assumes core: "core_inv w conns ps fs xs" and idle: "queues_idle E g w S" and S: "S \<subseteq> set (slots w)"
    and s: "s \<in> set (slots w)" "s \<notin> S" and ring: "dring (dlinks w) (app_ctx_list w) apps"
  shows "queues_idle E g (w\<lparr>dlinks := empty_queues (dlinks w) s\<rparr>) (insert s S)
    \<and> dring (empty_queues (dlinks w) s) (app_ctx_list w) apps"
proof -
  let ?w = "w\<lparr>dlinks := empty_queues (dlinks w) s\<rparr>"
  obtain apps' where lay': "memory_layout E g w apps'" using idle by (auto simp: queues_idle_def)
  then have "apps' = apps" using dring_unique [OF _ ring] by (simp add: memory_layout_def)
  with lay' have lay: "memory_layout E g w apps" by simp
  have ring': "dring (empty_queues (dlinks w) s) (app_ctx_list w) apps"
    by (rule empty_queues_frame [OF ring]) (use lay s(1) in \<open>auto simp: memory_layout_def\<close>)
  have "memory_layout E g ?w apps"
    by (rule memory_layout_cong [OF lay]) (simp_all add: ring' slots_def)
  moreover have "dring (empty_queues (dlinks w) s) (readbuf_queue t) []" if "t \<in> insert s S" for t
  proof (cases "t = s")
    case True
    then show ?thesis by (simp add: empty_queues_ring)
  next
    case False
    then have t: "t \<in> S" "t \<in> set (slots w)" using that S by auto
    have "dring (dlinks w) (readbuf_queue t) []" using idle t(1) by (simp add: queues_idle_def)
    then show ?thesis
      by (rule empty_queues_frame) (use slot_queues_apart [OF core s(1) t(2)] False in auto)
  qed
  ultimately have "queues_idle E g ?w (insert s S)" using idle by (auto simp: queues_idle_def)
  with ring' show ?thesis by blast
qed

lemma idle_filled:
  assumes "queues_idle E g w S" and "s \<in> S" and "S \<subseteq> set (slots w)"
  shows "queue_filled E es g s w S"
proof -
  obtain apps where lay: "memory_layout E g w apps" using assms(1) by (auto simp: queues_idle_def)
  have "queue_ok (other_nodes w apps s) g E s w []"
    by (rule idle_queue_ok [OF lay]) (use assms in \<open>auto simp: queues_idle_def\<close>)
  with lay assms(1) show ?thesis unfolding queue_filled_def queues_idle_def by blast
qed

lemma filled_idle:
  assumes "queue_filled E es g s w S" and "s \<in> S" and "\<not> m_close (socks w s)"
  shows "queues_idle E g w S"
proof -
  obtain apps where lay: "memory_layout E g w apps" and q: "queue_ok (other_nodes w apps s) g E s w []"
    using assms(1,3) by (auto simp: queue_filled_def)
  have own: "owns g w {}" and ring: "dring (dlinks w) (readbuf_queue s) []" using q by (simp_all add: queue_ok_def)
  have "heap w = g" using own by (auto simp: owns_def)
  with lay ring assms(1) owns_finite [OF own] show ?thesis
    unfolding queues_idle_def queue_filled_def by blast
qed

text \<open>What a handler of \<open>s\<close> that respects the nodes of the others leaves of them.\<close>

lemma others_stay:
  assumes lay: "memory_layout E g w apps" and ap: "apart (dlinks w) (dlinks w') (- other_nodes w apps s)"
    and S: "S \<subseteq> set (slots w)" and empty: "\<forall>t \<in> S - {s}. dring (dlinks w) (readbuf_queue t) []"
    and same: "slots w' = slots w" "app_ctx_list w' = app_ctx_list w"
  shows "memory_layout E g w' apps" and "\<forall>t \<in> S - {s}. dring (dlinks w') (readbuf_queue t) []"
    and "dring (dlinks w) (app_ctx_list w) apps' \<Longrightarrow> dring (dlinks w') (app_ctx_list w) apps'"
proof -
  have ring: "dring (dlinks w) (app_ctx_list w) apps" using lay by (simp add: memory_layout_def)
  have ring': "dring (dlinks w') (app_ctx_list w) apps"
    by (rule apart_ring [OF ring ap]) (auto simp: other_nodes_def)
  then show "memory_layout E g w' apps" by (intro memory_layout_cong [OF lay]) (simp_all add: same)
  show "dring (dlinks w) (app_ctx_list w) apps' \<Longrightarrow> dring (dlinks w') (app_ctx_list w) apps'"
    using dring_unique [OF _ ring] ring' by blast
  show "\<forall>t \<in> S - {s}. dring (dlinks w') (readbuf_queue t) []"
  proof
    fix t assume t: "t \<in> S - {s}"
    then have "dring (dlinks w) (readbuf_queue t) []" using empty by blast
    then show "dring (dlinks w') (readbuf_queue t) []"
      by (rule apart_ring [OF _ ap]) (use t S in \<open>auto simp: other_nodes_def\<close>)
  qed
qed

lemma echo_read_ok:
  assumes idle: "queues_idle E g w S" and s: "s \<in> S" and S: "S \<subseteq> set (slots w)" and a: "a \<in> es"
    and h: "mpf_disconnect_handler (socks w s) = App_disconnect a"
    and readable: "m_readable (socks w s)" and K: "speaks K (m_fd (socks w s))"
  shows "handler_ok (queue_filled E es g s) S s w (echo_handle_read E K s w)"
proof -
  obtain apps where lay: "memory_layout E g w apps" using idle by (auto simp: queues_idle_def)
  have sl: "s \<in> set (slots w)" using s S by blast
  have q: "queue_ok (other_nodes w apps s) g E s w []"
    by (rule idle_queue_ok [OF lay]) (use idle s sl in \<open>auto simp: queues_idle_def\<close>)
  note E = layout_allocator [OF lay sl]
  obtain w0 where "echo_handle_read E K s w = outcome K s (reads K (m_fd (socks w s))) w0"
    using handle_read_outcome [OF q E readable] by blast
  then obtain w1 where w1: "echo_handle_read E K s w = Inr w1"
    using K by (auto simp: speaks_def split: if_splits)
  obtain bs where bs: "queue_ok (other_nodes w apps s) g E s w1 bs" and close: "m_close (socks w1 s)"
    and frame: "app_frame s w w1" and ap: "apart (dlinks w) (dlinks w1) (- other_nodes w apps s)"
    using read_returned [OF q E readable w1] by blast
  note f = app_frame_simps [OF frame]
  have empty: "\<forall>t \<in> S - {s}. dring (dlinks w) (readbuf_queue t) []" using idle by (simp add: queues_idle_def)
  note stay = others_stay [OF lay ap S empty f(3,5)]
  have "other_nodes w1 apps s = other_nodes w apps s" by (simp add: other_nodes_def f)
  then have "queue_filled E es g s w1 S"
    using stay(1,2) bs close a h f(10) unfolding queue_filled_def by metis
  with w1 frame stay(3) show ?thesis by (auto simp: handler_ok_def)
qed

lemma echo_disconnect_ok:
  assumes filled: "queue_filled E es g s w S" and S: "S \<subseteq> set (slots w)"
  shows "handler_ok (queues_idle E g) (S - {s}) s w (echo_handle_disconnect K s w)"
proof -
  obtain apps bs where lay: "memory_layout E g w apps" and q: "queue_ok (other_nodes w apps s) g E s w bs"
    and empty: "\<forall>t \<in> S - {s}. dring (dlinks w) (readbuf_queue t) []"
    using filled by (auto simp: queue_filled_def)
  obtain w' where w': "echo_handle_disconnect K s w = Inr w'" "heap w' = g" "buffers_only (other_nodes w apps s) w w'"
    using disconnect_ok [OF q] by blast
  have frame: "app_frame s w w'" using w'(3) by (auto simp: buffers_only_def app_frame_def core_same_def)
  note f = app_frame_simps [OF frame]
  have "apart (dlinks w) (dlinks w') (- other_nodes w apps s)" using w'(3) by (simp add: buffers_only_def)
  note stay = others_stay [OF lay this S empty f(3,5)]
  have "finite (dom g)" using q owns_finite by (auto simp: queue_ok_def)
  then have "queues_idle E g w' (S - {s})" using stay(1,2) w'(2) by (auto simp: queues_idle_def)
  with w'(1) frame stay(3) show ?thesis by (auto simp: handler_ok_def)
qed

lemma handler_ok_same: "J w S \<Longrightarrow> handler_ok J S s w (Inr w)"
  by (simp add: handler_ok_def)

lemma both_read_ok:
  assumes idle: "queues_idle E g w S" and s: "s \<in> S" "S \<subseteq> set (slots w)"
    and h: "mpf_disconnect_handler (socks w s) = App_disconnect a" "m_readable (socks w s)" and K: "all_speak es K"
  shows "handler_ok (queue_filled E es g s) S s w (mpf_handle_read (both_modules E es srvs a) K s w)"
proof (cases "a \<in> es")
  case True
  have "handler_ok (queue_filled E es g s) S s w (echo_handle_read E K s w)"
    by (rule echo_read_ok [OF idle s True h]) (use K True in \<open>auto simp: all_speak_def\<close>)
  with True show ?thesis by (simp add: both_modules_def echo_ctx_def)
next
  case False
  let ?w = "test_syn_send K s w"
  have "queues_idle E g ?w S"
    by (rule idle_cong [OF idle test_syn_send_frame(2,5,3) app_frame_simps(5) [OF test_syn_send_frame(1)]])
  then have "queue_filled E es g s ?w S" by (rule idle_filled [OF _ s(1)]) (simp add: test_syn_send_frame s)
  then have "handler_ok (queue_filled E es g s) S s w (Inr ?w)"
    unfolding handler_ok_def using test_syn_send_frame(1,2) by auto
  with False show ?thesis by (simp add: both_modules_def simple_http_ctx_def simple_http_handle_read_def)
qed

lemma both_disconnect_ok:
  assumes filled: "queue_filled E es g s w S" and s: "s \<in> S" "S \<subseteq> set (slots w)"
    and h: "mpf_disconnect_handler (socks w s) = App_disconnect a"
  shows "handler_ok (queues_idle E g) (S - {s}) s w (mpf_handle_disconnect (both_modules E es srvs a) K s w)"
proof (cases "a \<in> es")
  case True
  with echo_disconnect_ok [OF filled s(2)] show ?thesis by (simp add: both_modules_def echo_ctx_def)
next
  case False
  with h have "\<not> (\<exists>a \<in> es. mpf_disconnect_handler (socks w s) = App_disconnect a)" by auto
  with filled obtain apps where lay: "memory_layout E g w apps" and own: "owns g w {}"
    and empty: "\<forall>t \<in> S - {s}. dring (dlinks w) (readbuf_queue t) []" by (auto simp: queue_filled_def queue_ok_def)
  have "heap w = g" using own by (auto simp: owns_def)
  then have "queues_idle E g w (S - {s})" unfolding queues_idle_def using lay empty owns_finite [OF own] by blast
  then have "handler_ok (queues_idle E g) (S - {s}) s w (Inr w)" by (rule handler_ok_same)
  with False show ?thesis
    by (simp add: both_modules_def simple_http_ctx_def simple_http_handle_disconnect_def)
qed

lemma both_other_ok:
  assumes "queues_idle E g w S"
  shows "handler_ok (queues_idle E g) S s w (mpf_handle_connect (both_modules E es srvs a) K s w)"
    and "handler_ok (queues_idle E g) S s w (mpf_handle_write (both_modules E es srvs a) K s w)"
  using handler_ok_same [of "queues_idle E g" w S s, OF assms]
  by (simp_all add: both_modules_def echo_ctx_def simple_http_ctx_def echo_handle_connect_def
      echo_handle_write_def simple_http_handle_connect_def simple_http_handle_write_def)

interpretation both: app_modules "both_modules E es srvs" "queues_idle E g" "queue_filled E es g"
  "all_speak es" for E es srvs g
proof unfold_locales
  fix w S T assume "queues_idle E g w S" "T \<subseteq> S"
  then show "queues_idle E g w T" by (auto simp: queues_idle_def)
qed (rule idle_cong idle_create idle_filled filled_idle both_read_ok both_disconnect_ok both_other_ok; assumption)+

section \<open>A concrete worker\<close>

definition both_demo_srvs :: "addr \<Rightarrow> hixo_listen_conf list" where
  "both_demo_srvs a = snd (echo_init_worker sa_echo_srvs)"

definition both_demo_kernel :: kernel where
  "both_demo_kernel = demo_kernel\<lparr>reads := (\<lambda>_. [Inr [104, 105], Inl EAGAIN]),
     incoming := (\<lambda>_. [])(3 := [\<lparr>acc_errno = 0, acc_port = Some 16671\<rparr>])\<rparr>"

lemma both_demo_idle: "queues_idle echo_demo_env Map.empty demo_world {4200}"
proof -
  have "memory_layout echo_demo_env Map.empty demo_world [640]"
    unfolding memory_layout_def list_nodes_def demo_slots
  proof (intro conjI)
    show "allocator echo_demo_env ({old_queue echo_demo_env, tmp_queue echo_demo_env}
        \<union> (set (app_ctx_list demo_world # [640]) \<union> readbuf_queue ` set [4096, 4200, 4304]))"
      by (rule echo_demo_allocates) (simp add: echo_demo_env_def readbuf_queue_def demo_world_def)
  qed (use demo_ring in \<open>simp_all add: echo_demo_env_def demo_world_def readbuf_queue_def writebuf_queue_def\<close>)
  moreover have "dring (dlinks demo_world) (readbuf_queue 4200) []"
    by (simp add: dring_def demo_world_def demo_links_def readbuf_queue_def)
  ultimately show ?thesis by (auto simp: queues_idle_def demo_world_def)
qed

lemma both_demo_inv: "worker_inv (queues_idle echo_demo_env Map.empty) [640] demo_world [4200, 4096] [] [4304]"
proof -
  have "set [4200, 4096] - set (mpp_servers demo_world) = {4200}" by (auto simp: demo_world_def)
  with demo_inv both_demo_idle show ?thesis unfolding worker_inv_def by metis
qed

lemma both_demo_kernel_ok:
  "kernel_ok (all_speak {640}) (both_modules echo_demo_env {640} both_demo_srvs) [640] both_demo_kernel"
proof -
  have "kernel_fds both_demo_kernel" "\<forall>f. del_errno both_demo_kernel f = 0"
    using demo_kernel_ok by (simp_all add: kernel_ok_def kernel_fds_def both_demo_kernel_def)
  moreover have "serves (both_modules echo_demo_env {640} both_demo_srvs 640) 16671"
    by (simp add: serves_def both_modules_def echo_ctx_def both_demo_srvs_def echo_init_worker_def
        sa_echo_srvs_def htons_def)
  ultimately show ?thesis
    by (simp add: kernel_ok_def incoming_ok_def all_speak_def speaks_def both_demo_kernel_def)
qed

lemma both_demo_reported: "reported demo_world (wait_events both_demo_kernel)"
  and both_demo_waits: "\<not> wait_failed both_demo_kernel"
  using demo_reported by (simp_all add: both_demo_kernel_def wait_failed_def demo_kernel_def)



section \<open>Rounds\<close>

text \<open>A round, with the heap.\<close>

lemma both_round:
  assumes "worker_inv (queues_idle E g) apps w conns [] fs"
    and "kernel_ok (all_speak es) (both_modules E es srvs) apps K" and "reported w (wait_events K)"
  shows "\<exists>w' conns' fs'. event_round (both_modules E es srvs) K timer w
        = Some (Inr (if wait_failed K then Inl (HIXO_ERROR, w') else Inr w'))
    \<and> worker_inv (queues_idle E g) apps w' conns' [] fs' \<and> heap w' = heap w
    \<and> m_power w' + int (length conns') = m_power w + int (length conns)
    \<and> mpp_servers w' = mpp_servers w \<and> slots w' = slots w
    \<and> (taken w \<and> unlistened w (wait_events K) \<longrightarrow>
         set conns' \<subseteq> set conns \<and> shm w' = shm w \<and> accept_lock w' = accept_lock w)"
proof -
  have heap: "heap v = g" if "worker_inv (queues_idle E g) apps v cs [] vs" for v cs vs
    using worker_inv_parts(6) [OF that] by (simp add: queues_idle_def)
  from both.event_round_inv [OF assms, of timer] obtain w' conns' fs' where
    w': "worker_inv (queues_idle E g) apps w' conns' [] fs'"
    and rest: "event_round (both_modules E es srvs) K timer w
        = Some (Inr (if wait_failed K then Inl (HIXO_ERROR, w') else Inr w'))"
    "m_power w' + int (length conns') = m_power w + int (length conns)"
    "mpp_servers w' = mpp_servers w" "slots w' = slots w"
    "taken w \<and> unlistened w (wait_events K) \<longrightarrow>
         set conns' \<subseteq> set conns \<and> shm w' = shm w \<and> accept_lock w' = accept_lock w" by blast
  have "heap w' = heap w" using heap [OF w'] heap [OF assms(1)] by simp
  with w' rest show ?thesis by blast
qed

section \<open>Several workers\<close>




section \<open>Properties\<close>

text \<open>C2. With both modules in one worker a round of the event loop returns as long as the kernel
  gives an echo connection that it reports something to read: no assertion fails, no memory is read
  that is no buffer, and all the blocks that serving took are given back by the end of the round.\<close>

theorem both_modules_round_safe:
  assumes "worker_inv (queues_idle E g) apps w conns [] fs"
    and "kernel_ok (all_speak es) (both_modules E es srvs) apps K" and "reported w (wait_events K)"
  shows "\<exists>w' conns' fs'. event_round (both_modules E es srvs) K timer w
        = Some (Inr (if wait_failed K then Inl (HIXO_ERROR, w') else Inr w'))
    \<and> worker_inv (queues_idle E g) apps w' conns' [] fs'
    \<and> heap w' = heap w \<and> m_power w' + int (length conns') = m_power w + int (length conns)
    \<and> mpp_servers w' = mpp_servers w \<and> slots w' = slots w"
  using both_round [OF assms, of timer] by blast

theorem both_modules_round_safe_witness:
  "\<exists>w' conns' fs'. event_round (both_modules echo_demo_env {640} both_demo_srvs) both_demo_kernel 1000 demo_world
      = Some (Inr (Inr w'))
    \<and> worker_inv (queues_idle echo_demo_env Map.empty) [640] w' conns' [] fs'
    \<and> heap w' = heap demo_world \<and> m_power w' + int (length conns') = m_power demo_world + int (length [4200 :: int, 4096])
    \<and> mpp_servers w' = mpp_servers demo_world \<and> slots w' = slots demo_world"
  using both_modules_round_safe [OF both_demo_inv both_demo_kernel_ok both_demo_reported, of 1000] both_demo_waits
  by (simp only: if_False)

text \<open>C4. The invariant of a worker with both modules holds after any number of rounds, one after the
  other, with any answers of the kernel that satisfy the conditions of C2 at each of them: the
  listeners stay, power and connections stay in balance, and all buffers have been given back.\<close>

theorem serving_keeps_worker:
  assumes "serving (all_speak es) (both_modules E es srvs) apps timer w w'"
    and "worker_inv (queues_idle E g) apps w conns [] fs"
  shows "\<exists>conns' fs'. worker_inv (queues_idle E g) apps w' conns' [] fs' \<and> heap w' = heap w
    \<and> m_power w' + int (length conns') = m_power w + int (length conns)
    \<and> mpp_servers w' = mpp_servers w \<and> slots w' = slots w"
proof -
  obtain conns' fs' where inv: "worker_inv (queues_idle E g) apps w' conns' [] fs'"
    and rest: "m_power w' + int (length conns') = m_power w + int (length conns)"
      "mpp_servers w' = mpp_servers w" "slots w' = slots w"
    using both.serving_inv [OF assms] by blast
  have "heap w' = heap w"
    using worker_inv_parts(6) [OF inv] worker_inv_parts(6) [OF assms(2)] by (simp add: queues_idle_def)
  with inv rest show ?thesis by blast
qed

theorem serving_keeps_worker_witness:
  "\<exists>w1 w2 conns fs. event_round (both_modules echo_demo_env {640} both_demo_srvs) both_demo_kernel 1000 demo_world
        = Some (Inr (Inr w1))
    \<and> event_round (both_modules echo_demo_env {640} both_demo_srvs) (both_demo_kernel\<lparr>wait_events := []\<rparr>) 1000 w1
        = Some (Inr (Inr w2))
    \<and> worker_inv (queues_idle echo_demo_env Map.empty) [640] w2 conns [] fs \<and> heap w2 = Map.empty
    \<and> m_power w2 + int (length conns) = 7"
proof -
  let ?A = "both_modules echo_demo_env {640} both_demo_srvs" and ?K = "both_demo_kernel\<lparr>wait_events := []\<rparr>"
  have K: "kernel_ok (all_speak {640}) ?A [640] ?K" "\<not> wait_failed ?K"
    using both_demo_kernel_ok both_demo_waits
    by (simp_all add: kernel_ok_def kernel_fds_def all_speak_def speaks_def wait_failed_def)
  have rep: "reported w (wait_events ?K)" for w by (simp add: reported_def)
  obtain w1 conns1 fs1 where w1: "event_round ?A both_demo_kernel 1000 demo_world = Some (Inr (Inr w1))"
    "worker_inv (queues_idle echo_demo_env Map.empty) [640] w1 conns1 [] fs1"
    using both_round [OF both_demo_inv both_demo_kernel_ok both_demo_reported, of 1000] both_demo_waits by auto
  obtain w2 where w2: "event_round ?A ?K 1000 w1 = Some (Inr (Inr w2))"
    using both_round [OF w1(2) K(1) rep, of 1000] K(2) by auto
  have "serving (all_speak {640}) ?A [640] 1000 demo_world w2"
    by (rule serving.round [OF serving.round [OF serving.start both_demo_kernel_ok both_demo_reported w1(1)] K(1) rep w2])
  from serving_keeps_worker [OF this both_demo_inv] w1(1) w2 show ?thesis
    by (auto simp: demo_world_def)
qed



text \<open>C22. The accept handler and the ports.  One connection waits on a listener, and its local port is
  \<open>p\<close>, which \<open>getsockname\<close> gives in network order, as the initialisation of the worker has stored the
  ports of the servers.  The connection gets the handlers of the first context on the ring that was
  configured for \<open>p\<close>, whichever module that is; when there is none the assertion about the context fails.\<close>

theorem accept_finds_module:
  fixes es :: "addr set"
  assumes inv: "worker_inv (queues_idle E g) apps w conns ps (s # fs)" and K: "kernel_fds K"
    and inc: "incoming K (m_fd (socks w l)) = [\<lparr>acc_errno = 0, acc_port = Some (htons p)\<rparr>]"
    and ports: "\<forall>a \<in> set apps. \<forall>srv \<in> set (srvs a). 0 \<le> m_port srv \<and> m_port srv < 2 ^ 16" "0 \<le> p" "p < 2 ^ 16"
  defines "A \<equiv> both_modules E es (\<lambda>a. swap_ports (srvs a))" and "fd \<equiv> new_fd K (open_fds (os w))"
  shows "case List.find (\<lambda>a. p \<in> m_port ` set (srvs a)) apps of
      None \<Rightarrow> hixo_handle_accept A K l w = Inl Assert_failed
    | Some a \<Rightarrow> \<exists>w' fs'. hixo_handle_accept A K l w = Inr w'
        \<and> worker_inv (queues_idle E g) apps w' (if add_errno K fd \<in> {0, EEXIST} then s # conns else conns) ps fs'
        \<and> m_fd (socks w' s) = fd \<and> mpf_read_handler (socks w' s) = App_read a
        \<and> mpf_write_handler (socks w' s) = App_write a \<and> mpf_disconnect_handler (socks w' s) = App_disconnect a"
proof -
  let ?r = "\<lparr>acc_errno = 0, acc_port = Some (htons p)\<rparr>"
  have swap: "htons (htons x) = x" if "0 \<le> x" "x < 2 ^ 16" for x
    using that by (simp add: htons_def)
  have "serves (A a) (htons p) \<longleftrightarrow> p \<in> m_port ` set (srvs a)" if "a \<in> set apps" for a
  proof -
    have "serves (A a) (htons p) \<longleftrightarrow> (\<exists>srv \<in> set (srvs a). htons p = htons (m_port srv))"
      by (simp add: A_def serves_def both_modules_def echo_ctx_def simple_http_ctx_def swap_ports_def)
    also have "\<dots> \<longleftrightarrow> (\<exists>srv \<in> set (srvs a). p = m_port srv)"
      using swap [of p] swap ports that by metis
    finally show ?thesis by auto
  qed
  then have find: "List.find (\<lambda>a. serves (A a) (htons p)) apps = List.find (\<lambda>a. p \<in> m_port ` set (srvs a)) apps"
    by (intro find_cong) simp_all
  have ev: "has_ev_ctx w" using worker_inv_parts(7) [OF inv] by simp
  show ?thesis
  proof (cases "List.find (\<lambda>a. p \<in> m_port ` set (srvs a)) apps")
    case None
    with both.accept_loop_unserved [OF inv K, of ?r "htons p"] find show ?thesis
      by (simp add: hixo_handle_accept_def inc ev run_simps A_def)
  next
    case (Some a)
    with find have served: "List.find (\<lambda>a. serves (A a) (htons p)) apps = Some a" by simp
    obtain w1 fs1 where w1: "accept_loop A K 0 [?r] w = accept_loop A K a [] w1"
      "worker_inv (queues_idle E g) apps w1 (new_conns K fd s conns) ps fs1"
      "m_fd (socks w1 s) = fd" "mpf_read_handler (socks w1 s) = App_read a"
      "mpf_write_handler (socks w1 s) = App_write a" "mpf_disconnect_handler (socks w1 s) = App_disconnect a"
      by (rule both.accept_loop_served [OF inv K, of ?r "htons p" es _ a 0 "[]"])
        (use served in \<open>simp_all add: A_def fd_def\<close>)
    obtain w2 fs2 where w2: "accept_loop A K a [] w1 = Inr w2"
      "worker_inv (queues_idle E g) apps w2 (new_conns K fd s conns) ps fs2" "socks w2 = socks w1"
      using both.accept_loop_end [OF w1(2)] unfolding A_def by blast
    have "hixo_handle_accept A K l w = accept_loop A K 0 [?r] w"
      by (simp add: hixo_handle_accept_def inc ev run_simps del: accept_loop.simps)
    then have "hixo_handle_accept A K l w = Inr w2" using w1(1) w2(1) by (simp del: accept_loop.simps)
    with w1(3-6) w2(2,3) show ?thesis unfolding Some option.case new_conns_def
      by (intro exI [of _ w2] exI [of _ fs2]) simp
  qed
qed

theorem accept_finds_module_witness:
  "(\<exists>w'. hixo_handle_accept (both_modules echo_demo_env {640} (\<lambda>_. swap_ports sa_echo_srvs)) both_demo_kernel 4096 demo_world = Inr w'
      \<and> mpf_read_handler (socks w' 4304) = App_read 640)
    \<and> hixo_handle_accept (both_modules echo_demo_env {640} (\<lambda>_. swap_ports sa_simple_http_srvs)) both_demo_kernel 4096 demo_world
      = Inl Assert_failed"
proof -
  have fd: "m_fd (socks demo_world 4096) = 3" by (simp add: demo_world_def demo_listener_def)
  have inc: "incoming both_demo_kernel 3 = [\<lparr>acc_errno = 0, acc_port = Some (htons 8001)\<rparr>]"
    by (simp add: both_demo_kernel_def htons_def)
  have K: "kernel_fds both_demo_kernel" using both_demo_kernel_ok by (simp add: kernel_ok_def)
  note found = accept_finds_module [OF both_demo_inv K, of 4096 8001]
  from found [of "\<lambda>_. sa_echo_srvs" "{640}"] found [of "\<lambda>_. sa_simple_http_srvs" "{640}"] show ?thesis
    unfolding fd using inc by (auto simp: sa_echo_srvs_def sa_simple_http_srvs_def)
qed

text \<open>C7. A connection of \<open>echo\<close> that is reported readable, with data in the first \<open>readv\<close>, more data or an
  error other than a reset behind it, but neither the end of the stream nor a reset, and a kernel that takes the
  whole page in one \<open>writev\<close>.  From the read handler to the end: the page made of the first data is sent, the
  connection is shut down and closed, its socket is free again, the power of the worker restored, and every
  buffer given back.  (A peer that closes its side early is closed without an answer, \<open>echo_half_close\<close>.)\<close>

theorem echo_request_served:
  assumes inv: "worker_inv (queues_idle E g) apps w conns ps fs" and s: "s \<in> set conns - set (mpp_servers w)"
    and h: "mpf_read_handler (socks w s) = App_read a" and a: "a \<in> es" and readable: "m_readable (socks w s)"
    and rd: "reads K (m_fd (socks w s)) = Inr b # rs" and b: "b \<noteq> []" and rs: "replies rs"
    and wr: "writes K (m_fd (socks w s)) = Inr k # ws" and len: "length (echo_page b) \<le> k"
  shows "\<exists>w'. serve_socket (both_modules E es srvs) K s w = Inr w'
    \<and> sent (os w') (m_fd (socks w s)) = sent (os w) (m_fd (socks w s)) @ echo_page b
    \<and> shut (os w') (m_fd (socks w s)) \<and> \<not> opened (os w') (m_fd (socks w s))
    \<and> m_power w' = m_power w + 1 \<and> heap w' = heap w
    \<and> worker_inv (queues_idle E g) apps w' (remove1 s conns) ps (s # fs)"
proof -
  let ?S = "set conns - set (mpp_servers w)" and ?f = "m_fd (socks w s)"
  note parts = worker_inv_parts [OF inv]
  have idle: "queues_idle E g w ?S" by (rule parts(6))
  have slot: "s \<in> set (slots w)" using clients_slots [OF inv] s by blast
  have "client apps (socks w s)" using parts(3) s unfolding socks_inv_def by blast
  then have hd: "mpf_disconnect_handler (socks w s) = App_disconnect a" using h by (auto simp: client_def)
  have K: "speaks K ?f" using rd by (simp add: speaks_def)
  obtain w1 where w1: "echo_handle_read E K s w = Inr w1" "worker_inv (queue_filled E es g s) apps w1 conns ps fs"
    "app_frame s w w1"
    by (rule handler_step [OF inv s echo_read_ok [OF idle s clients_slots [OF inv] a hd readable K]])
  note f1 = app_frame_simps [OF w1(3)]
  obtain apps' where lay: "memory_layout E g w apps'" using idle by (auto simp: queues_idle_def)
  have "queue_ok (other_nodes w apps' s) g E s w []"
    by (rule idle_queue_ok [OF lay]) (use idle s slot in \<open>auto simp: queues_idle_def\<close>)
  from read_answers [OF this layout_allocator [OF lay slot] readable rd b rs wr len] w1(1)
  have read: "m_close (socks w1 s)" "shut (os w1) ?f" "sent (os w1) ?f = sent (os w) ?f @ echo_page b" by auto
  have s1: "s \<in> set conns - set (mpp_servers w1)" using s by (simp add: f1)
  have filled: "queue_filled E es g s w1 (set conns - set (mpp_servers w1))" by (rule worker_inv_parts(6) [OF w1(2)])
  then obtain apps2 bs2 where "queue_ok (other_nodes w1 apps2 s) g E s w1 bs2" by (auto simp: queue_filled_def)
  from disconnect_ok [OF this, of K] obtain w2 where
    w2: "echo_handle_disconnect K s w1 = Inr w2" "heap w2 = g" "os w2 = os w1" "m_power w2 = m_power w1"
    by (auto simp: buffers_only_def)
  have J2: "queues_idle E g w2 (set conns - set (mpp_servers w1) - {s})" "app_frame s w1 w2"
    "dring (dlinks w2) (app_ctx_list w1) apps"
    using echo_disconnect_ok [OF filled clients_slots [OF w1(2)], of K] w2(1) worker_inv_parts(4) [OF w1(2)]
    by (auto simp: handler_ok_def)
  note f2 = app_frame_simps [OF J2(2)]
  have base2: "base_inv apps w2 conns ps fs"
    by (rule base_inv_frame [OF worker_inv_parts(1) [OF w1(2)] J2(2) _ J2(3)]) (use s1 in simp)
  have s2: "s \<in> set conns - set (mpp_servers w2)" "queues_idle E g w2 (set conns - set (mpp_servers w2) - {s})"
    using s1 J2(1) by (simp_all add: f2)
  obtain w' where w': "hixo_handle_close K s w2 = Inr w'"
    "worker_inv (queues_idle E g) apps w' (remove1 s conns) ps (s # fs)" "m_power w' = m_power w2 + 1"
    "socks w' = (socks w2)(s := (socks w2 s)\<lparr>m_readable := False, m_writable := False\<rparr>)"
    "opened (os w') = (opened (os w2))(m_fd (socks w2 s) := False)"
    using both.handle_close_ok [OF base2 s2] by blast
  have core2: "core_inv w2 conns ps fs []" and ev2: "has_ev_ctx w2" using base2 by (simp_all add: base_inv_def)
  have os': "sent (os w') = sent (os w2)" "shut (os w') = shut (os w2)"
    using handle_close_run [OF core2 ev2, of s K] s w'(1) by (metis Diff_iff sum.inject(2))+
  have fd: "m_fd (socks w2 s) = ?f"
    using w1(3) J2(2) flags_only_simps(1) by (metis app_frame_def)
  have "heap w' = g" using worker_inv_parts(6) [OF w'(2)] by (simp add: queues_idle_def)
  moreover have "heap w = g" using idle by (simp add: queues_idle_def)
  moreover have "serve_socket (both_modules E es srvs) K s w = Inr w'"
    using readable h hd a w1(1) read(1) w2(1) w'(1,4) f1(8-10) f2(8-10)
    by (simp add: serve_socket_def call_def both_modules_def echo_ctx_def)
  ultimately show ?thesis using w' w2 read os' f1(1) fd by (intro exI [of _ w']) simp
qed

theorem echo_request_served_witness:
  "let w = set_sock demo_world 4200 (\<lambda>k. k\<lparr>m_readable := True, m_writable := True\<rparr>)
   in \<exists>w'. serve_socket (both_modules echo_demo_env {640} both_demo_srvs) both_demo_kernel 4200 w = Inr w'
    \<and> sent (os w') 7 = echo_page [104, 105] \<and> shut (os w') 7 \<and> \<not> opened (os w') 7 \<and> m_power w' = 6
    \<and> heap w' = Map.empty \<and> worker_inv (queues_idle echo_demo_env Map.empty) [640] w' [4096] [] [4200, 4304]"
proof -
  let ?w = "set_sock demo_world 4200 (\<lambda>k. k\<lparr>m_readable := True, m_writable := True\<rparr>)"
  have w: "m_fd (socks ?w 4200) = 7" "sent (os ?w) 7 = []" "heap ?w = Map.empty" "m_power ?w = 5"
    by (simp_all add: demo_world_def demo_client_def new_socket_def demo_os_def)
  have "length (echo_page [104, 105]) \<le> 255 + 2" by (simp add: echo_page_def echo_head_def)
  then have len: "length (echo_page [104, 105]) \<le> 1000" by simp
  have "\<exists>w'. serve_socket (both_modules echo_demo_env {640} both_demo_srvs) both_demo_kernel 4200 ?w = Inr w'
    \<and> sent (os w') (m_fd (socks ?w 4200)) = sent (os ?w) (m_fd (socks ?w 4200)) @ echo_page [104, 105]
    \<and> shut (os w') (m_fd (socks ?w 4200)) \<and> \<not> opened (os w') (m_fd (socks ?w 4200))
    \<and> m_power w' = m_power ?w + 1 \<and> heap w' = heap ?w
    \<and> worker_inv (queues_idle echo_demo_env Map.empty) [640] w' (remove1 4200 [4200, 4096]) [] [4200, 4304]"
    by (rule echo_request_served [OF both.worker_inv_flags [OF both_demo_inv], where a = 640 and rs = "[Inl EAGAIN]"
          and k = 1000 and ws = "[]"])
      (use len in \<open>simp_all add: demo_world_def demo_client_def new_socket_def both_demo_kernel_def demo_kernel_def
        EAGAIN_def ECONNRESET_def\<close>)
  then show ?thesis unfolding w by (simp add: Let_def)
qed

end
