(* ===== verification/Modules.thy ===== *)
theory Modules
  imports Master EchoServer
begin

text \<open>
  The table of modules, \<open>gap_modules\<close>, and what becomes of the processes of the server: the
  functions of each module lifted to the state of a process, and the properties of
  \<open>hixo_main\<close> and of the loops of master and worker.
\<close>

unbundle bit_operations_syntax

section \<open>The modules\<close>

text \<open>What the operating system gives to one process; \<open>removed\<close> are the segments that other processes have
  removed before this one attaches its own, \<open>rounds\<close> the answers of the kernel in the successive rounds of the
  event loop.  The lists \<open>rounds\<close> of any length describe the worker at every moment of its life.\<close>

record machine =
  startup :: startup_calls
  removed :: "int set"
  lock_at :: "int \<Rightarrow> addr"
  epoll_create :: "fd \<times> errno \<times> addr"
  rounds :: "kernel list"

definition g_main_core_module :: hixo_module where
  "g_main_core_module = \<lparr>
     mpf_init_master = Some (\<lambda>s. let (rslt, cf, p) = main_core_init (s_conf s)
                                 in Inr (rslt, s\<lparr>s_conf := cf, mp_conf := p\<rparr>)),
     mpf_init_worker = None, mpf_exit_worker = None,
     mpf_exit_master = Some (\<lambda>s. Inr (s\<lparr>s_conf := destroy_conf (s_conf s)\<rparr>)),
     m_type = HIXO_MODULE_CORE, mpf_runloop = None\<rparr>"

definition run_event_loop :: "machine \<Rightarrow> hixo \<Rightarrow> progress run option" where
  "run_event_loop M s =
     (let c = g_core s
      in case event_loop (app_of s) (rounds M) (m_ev_timer_ms c) (wd c) of
           None \<Rightarrow> None
         | Some (Inl e) \<Rightarrow> Some (Inl e)
         | Some (Inr (Inr w)) \<Rightarrow> Some (Inr (Waiting (s\<lparr>g_core := c\<lparr>wd := w\<rparr>\<rparr>)))
         | Some (Inr (Inl (rslt, w))) \<Rightarrow> Some (Inr (Left rslt (s\<lparr>g_core := c\<lparr>wd := w\<rparr>\<rparr>))))"

definition with_core :: "hixo \<Rightarrow> (int \<times> core) run \<Rightarrow> (int \<times> hixo) run" where
  "with_core s r = bind_run r (\<lambda>(rslt, c). Inr (rslt, s\<lparr>g_core := c\<rparr>))"

definition g_event_core_module :: "machine \<Rightarrow> hixo_module" where
  "g_event_core_module M = \<lparr>
     mpf_init_master = Some (\<lambda>s. case mp_conf s of None \<Rightarrow> Inl Bad_access
       | Some p_conf \<Rightarrow> with_core s (event_core_init_master (startup M) p_conf
           (map (\<lambda>a. mpa_servers (app_of s a)) (app_nodes s)) (g_core s))),
     mpf_init_worker = Some (\<lambda>s. case mp_conf s of None \<Rightarrow> Inl Bad_access
       | Some p_conf \<Rightarrow> with_core s (event_core_init_worker p_conf (removed M) (lock_at M) True
           (app_nodes s) (g_core s))),
     mpf_exit_worker = Some (\<lambda>s. Inr (s\<lparr>g_core := event_core_exit_worker (g_core s)\<rparr>)),
     mpf_exit_master = Some (\<lambda>s. bind_run (event_core_exit_master (g_core s)) (\<lambda>c. Inr (s\<lparr>g_core := c\<rparr>))),
     m_type = HIXO_MODULE_CORE, mpf_runloop = Some (run_event_loop M)\<rparr>"

definition g_epoll_module :: "machine \<Rightarrow> hixo_module" where
  "g_epoll_module M = \<lparr>
     mpf_init_master = None,
     mpf_init_worker = Some (\<lambda>s. case epoll_create M of (ret, err, p) \<Rightarrow>
       (let (rslt, e, closed) = epoll_init (s_epoll s) ret err p in Inr (rslt, s\<lparr>s_epoll := e\<rparr>))),
     mpf_exit_worker = Some (\<lambda>s. Inr (s\<lparr>s_epoll := fst (epoll_exit (s_epoll s))\<rparr>)),
     mpf_exit_master = None,
     m_type = HIXO_MODULE_EVENT, mpf_runloop = None\<rparr>"

text \<open>An application module whose context is at node \<open>a\<close>; \<open>init\<close> is its worker initialisation,
  which changes the ports of its servers.\<close>

definition set_servers ::
    "(hixo_listen_conf list \<Rightarrow> int \<times> hixo_listen_conf list) \<Rightarrow> addr \<Rightarrow> hixo \<Rightarrow> (int \<times> hixo) run" where
  "set_servers init a s =
     (let r = init (mpa_servers (app_of s a))
      in Inr (fst r, s\<lparr>app_of := (app_of s)(a := (app_of s a)\<lparr>mpa_servers := snd r\<rparr>)\<rparr>))"

definition g_simple_http_module :: "addr \<Rightarrow> hixo_module" where
  "g_simple_http_module a = \<lparr>
     mpf_init_master = None, mpf_init_worker = Some (set_servers simple_http_init_worker a),
     mpf_exit_worker = None, mpf_exit_master = None,
     m_type = HIXO_MODULE_APP, mpf_runloop = None\<rparr>"

definition g_echo_module :: "addr \<Rightarrow> hixo_module" where
  "g_echo_module a = \<lparr>
     mpf_init_master = None, mpf_init_worker = Some (set_servers echo_init_worker a),
     mpf_exit_worker = None, mpf_exit_master = None,
     m_type = HIXO_MODULE_APP, mpf_runloop = None\<rparr>"

text \<open>The table with the application modules \<open>app_mods\<close>; \<open>the_modules\<close> is the one of the source.\<close>

definition gap_modules :: "machine \<Rightarrow> hixo_module list \<Rightarrow> hixo_module list" where
  "gap_modules M app_mods = [g_main_core_module, g_event_core_module M, g_epoll_module M] @ app_mods"

definition the_modules :: "machine \<Rightarrow> addr \<Rightarrow> addr \<Rightarrow> hixo_module list" where
  "the_modules M echo simple_http = gap_modules M [g_echo_module echo, g_simple_http_module simple_http]"

section \<open>Forking\<close>

text \<open>The \<open>j\<close>-th process of the chain of forks, where \<open>pids i\<close> is what the \<open>i\<close>-th fork gives to the
  process that calls it: it is the child of all forks before \<open>j\<close>.\<close>

definition fork_seen :: "(nat \<Rightarrow> int) \<Rightarrow> nat \<Rightarrow> nat \<Rightarrow> int" where
  "fork_seen pids j i = (if i < j then 0 else pids i)"

lemma spawn_loop_children:
  "i + k \<le> j \<Longrightarrow> spawn_loop (fork_seen pids j) ncpu [i..<i + k] cpid t = (if k = 0 then cpid else 0, t)"
proof (induction k arbitrary: i cpid)
  case (Suc k)
  have "[i..<i + Suc k] = i # [Suc i..<Suc i + k]" by (simp add: upt_rec)
  with Suc.IH [of "Suc i" 0] Suc.prems show ?case by (auto simp: fork_seen_def)
qed simp

lemma spawn_loop_parent:
  "i \<le> j \<Longrightarrow> j < n \<Longrightarrow> pids j = -1 \<or> 0 < pids j \<Longrightarrow>
     spawn_loop (fork_seen pids j) ncpu [i..<n] cpid t =
       (pids j, if pids j = -1 then t
                else t\<lparr>ga_pss_info := (ga_pss_info t)(j := \<lparr>m_pid = pids j, m_cpuid = int j mod ncpu\<rparr>),
                       gp_ps_info := Some j\<rparr>)"
proof (induction "j - i" arbitrary: i cpid)
  case 0
  then have "[i..<n] = j # [Suc j..<n]" by (simp add: upt_rec)
  with 0 show ?case by (auto simp: fork_seen_def Let_def)
next
  case (Suc d)
  then have "[i..<n] = i # [Suc i..<n]" "i < j" "d = j - Suc i" by (auto simp: upt_rec)
  with Suc show ?case by (simp add: fork_seen_def)
qed

section \<open>The loops\<close>

lemma master_loop_no_children: "g_child_count s = 0 \<Longrightarrow> master_loop cmd sigs s = Some (Inr (Inr s))"
  by (cases sigs) simp_all

definition no_core :: "hixo_module list \<Rightarrow> bool" where
  "no_core mods \<longleftrightarrow> (\<forall>m \<in> set mods. m_type m = HIXO_MODULE_APP)"

lemma no_core_simps [simp]: "no_core []" "no_core (m # mods) \<longleftrightarrow> m_type m = HIXO_MODULE_APP \<and> no_core mods"
  "no_core (rev mods) = no_core mods"
  by (auto simp: no_core_def)

lemma init_master_loop_apps: "no_core mods \<Longrightarrow> init_master_loop mods i rslt s = Inr (rslt, i + length mods, s)"
  by (induction mods arbitrary: i) simp_all

lemma exit_master_loop_apps: "no_core mods \<Longrightarrow> exit_master_loop (mods @ ms) s = exit_master_loop ms s"
  by (induction mods) simp_all

lemma module_types [simp]:
  "m_type g_main_core_module = HIXO_MODULE_CORE" "m_type (g_event_core_module M) = HIXO_MODULE_CORE"
  "m_type (g_epoll_module M) = HIXO_MODULE_EVENT" "m_type (g_simple_http_module a) = HIXO_MODULE_APP"
  "m_type (g_echo_module a) = HIXO_MODULE_APP"
  by (simp_all add: g_main_core_module_def g_event_core_module_def g_epoll_module_def g_simple_http_module_def
      g_echo_module_def)

lemma exit_modules:
  assumes "no_core app_mods" and "event_core_exit_master (g_core s) = Inr c"
  shows "exit_master_loop (rev (gap_modules M app_mods)) s
    = Inr (s\<lparr>g_core := c, s_conf := destroy_conf (s_conf s)\<rparr>)"
proof -
  have "rev (gap_modules M app_mods) = rev app_mods @ [g_epoll_module M, g_event_core_module M, g_main_core_module]"
    by (simp add: gap_modules_def)
  then show ?thesis
    using assms by (simp add: exit_master_loop_apps g_event_core_module_def g_main_core_module_def)
qed

definition nservers :: "hixo \<Rightarrow> nat" where
  "nservers s = sum_list (map (\<lambda>a. length (mpa_servers (app_of s a))) (app_nodes s))"

text \<open>A process that starts: the memory of the program is zero, it is nobody's worker.\<close>

definition boot :: "machine \<Rightarrow> hixo \<Rightarrow> bool" where
  "boot M s \<longleftrightarrow> fresh (startup M) (snd (create_conf (s_conf s))) (nservers s) (g_core s)
     \<and> gp_ps_info (pss s) = None \<and> g_child_count s = 0"

definition started :: "hixo \<Rightarrow> core \<Rightarrow> hixo" where
  "started s c = s\<lparr>s_conf := snd (create_conf (s_conf s)), mp_conf := Some (snd (create_conf (s_conf s))), g_core := c\<rparr>"

lemma init_modules:
  assumes "no_core app_mods"
    and "event_core_init_master (startup M) (snd (create_conf (s_conf s)))
           (map (\<lambda>a. mpa_servers (app_of s a)) (app_nodes s)) (g_core s) = Inr (rslt, c)"
  shows "init_master_loop (gap_modules M app_mods) 0 HIXO_OK s =
    (if rslt = HIXO_ERROR then Inr (HIXO_ERROR, 1, started s c)
     else Inr (rslt, length (gap_modules M app_mods), started s c))"
  using assms
  by (simp add: gap_modules_def g_main_core_module_def main_core_init_def create_conf_def Let_def
      HIXO_OK_def HIXO_ERROR_def started_def g_event_core_module_def with_core_def g_epoll_module_def
      init_master_loop_apps)

lemma hixo_main_failed:
  assumes "no_core app_mods"
    and "event_core_init_master (startup M) (snd (create_conf (s_conf s)))
           (map (\<lambda>a. mpa_servers (app_of s a)) (app_nodes s)) (g_core s) = Inr (HIXO_ERROR, c)"
  shows "\<exists>s'. hixo_main sys (gap_modules M app_mods) s = Some (Inr (Returned HIXO_ERROR s')) \<and> g_core s' = c"
  using init_modules [OF assms]
  by (simp add: hixo_main_def leave_main_def gap_modules_def g_main_core_module_def started_def destroy_conf_def)

text \<open>The descriptors of the listeners.\<close>

definition listener_fds :: "world \<Rightarrow> fd set" where
  "listener_fds w = (\<lambda>s. m_fd (socks w s)) ` set (mpp_servers w)"

text \<open>What the first process does, by what its fork gives.  The signals stay held back in the worker and
  after a fork that has failed; the master has installed its handlers and got its mask back.\<close>

definition master_signals :: "sig_state \<Rightarrow> sig_state" where
  "master_signals sg = sigaction SIGINT Sig_int_handler (sigaction SIGCHLD Sig_child_handler (sigprocmask (blocked sg) sg))"

text \<open>The parent of the first fork as it enters its loop.\<close>

definition first_worker :: "main_calls \<Rightarrow> hixo \<Rightarrow> core \<Rightarrow> hixo" where
  "first_worker sys s c = (started s c)\<lparr>
     pss := (pss s)\<lparr>ga_pss_info := (ga_pss_info (pss s))(0 := \<lparr>m_pid = fork_result sys 0, m_cpuid = 0\<rparr>),
                    gp_ps_info := Some 0\<rparr>,
     signals := sigprocmask sigfillset (signals s),
     g_core := c\<lparr>wd := (wd c)\<lparr>m_power := 8750\<rparr>\<rparr>,
     affinity := (if affinity_ok sys then {0} else affinity s)\<rparr>"

lemma hixo_main_spawned:
  assumes app: "no_core app_mods" and boot: "boot M s"
    and init: "event_core_init_master (startup M) (snd (create_conf (s_conf s)))
           (map (\<lambda>a. mpa_servers (app_of s a)) (app_nodes s)) (g_core s) = Inr (HIXO_OK, c)"
  shows "fork_result sys 0 = -1 \<Longrightarrow> hixo_main sys (gap_modules M app_mods) s
      = leave_main (gap_modules M app_mods) (length (gap_modules M app_mods)) HIXO_OK
          ((started s c)\<lparr>signals := sigprocmask sigfillset (signals s)\<rparr>)"
    and "fork_result sys 0 = 0 \<Longrightarrow> sigaction_ok sys = (True, True) \<Longrightarrow>
      hixo_main sys (gap_modules M app_mods) s
      = leave_main (gap_modules M app_mods) (length (gap_modules M app_mods)) HIXO_OK
          ((started s c)\<lparr>signals := master_signals (signals s)\<rparr>)"
    and "0 < fork_result sys 0 \<Longrightarrow> hixo_main sys (gap_modules M app_mods) s
      = worker_turns (turns sys) (gap_modules M app_mods) (first_worker sys s c)"
proof -
  have run: "init_master_loop (gap_modules M app_mods) 0 HIXO_OK s
      = Inr (HIXO_OK, length (gap_modules M app_mods), started s c)"
    using init_modules [OF app init] by (simp add: HIXO_OK_def HIXO_ERROR_def)
  have conf: "mp_conf (started s c) = Some (snd (create_conf (s_conf s)))" "pss (started s c) = pss s"
      "g_core (started s c) = c" "g_child_count (started s c) = 0" "gp_ps_info (pss s) = None"
      "signals (started s c) = signals s" "affinity (started s c) = affinity s"
    using boot by (simp_all add: started_def boot_def)
  have cf: "m_daemon (snd (create_conf (s_conf s))) = False" "m_worker_processes (snd (create_conf (s_conf s))) = 1"
      "m_max_connections (snd (create_conf (s_conf s))) = 10000"
    by (simp_all add: create_conf_def)
  have ne: "HIXO_OK \<noteq> HIXO_ERROR" by (simp add: HIXO_OK_def HIXO_ERROR_def)
  note main = hixo_main_def run conf cf ne assert_run_def hixo_spawn_workers_def HIXO_MAX_PSS_def Let_def
  show "hixo_main sys (gap_modules M app_mods) s
      = leave_main (gap_modules M app_mods) (length (gap_modules M app_mods)) HIXO_OK
          ((started s c)\<lparr>signals := sigprocmask sigfillset (signals s)\<rparr>)"
    if "fork_result sys 0 = -1"
    using that by (simp add: main) (simp add: started_def)
  have masks: "sigprocmask (m - {SIGKILL, SIGSTOP}) sg = sigprocmask m sg"
    "sigprocmask m (sigaction n h sg) = sigaction n h (sigprocmask m sg)" for m n h sg
    by (auto simp: sigprocmask_def sigaction_def)
  show "hixo_main sys (gap_modules M app_mods) s
      = leave_main (gap_modules M app_mods) (length (gap_modules M app_mods)) HIXO_OK
          ((started s c)\<lparr>signals := master_signals (signals s)\<rparr>)"
    if "fork_result sys 0 = 0" "sigaction_ok sys = (True, True)"
    using that by (simp add: main master_main_def master_loop_no_children set_signals_def master_signals_def masks)
      (simp add: started_def)
  show "hixo_main sys (gap_modules M app_mods) s
      = worker_turns (turns sys) (gap_modules M app_mods) (first_worker sys s c)"
    if "0 < fork_result sys 0"
    using that by (simp add: main c_div_def worker_main_def) (simp add: first_worker_def started_def)
qed

lemma listening_power: "listening aps w fs \<Longrightarrow> listening aps (w\<lparr>m_power := n\<rparr>) fs"
  unfolding listening_def
  by (auto intro: core_inv_cong [of w] ring_apart_cong [of w] simp: socks_inv_def slots_def)

section \<open>The turns of a worker\<close>

text \<open>The application modules whose contexts are at the nodes \<open>as\<close>: those of \<open>echo\<close> at the nodes \<open>es\<close>, and
  otherwise those of \<open>simple_http\<close>.  The table of the source has one of each.\<close>

definition app_module :: "addr set \<Rightarrow> addr \<Rightarrow> hixo_module" where
  "app_module es a = (if a \<in> es then g_echo_module a else g_simple_http_module a)"

abbreviation server_modules :: "machine \<Rightarrow> addr set \<Rightarrow> hixo \<Rightarrow> hixo_module list" where
  "server_modules M es s \<equiv> gap_modules M (map (app_module es) (app_nodes s))"

lemma the_modules_server: "echo \<noteq> simple_http \<Longrightarrow>
    the_modules M echo simple_http = gap_modules M (map (app_module {echo}) [echo, simple_http])"
  by (simp add: the_modules_def app_module_def)

text \<open>A process in which the event core has been initialised, with these modules.  The buffers of
  \<open>echo\<close> and the queues on its stack will be apart from the lists that exist.\<close>

definition buffers_apart :: "echo_env \<Rightarrow> world \<Rightarrow> addr list \<Rightarrow> bool" where
  "buffers_apart E w nodes \<longleftrightarrow> old_queue E \<noteq> tmp_queue E \<and> {old_queue E, tmp_queue E} \<inter> list_nodes w nodes = {}
     \<and> allocator E ({old_queue E, tmp_queue E} \<union> list_nodes w nodes)
     \<and> finite (dom (heap w)) \<and> (\<forall>s \<in> set (slots w). heap w (buffer_of (readbuf_queue s)) = None)"

definition server_process ::
    "machine \<Rightarrow> echo_env \<Rightarrow> addr set \<Rightarrow> (addr \<Rightarrow> hixo_listen_conf list) \<Rightarrow> hixo \<Rightarrow> addr list \<Rightarrow> bool" where
  "server_process M E es srvs s fs \<longleftrightarrow> listening [] (wd (g_core s)) fs \<and> m_shmid (g_core s) \<noteq> -1
     \<and> mp_conf s \<noteq> None \<and> modules_ok (g_core s) (app_nodes s) \<and> app_of s = both_modules E es srvs
     \<and> lock_at M (m_shmid (g_core s)) \<noteq> 0 \<and> buffers_apart E (wd (g_core s)) (app_nodes s)"

lemma no_core_apps: "no_core (map (app_module es) as)"
  by (auto simp: no_core_def app_module_def)

lemma init_apps_loop:
  "distinct as \<Longrightarrow> app_of s = both_modules E es srvs \<Longrightarrow>
     init_worker_loop HIXO_MODULE_APP (map (app_module es) as) HIXO_OK s
       = Inr (HIXO_OK, s\<lparr>app_of := both_modules E es (\<lambda>a. if a \<in> set as then swap_ports (srvs a) else srvs a)\<rparr>)"
proof (induction as arbitrary: s srvs)
  case (Cons a as)
  let ?s = "s\<lparr>app_of := (app_of s)(a := (app_of s a)\<lparr>mpa_servers := swap_ports (srvs a)\<rparr>)\<rparr>"
  let ?srvs = "srvs(a := swap_ports (srvs a))"
  have A: "app_of ?s = both_modules E es ?srvs"
    using Cons.prems(2) by (auto simp: both_modules_def simple_http_ctx_def echo_ctx_def fun_eq_iff)
  have step: "mpf_init_worker (app_module es a) = Some f \<Longrightarrow> f s = Inr (HIXO_OK, ?s)" for f
    using Cons.prems(2)
    by (auto simp: app_module_def g_echo_module_def g_simple_http_module_def set_servers_def init_swap
        both_modules_def simple_http_ctx_def echo_ctx_def)
  have "init_worker_loop HIXO_MODULE_APP (map (app_module es) as) HIXO_OK ?s
      = Inr (HIXO_OK, ?s\<lparr>app_of := both_modules E es (\<lambda>b. if b \<in> set as then swap_ports (?srvs b) else ?srvs b)\<rparr>)"
    by (rule Cons.IH [OF _ A]) (use Cons.prems(1) in simp)
  moreover have "(\<lambda>b. if b \<in> set as then swap_ports (?srvs b) else ?srvs b)
      = (\<lambda>b. if b \<in> set (a # as) then swap_ports (srvs b) else srvs b)"
    using Cons.prems(1) by (auto simp: fun_eq_iff)
  moreover have "mpf_init_worker (app_module es a) \<noteq> None" "m_type (app_module es a) = HIXO_MODULE_APP"
    by (simp_all add: app_module_def g_echo_module_def g_simple_http_module_def)
  ultimately show ?case using step by auto
qed (simp add: both_modules_def)

text \<open>The invariant of the event loop, with the modules that the process has.\<close>

lemma server_init_ok:
  assumes proc: "server_process M E es srvs s fs" and seg: "m_shmid (g_core s) \<in> segments (g_core s) - removed M"
  obtains c where "event_core_init_worker (the (mp_conf s)) (removed M) (lock_at M) True (app_nodes s) (g_core s) = Inr (HIXO_OK, c)"
    and "worker_inv (queues_idle E (heap (wd c))) (rev (app_nodes s)) (wd c) (rev (mpp_servers (wd c))) [] fs"
    and "heap (wd c) = heap (wd (g_core s))" and "m_shmid c = m_shmid (g_core s)" and "segments c = segments (g_core s) - removed M"
    and "socks (wd c) = socks (wd (g_core s))" and "mpp_servers (wd c) = mpp_servers (wd (g_core s))"
    and "m_ev_timer_ms c = m_ev_timer_ms (set_timer (the (mp_conf s)) (g_core s))"
    and "itimer c = itimer (set_timer (the (mp_conf s)) (g_core s))"
proof -
  have p: "listening [] (wd (g_core s)) fs" "m_shmid (g_core s) \<noteq> -1"
    "modules_ok (g_core s) (app_nodes s)" "lock_at M (m_shmid (g_core s)) \<noteq> 0"
    and apart: "buffers_apart E (wd (g_core s)) (app_nodes s)"
    using proc by (simp_all add: server_process_def)
  obtain c where c: "event_core_init_worker (the (mp_conf s)) (removed M) (lock_at M) True (app_nodes s) (g_core s) = Inr (HIXO_OK, c)"
    and inv: "worker_inv ring_apart (rev (app_nodes s)) (wd c) (rev (mpp_servers (wd c))) [] fs"
    and same: "m_shmid c = m_shmid (g_core s)" "segments c = segments (g_core s) - removed M" "heap (wd c) = heap (wd (g_core s))"
      "slots (wd c) = slots (wd (g_core s))" "app_ctx_list (wd c) = app_ctx_list (wd (g_core s))"
      "m_ev_timer_ms c = m_ev_timer_ms (set_timer (the (mp_conf s)) (g_core s))"
      "itimer c = itimer (set_timer (the (mp_conf s)) (g_core s))"
      "socks (wd c) = socks (wd (g_core s))" "mpp_servers (wd c) = mpp_servers (wd (g_core s))"
    by (rule init_worker_ok [where lock_at = "lock_at M", OF p(1) seg p(2,4,3)]) blast
  note parts = worker_inv_parts [OF inv]
  have nodes: "list_nodes (wd c) (rev (app_nodes s)) = list_nodes (wd (g_core s)) (app_nodes s)"
    by (simp add: list_nodes_def same)
  have "\<forall>t \<in> set (slots (wd c)). readbuf_queue t \<notin> set (app_ctx_list (wd c) # rev (app_nodes s))
      \<and> writebuf_queue t \<notin> set (app_ctx_list (wd c) # rev (app_nodes s))"
    using parts(4,6) unfolding ring_apart_def by blast
  then have "memory_layout E (heap (wd c)) (wd c) (rev (app_nodes s))"
    using apart parts(4) unfolding memory_layout_def nodes buffers_apart_def by (simp add: same)
  then have "queues_idle E (heap (wd c)) (wd c) {}"
    using apart by (auto simp: queues_idle_def buffers_apart_def same)
  then have "worker_inv (queues_idle E (heap (wd c))) (rev (app_nodes s)) (wd c) (rev (mpp_servers (wd c))) [] fs"
    using inv by (simp add: worker_inv_def)
  with c same show ?thesis by (intro that)
qed

lemma worker_inits:
  assumes "no_core app_mods"
  shows "INIT_WORKER (gap_modules M app_mods) HIXO_MODULE_CORE s = (case mp_conf s of None \<Rightarrow> Inl Bad_access
      | Some p_conf \<Rightarrow> with_core s (event_core_init_worker p_conf (removed M) (lock_at M) True (app_nodes s) (g_core s)))"
    and "INIT_WORKER (gap_modules M app_mods) HIXO_MODULE_EVENT s = (case epoll_create M of (ret, err, p) \<Rightarrow>
      (let (rslt, e, closed) = epoll_init (s_epoll s) ret err p in Inr (rslt, s\<lparr>s_epoll := e\<rparr>)))"
    and "INIT_WORKER (gap_modules M app_mods) HIXO_MODULE_APP s = init_worker_loop HIXO_MODULE_APP app_mods HIXO_OK s"
proof -
  have skip: "t \<noteq> HIXO_MODULE_APP \<Longrightarrow> init_worker_loop t app_mods r s' = Inr (r, s')" for t r s'
    using assms by (induction app_mods) auto
  show "INIT_WORKER (gap_modules M app_mods) HIXO_MODULE_CORE s = (case mp_conf s of None \<Rightarrow> Inl Bad_access
      | Some p_conf \<Rightarrow> with_core s (event_core_init_worker p_conf (removed M) (lock_at M) True (app_nodes s) (g_core s)))"
  proof (cases "mp_conf s")
    case (Some p_conf)
    then show ?thesis
      by (cases "with_core s (event_core_init_worker p_conf (removed M) (lock_at M) True (app_nodes s) (g_core s))")
        (auto simp: INIT_WORKER_def gap_modules_def g_main_core_module_def g_event_core_module_def skip)
  qed (simp add: INIT_WORKER_def gap_modules_def g_main_core_module_def g_event_core_module_def)
  show "INIT_WORKER (gap_modules M app_mods) HIXO_MODULE_EVENT s = (case epoll_create M of (ret, err, p) \<Rightarrow>
      (let (rslt, e, closed) = epoll_init (s_epoll s) ret err p in Inr (rslt, s\<lparr>s_epoll := e\<rparr>)))"
    by (simp add: INIT_WORKER_def gap_modules_def g_main_core_module_def
        g_event_core_module_def g_epoll_module_def skip Let_def split: prod.split)
  show "INIT_WORKER (gap_modules M app_mods) HIXO_MODULE_APP s = init_worker_loop HIXO_MODULE_APP app_mods HIXO_OK s"
    by (simp add: INIT_WORKER_def gap_modules_def g_main_core_module_def g_event_core_module_def g_epoll_module_def)
qed

lemma exit_loop_apps:
  "no_core mods \<Longrightarrow> \<forall>m \<in> set mods. mpf_exit_master m = None \<Longrightarrow> EXIT_WORKER mods t s = Inr s"
  by (induction mods) auto

lemma exit_types:
  assumes "no_core app_mods" and "\<forall>m \<in> set app_mods. mpf_exit_master m = None"
    and "event_core_exit_master (g_core s) = Inr c"
  shows "exit_workers (gap_modules M app_mods) [HIXO_MODULE_APP, HIXO_MODULE_EVENT, HIXO_MODULE_CORE] rslt s
    = Inr (Left rslt (s\<lparr>g_core := c, s_conf := destroy_conf (s_conf s)\<rparr>))"
proof -
  note mods = gap_modules_def g_main_core_module_def g_event_core_module_def g_epoll_module_def
  have "EXIT_WORKER (gap_modules M app_mods) HIXO_MODULE_APP s' = Inr s'"
    "EXIT_WORKER (gap_modules M app_mods) HIXO_MODULE_EVENT s' = Inr s'" for s'
    using exit_loop_apps [OF assms(1,2)] by (simp_all add: mods)
  moreover have "EXIT_WORKER (gap_modules M app_mods) HIXO_MODULE_CORE s
      = Inr (s\<lparr>g_core := c, s_conf := destroy_conf (s_conf s)\<rparr>)"
    using exit_loop_apps [OF assms(1,2)] assms(3) by (simp add: mods)
  ultimately show ?thesis by (simp add: exit_workers_def)
qed

lemma run_loops_core:
  assumes "no_core app_mods" and "run_event_loop M s = Some (Inr (Waiting s')) \<or> run_event_loop M s = Some (Inr (Left (-1) s'))"
  shows "run_loops (gap_modules M app_mods) rslt s = run_event_loop M s"
  using assms(2) by (auto simp: gap_modules_def g_main_core_module_def g_event_core_module_def)

text \<open>A worker that has left its loop cannot start again: the segment is gone.\<close>

lemma worker_restart:
  assumes "no_core app_mods" and "mp_conf s \<noteq> None" and "m_shmid (g_core s) = -1"
  shows "worker_main_core (gap_modules M app_mods) s = Some (Inl Assert_failed)"
  using assms init_worker_without_segment [OF assms(3)]
  by (auto simp: worker_main_core_def worker_inits [OF assms(1)] with_core_def)

lemma worker_turn:
  assumes proc: "server_process M E es srvs s fs" and seg: "m_shmid (g_core s) \<in> segments (g_core s) - removed M"
    and ep: "fst (epoll_create M) \<noteq> -1" "snd (snd (epoll_create M)) \<noteq> 0"
    and init: "event_core_init_worker (the (mp_conf s)) (removed M) (lock_at M) True (app_nodes s) (g_core s) = Inr (HIXO_OK, c)"
    and srvs': "srvs' = (\<lambda>a. if a \<in> set (app_nodes s) then swap_ports (srvs a) else srvs a)"
    and s3: "s3 = s\<lparr>g_core := c, s_epoll := fst (snd (epoll_init (s_epoll s) (fst (epoll_create M))
        (fst (snd (epoll_create M))) (snd (snd (epoll_create M))))), app_of := both_modules E es srvs'\<rparr>"
  shows "worker_main_core (server_modules M es s) s = (case run_loops (server_modules M es s) HIXO_OK s3 of
      None \<Rightarrow> None
    | Some r \<Rightarrow> after r (\<lambda>p. case p of Waiting s4 \<Rightarrow> Some (Inr (Waiting s4))
        | Left rslt s4 \<Rightarrow> Some (exit_workers (server_modules M es s)
            [HIXO_MODULE_APP, HIXO_MODULE_EVENT, HIXO_MODULE_CORE] rslt s4)))"
proof -
  obtain ret err p where e: "epoll_create M = (ret, err, p)" by (cases "epoll_create M")
  obtain e1 cl where ei: "epoll_init (s_epoll s) ret err p = (HIXO_OK, e1, cl)"
    using ep by (simp add: e epoll_init_def Let_def)
  have ne: "HIXO_OK \<noteq> HIXO_ERROR" by (simp add: HIXO_OK_def HIXO_ERROR_def)
  obtain conf where conf: "mp_conf s = Some conf" using proc by (auto simp: server_process_def)
  have A: "app_of s = both_modules E es srvs" and dist: "distinct (app_nodes s)"
    using proc by (simp_all add: server_process_def modules_ok_def)
  note inits = worker_inits [OF no_core_apps]
  let ?s2 = "s\<lparr>g_core := c, s_epoll := e1\<rparr>"
  have "INIT_WORKER (server_modules M es s) HIXO_MODULE_CORE s = Inr (HIXO_OK, s\<lparr>g_core := c\<rparr>)"
    using init by (simp add: inits conf with_core_def)
  moreover have "INIT_WORKER (server_modules M es s) HIXO_MODULE_EVENT (s\<lparr>g_core := c\<rparr>) = Inr (HIXO_OK, ?s2)"
    by (simp add: inits e ei)
  moreover have "INIT_WORKER (server_modules M es s) HIXO_MODULE_APP ?s2 = Inr (HIXO_OK, s3)"
    using init_apps_loop [OF dist, of ?s2 E es srvs] A by (simp add: inits s3 srvs' e ei)
  ultimately show ?thesis by (simp add: worker_main_core_def ne)
qed

lemma turn_without_segment:
  assumes "no_core app_mods" and "mp_conf s \<noteq> None"
    and "m_shmid (g_core s) \<noteq> -1" and "m_shmid (g_core s) \<notin> segments (g_core s) - removed M"
  obtains s' where "worker_main_core (gap_modules M app_mods) s = Some (Inr (Left HIXO_ERROR s'))"
    and "wd (g_core s') = (wd (g_core s))\<lparr>accept_lock := -1\<rparr>" and "mp_conf s' = mp_conf s"
    and "m_shmid (g_core s') = m_shmid (g_core s)" and "segments (g_core s') = segments (g_core s) - removed M"
proof -
  obtain p_conf where conf: "mp_conf s = Some p_conf" using assms(2) by auto
  let ?c1 = "others_remove (removed M) (set_timer p_conf (g_core s))"
  let ?c = "?c1\<lparr>wd := (wd ?c1)\<lparr>accept_lock := -1\<rparr>\<rparr>"
  have "event_core_init_worker p_conf (removed M) (lock_at M) True (app_nodes s) (g_core s) = Inr (HIXO_ERROR, ?c)"
    using assms(3,4) by (simp add: event_core_init_worker_def Let_def assert_run_def)
  then have "worker_main_core (gap_modules M app_mods) s = Some (Inr (Left HIXO_ERROR (s\<lparr>g_core := ?c\<rparr>)))"
    by (simp add: worker_main_core_def worker_inits [OF assms(1)] conf with_core_def exit_workers_def)
  then show ?thesis by (rule that) simp_all
qed

end
