(* ===== verification/Processes.thy ===== *)
theory Processes
  imports Modules Demo
begin

text \<open>
  The properties of the processes of the server: what \<open>hixo_main\<close> makes of the first process and
  of its children, and what becomes of a worker.
\<close>

unbundle bit_operations_syntax

section \<open>A process for the witnesses\<close>

definition idle_cells :: mem where
  "idle_cells = (\<lambda>_. 0)(1056 := 4136, 1096 := 4344, 4344 := 4240, 4096 := 1073, 4200 := 1072, 4304 := 1072)"

definition idle_world :: world where
  "idle_world = demo_world\<lparr>cells := idle_cells, m_sockets_cache := demo_pool\<lparr>m_used := 1\<rparr>,
     dlinks := \<lparr>mp_next = (\<lambda>a. a), mp_prev = (\<lambda>a. a)\<rparr>,
     has_ev_ctx := False, os := demo_os\<lparr>open_fds := [3], registered := Map.empty\<rparr>\<rparr>"




definition demo_listen :: listen_calls where
  "demo_listen = \<lparr>aton_ok = True, socket_fd = new_fd demo_kernel, socket_errno = 0, unblock_errno = 0,
     reuse_errno = 0, bind_errno = (\<lambda>_. 0), listen_errno = (\<lambda>_. 0)\<rparr>"

definition demo_machine :: machine where
  "demo_machine = \<lparr>startup = \<lparr>shmget_id = 7, shmget_errno = 0, servers_block = 2048, cache_block = 65536,
       listen_of = (\<lambda>_. demo_listen)\<rparr>,
     removed = {}, lock_at = (\<lambda>_. 8), epoll_create = (4, 0, 3072), rounds = []\<rparr>"

definition demo_conf :: hixo_conf where
  "demo_conf = \<lparr>m_daemon = False, m_worker_processes = 0, m_max_connections = 0, m_timer_resolution = 0,
     m_connection_timeout = 0\<rparr>"

definition no_pss :: ps_table where
  "no_pss = \<lparr>ga_pss_info = (\<lambda>_. \<lparr>m_pid = 0, m_cpuid = 0\<rparr>), gp_ps_info = None\<rparr>"

definition demo_process :: "world \<Rightarrow> int set \<Rightarrow> hixo" where
  "demo_process w segs = \<lparr>g_core = \<lparr>wd = w, m_shmid = 7, m_ev_timer_ms = -1, itimer = (0, 0), segments = segs\<rparr>,
     s_conf = demo_conf, mp_conf = Some demo_conf, s_epoll = \<lparr>m_epfd = -1, mp_epevs = 0\<rparr>,
     app_nodes = [640], app_of = (\<lambda>_. simple_http_ctx sa_simple_http_srvs), pss = no_pss,
     g_status = HIXO_STATUS_RUNNING, g_child_count = 0, signals = \<lparr>blocked = {}, actions = (\<lambda>_. SIG_DFL)\<rparr>,
     affinity = {0, 1}\<rparr>"


text \<open>The world before anything has been created.\<close>

definition blank_world :: world where
  "blank_world = idle_world\<lparr>cells := \<lambda>_. 0, m_sockets_cache := demo_pool\<lparr>mp_start := 0\<rparr>, mpp_servers := []\<rparr>"

definition demo_main :: "int \<Rightarrow> main_calls" where
  "demo_main f = \<lparr>daemon_forks = (0, 0), fork_result = (\<lambda>_. f), ncpus = 2, sigaction_ok = (True, True),
     wakes = [], affinity_ok = True, turns = 0\<rparr>"

lemma demo_sockets_ok: "sockets_ok demo_listen"
  using demo_kernel_ok by (simp add: sockets_ok_def demo_listen_def kernel_ok_def kernel_fds_def)

lemma demo_boot: "boot demo_machine (demo_process blank_world {})"
  using demo_sockets_ok
  by (simp add: boot_def fresh_def Let_def demo_process_def blank_world_def idle_world_def demo_world_def
      demo_machine_def no_pss_def create_conf_def nservers_def simple_http_ctx_def sa_simple_http_srvs_def
      block_apart_def dring_def)


section \<open>The properties\<close>

lemma hixo_main_fates:
  assumes app: "no_core app_mods" and boot: "boot M s" and fork: "-1 \<le> fork_result sys 0"
    and sys: "sigaction_ok sys = (True, True)" "turns sys = 0"
  shows "(\<exists>s'. hixo_main sys (gap_modules M app_mods) s = Some (Inr (Returned HIXO_ERROR s'))
        \<and> segments (g_core s') = segments (g_core s))
    \<or> (\<exists>c. event_core_init_master (startup M) (snd (create_conf (s_conf s)))
          (map (\<lambda>a. mpa_servers (app_of s a)) (app_nodes s)) (g_core s) = Inr (HIXO_OK, c)
        \<and> (if 0 < fork_result sys 0
           then (\<exists>s' fs. hixo_main sys (gap_modules M app_mods) s = Some (Inr (Working s'))
             \<and> listening [] (wd (g_core s')) fs \<and> mpp_servers (wd (g_core s')) \<noteq> []
             \<and> m_power (wd (g_core s')) = 8750 \<and> m_shmid (g_core s') \<in> segments (g_core s')
             \<and> gp_ps_info (pss s') = Some 0 \<and> signals s' = sigprocmask sigfillset (signals s)
             \<and> affinity s' = (if affinity_ok sys then {0} else affinity s))
           else (\<exists>s'. hixo_main sys (gap_modules M app_mods) s = Some (Inr (Returned HIXO_OK s'))
             \<and> segments (g_core s') = segments (g_core s)
             \<and> (\<forall>f \<in> listener_fds (wd c). \<not> opened (os (wd (g_core s'))) f))))"
proof -
  let ?conf = "snd (create_conf (s_conf s))" and ?as = "map (\<lambda>a. mpa_servers (app_of s a)) (app_nodes s)"
  have n: "nservers s = sum_list (map length ?as)" by (simp add: nservers_def o_def)
  have fresh: "fresh (startup M) ?conf (sum_list (map length ?as)) (g_core s)"
    using boot by (simp add: boot_def n)
  show ?thesis
  proof (cases rule: init_master_ok [OF fresh])
    case (1 c)
    from hixo_main_failed [OF app 1(1), of sys] 1(2) show ?thesis by (intro disjI1) metis
  next
    case (2 c fs)
    note main = hixo_main_spawned [OF app boot 2(1), of sys]
    show ?thesis
    proof (cases "0 < fork_result sys 0")
      case True
      from main(3) [OF True] 2 listening_power [OF 2(2)] sys(2) show ?thesis
        using True by (intro disjI2 exI [of _ c]) (auto simp: first_worker_def started_def)
    next
      case False
      then consider "fork_result sys 0 = -1" | "fork_result sys 0 = 0" using fork by linarith
      then obtain sg where run: "hixo_main sys (gap_modules M app_mods) s = leave_main (gap_modules M app_mods)
          (length (gap_modules M app_mods)) HIXO_OK ((started s c)\<lparr>signals := sg\<rparr>)"
        using main(1,2) sys(1) by cases blast+
      have inv: "core_inv (wd c) (rev (mpp_servers (wd c))) [] fs []"
        "socks_inv (wd c) (rev (mpp_servers (wd c))) []" using 2(2) by (simp_all add: listening_def)
      obtain c' where ex: "event_core_exit_master c = Inr c'"
        and op: "opened (os (wd c')) = (\<lambda>f. opened (os (wd c)) f \<and>
             f \<notin> (\<lambda>s. m_fd (socks (wd c) s)) ` set (mpp_servers (wd c)))"
        and seg: "segments c' = segments c - {m_shmid c}"
        by (rule exit_master_ok [OF inv])
      let ?s = "(started s c)\<lparr>signals := sg\<rparr>"
      have "event_core_exit_master (g_core ?s) = Inr c'" using ex by (simp add: started_def)
      from exit_modules [OF app this, of M] have "hixo_main sys (gap_modules M app_mods) s =
          Some (Inr (Returned HIXO_OK (?s\<lparr>g_core := c', s_conf := destroy_conf (s_conf ?s)\<rparr>)))"
        by (simp add: run leave_main_def)
      moreover have "segments c' = segments (g_core s)"
        using seg 2(4,5) fresh by (auto simp: fresh_def Let_def)
      moreover have "\<forall>f \<in> listener_fds (wd c). \<not> opened (os (wd c')) f"
        by (simp add: op listener_fds_def)
      ultimately show ?thesis using False 2(1) by (intro disjI2 exI [of _ c]) simp
    qed
  qed
qed

text \<open>C6. The fate of the first process.  When the event core cannot be initialised, \<open>hixo_main\<close>
  returns \<open>HIXO_ERROR\<close> and no shared memory is left.  Otherwise the parent of the fork becomes
  the worker, with the listeners open, the segment attachable, the power of a configuration
  of 10000 connections and all signals held back; the child, which is to be the master, returns at once and removes the
  segment and its listeners, and so does the process when its fork fails, still with \<open>HIXO_OK\<close>.\<close>

theorem hixo_main_outcomes:
  assumes app: "no_core app_mods" and boot: "boot M s" and fork: "-1 \<le> fork_result sys 0"
    and sys: "sigaction_ok sys = (True, True)" "turns sys = 0"
  shows "(\<exists>s'. hixo_main sys (gap_modules M app_mods) s = Some (Inr (Returned HIXO_ERROR s'))
        \<and> segments (g_core s') = segments (g_core s))
    \<or> (\<exists>c. event_core_init_master (startup M) (snd (create_conf (s_conf s)))
          (map (\<lambda>a. mpa_servers (app_of s a)) (app_nodes s)) (g_core s) = Inr (HIXO_OK, c)
        \<and> (if 0 < fork_result sys 0
           then (\<exists>s' fs. hixo_main sys (gap_modules M app_mods) s = Some (Inr (Working s'))
             \<and> listening [] (wd (g_core s')) fs \<and> mpp_servers (wd (g_core s')) \<noteq> []
             \<and> m_power (wd (g_core s')) = 8750 \<and> m_shmid (g_core s') \<in> segments (g_core s')
             \<and> gp_ps_info (pss s') = Some 0 \<and> signals s' = sigprocmask sigfillset (signals s)
             \<and> affinity s' = (if affinity_ok sys then {0} else affinity s))
           else (\<exists>s'. hixo_main sys (gap_modules M app_mods) s = Some (Inr (Returned HIXO_OK s'))
             \<and> segments (g_core s') = segments (g_core s)
             \<and> (\<forall>f \<in> listener_fds (wd c). \<not> opened (os (wd (g_core s'))) f))))"
  by (rule hixo_main_fates [OF assms])



lemma turns_without_segment:
  assumes "no_core app_mods" and "mp_conf s \<noteq> None"
    and "m_shmid (g_core s) \<noteq> -1" and "m_shmid (g_core s) \<notin> segments (g_core s) - removed M"
  shows "\<exists>s'. worker_turns n (gap_modules M app_mods) s = Some (Inr (Working s'))
    \<and> wd (g_core s') = (if n = 0 then wd (g_core s) else (wd (g_core s))\<lparr>accept_lock := -1\<rparr>)
    \<and> segments (g_core s') = (if n = 0 then segments (g_core s) else segments (g_core s) - removed M)"
  using assms(2-4)
proof (induction n arbitrary: s)
  case (Suc n)
  obtain s1 where s1: "worker_main_core (gap_modules M app_mods) s = Some (Inr (Left HIXO_ERROR s1))"
    "wd (g_core s1) = (wd (g_core s))\<lparr>accept_lock := -1\<rparr>" "mp_conf s1 = mp_conf s"
    "m_shmid (g_core s1) = m_shmid (g_core s)" "segments (g_core s1) = segments (g_core s) - removed M"
    by (rule turn_without_segment [OF assms(1) Suc.prems])
  with Suc.IH [of s1] Suc.prems show ?case by auto
qed auto

text \<open>C24. A worker whose segment does not exist any more when it attaches it, because the master removes it
  as soon as it returns, gets an error in every turn: it turns for ever and never reaches its event loop.\<close>

theorem worker_spins_without_segment:
  assumes "no_core app_mods" and "mp_conf s \<noteq> None"
    and "m_shmid (g_core s) \<noteq> -1" and "m_shmid (g_core s) \<notin> segments (g_core s) - removed M"
  shows "\<exists>s'. worker_main n bound (gap_modules M app_mods) cpu_id s = Some (Inr (Working s'))
    \<and> wd (g_core s') = (if n = 0 then wd (g_core s) else (wd (g_core s))\<lparr>accept_lock := -1\<rparr>)
    \<and> segments (g_core s') = (if n = 0 then segments (g_core s) else segments (g_core s) - removed M)"
proof -
  let ?s = "if bound then s\<lparr>affinity := {cpu_id}\<rparr> else s"
  have same: "mp_conf ?s = mp_conf s" "g_core ?s = g_core s" by simp_all
  show ?thesis
    unfolding worker_main_def
    using turns_without_segment [OF assms(1), of ?s M n, unfolded same, OF assms(2-4)] .
qed

text \<open>C23. The chain of forks.  Every process that forks becomes a worker, with its own index,
  its child's process number and the processors dealt out in turn, and goes on with all signals held
  back: neither an interrupt nor the alarms of its own timer reach it.  Only the last child is told
  that it is the master, so the master has forked nobody, and its loop ends at once.\<close>

theorem spawn_makes_workers:
  assumes "\<And>i. i < n \<Longrightarrow> 0 < pids i" and "0 < n"
  shows "(\<forall>j < n. hixo_spawn_workers (fork_seen pids j) ncpu (int n) t sg =
      (pids j, t\<lparr>ga_pss_info := (ga_pss_info t)(j := \<lparr>m_pid = pids j, m_cpuid = int j mod ncpu\<rparr>),
                 gp_ps_info := Some j\<rparr>, sigprocmask sigfillset sg))
    \<and> (\<forall>m \<in> sigfillset - {SIGKILL, SIGSTOP}. receive (sigprocmask sigfillset sg) m = Held)
    \<and> hixo_spawn_workers (fork_seen pids n) ncpu (int n) t sg = (0, t, sigprocmask (blocked sg) sg)
    \<and> (g_child_count s = 0 \<longrightarrow>
        master_main True True sigs s = Some (Inr (Inr (HIXO_OK, s\<lparr>signals := master_signals (signals s)\<rparr>))))"
proof (intro conjI allI ballI impI)
  fix j assume "j < n"
  with spawn_loop_parent [of 0 j n pids ncpu "-1" t] assms(1) [of j]
  show "hixo_spawn_workers (fork_seen pids j) ncpu (int n) t sg =
      (pids j, t\<lparr>ga_pss_info := (ga_pss_info t)(j := \<lparr>m_pid = pids j, m_cpuid = int j mod ncpu\<rparr>),
                 gp_ps_info := Some j\<rparr>, sigprocmask sigfillset sg)" by (auto simp: hixo_spawn_workers_def)
next
  fix m assume "m \<in> sigfillset - {SIGKILL, SIGSTOP}"
  then show "receive (sigprocmask sigfillset sg) m = Held" by (simp add: receive_filled)
next
  show "hixo_spawn_workers (fork_seen pids n) ncpu (int n) t sg = (0, t, sigprocmask (blocked sg) sg)"
    using spawn_loop_children [of 0 n n pids ncpu "-1" t] assms(2) by (simp add: hixo_spawn_workers_def)
next
  assume "g_child_count s = 0"
  then show "master_main True True sigs s = Some (Inr (Inr (HIXO_OK, s\<lparr>signals := master_signals (signals s)\<rparr>)))"
    by (simp add: master_main_def master_loop_no_children set_signals_def master_signals_def Let_def
        sigprocmask_def sigaction_def)
qed

theorem spawn_makes_workers_witness:
  "hixo_spawn_workers (fork_seen (\<lambda>i. 100 + int i) 2) 2 (int 3) no_pss \<lparr>blocked = {}, actions = (\<lambda>_. SIG_DFL)\<rparr> =
      (102, no_pss\<lparr>ga_pss_info := (ga_pss_info no_pss)(2 := \<lparr>m_pid = 102, m_cpuid = 0\<rparr>), gp_ps_info := Some 2\<rparr>,
        sigprocmask sigfillset \<lparr>blocked = {}, actions = (\<lambda>_. SIG_DFL)\<rparr>)
    \<and> receive (sigprocmask sigfillset \<lparr>blocked = {}, actions = (\<lambda>_. SIG_DFL)\<rparr>) SIGALRM = Held"
proof -
  let ?sg = "\<lparr>blocked = {}, actions = (\<lambda>_. SIG_DFL)\<rparr>"
  have pos: "\<And>i. i < 3 \<Longrightarrow> 0 < 100 + int i" by simp
  note tree = spawn_makes_workers [where n = 3 and pids = "\<lambda>i. 100 + int i", OF pos, of 2 no_pss ?sg "demo_process idle_world {7}" "[]"]
  from tree have chain: "\<forall>j < 3. hixo_spawn_workers (fork_seen (\<lambda>i. 100 + int i) j) 2 (int 3) no_pss ?sg =
      (100 + int j, no_pss\<lparr>ga_pss_info := (ga_pss_info no_pss)(j := \<lparr>m_pid = 100 + int j, m_cpuid = int j mod 2\<rparr>),
                 gp_ps_info := Some j\<rparr>, sigprocmask sigfillset ?sg)"
    and held: "\<forall>m \<in> sigfillset - {SIGKILL, SIGSTOP}. receive (sigprocmask sigfillset ?sg) m = Held" by simp_all
  have "(2::nat) < 3" by simp
  from chain [rule_format, OF this] held show ?thesis by (simp add: sigfillset_def signal_numbers)
qed

text \<open>The segment exists when the process is forked, and is gone when it attaches it.\<close>

theorem worker_spins_without_segment_witness:
  "\<exists>s'. worker_main 5 True (the_modules (demo_machine\<lparr>removed := {7}\<rparr>) 640 704) 1 (demo_process idle_world {7}) = Some (Inr (Working s'))
    \<and> wd (g_core s') = idle_world\<lparr>accept_lock := -1\<rparr> \<and> segments (g_core s') = {}"
  using worker_spins_without_segment [of "[g_echo_module 640, g_simple_http_module 704]" "demo_process idle_world {7}"
      "demo_machine\<lparr>removed := {7}\<rparr>" 5 True 1]
  by (simp add: demo_process_def the_modules_def)









theorem hixo_main_outcomes_witness:
  "(\<exists>s'. hixo_main (demo_main 101) (the_modules demo_machine 640 704)
        (demo_process blank_world {}) = Some (Inr (Returned HIXO_ERROR s')))
    \<or> (\<exists>s' fs. hixo_main (demo_main 101) (the_modules demo_machine 640 704)
        (demo_process blank_world {}) = Some (Inr (Working s'))
      \<and> listening [] (wd (g_core s')) fs \<and> m_power (wd (g_core s')) = 8750)"
proof -
  have "no_core [g_echo_module 640, g_simple_http_module 704]" by simp
  from hixo_main_outcomes [OF this demo_boot, of "demo_main 101"]
  show ?thesis by (auto simp: demo_main_def the_modules_def)
qed

end
