(* ===== verification/Bitmap.thy ===== *)
theory Bitmap
  imports Prelude
begin

text \<open>
  The bitmap of \<open>include/bitmap.h\<close>, with its \<open>uint32_t\<close> sizes and offsets as 32-bit words.
  \<open>bm_data\<close> is \<open>None\<close> when \<open>mp_data\<close> is \<open>NULL\<close>.  It meets the contract \<open>bit_store\<close> of a set of
  numbered bits.
\<close>

unbundle bit_operations_syntax

section \<open>The code\<close>

record bitmap =
  bm_data :: "byte list option"
  bm_size :: "32 word"

text \<open>\<open>mem\<close> is what \<open>calloc\<close> gives for the number of bytes: \<open>False\<close> for \<open>NULL\<close>.\<close>

definition create_bitmap :: "bitmap \<Rightarrow> 32 word \<Rightarrow> (32 word \<Rightarrow> bool) \<Rightarrow> int \<times> bitmap" where
  "create_bitmap p_bm nbits mem =
     (if nbits = 0 then (HIXO_ERROR, p_bm)
      else
        let bm1 = p_bm\<lparr>bm_size := (nbits - 1) div 8 + 1\<rparr>;
            bm2 = bm1\<lparr>bm_data := if mem (bm_size bm1) then Some (replicate (unat (bm_size bm1)) 0) else None\<rparr>
        in if bm_data bm2 = None then (HIXO_ERROR, bm2) else (HIXO_OK, bm2))"

definition bitmap_set :: "bitmap \<Rightarrow> 32 word \<Rightarrow> (int \<times> bitmap) run" where
  "bitmap_set p_bm bit_offset =
     (let byte_offset = bit_offset div 8;
          byte_bit_offset = bit_offset mod 8
      in if bit_offset > 8 * bm_size p_bm - 1 then Inr (HIXO_ERROR, p_bm)
         else case bm_data p_bm of
           None \<Rightarrow> Inl Bad_access
         | Some d \<Rightarrow>
             if unat byte_offset < length d then
               Inr (HIXO_OK, p_bm\<lparr>bm_data := Some (d[unat byte_offset :=
                      d ! unat byte_offset OR push_bit (unat byte_bit_offset) 1])\<rparr>)
             else Inl Bad_access)"

definition bitmap_is_set :: "bitmap \<Rightarrow> 32 word \<Rightarrow> bool run" where
  "bitmap_is_set p_bm bit_offset =
     (let byte_offset = bit_offset div 8;
          byte_bit_offset = bit_offset mod 8
      in if bit_offset > 8 * bm_size p_bm - 1 then Inr False
         else case bm_data p_bm of
           None \<Rightarrow> Inl Bad_access
         | Some d \<Rightarrow>
             if unat byte_offset < length d then
               Inr (d ! unat byte_offset AND push_bit (unat byte_bit_offset) 1 \<noteq> 0)
             else Inl Bad_access)"

definition destroy_bitmap :: "bitmap \<Rightarrow> bitmap" where
  "destroy_bitmap p_bm =
     (let bm1 = (if bm_data p_bm \<noteq> None then p_bm\<lparr>bm_data := None\<rparr> else p_bm)
      in bm1\<lparr>bm_size := 0\<rparr>)"

section \<open>The bitmap is a set of bits\<close>

definition bitmap_inv :: "bitmap \<Rightarrow> bool" where
  "bitmap_inv bm \<longleftrightarrow> (\<exists>d. bm_data bm = Some d \<and> length d = unat (bm_size bm)
     \<and> 0 < length d \<and> length d \<le> 2 ^ 29)"

definition bitmap_range :: "bitmap \<Rightarrow> 32 word \<Rightarrow> bool" where
  "bitmap_range bm k \<longleftrightarrow> unat k < 8 * unat (bm_size bm)"

lemma bitmap_in_range:
  assumes "bitmap_inv bm"
  shows "bit_offset > 8 * bm_size bm - 1 \<longleftrightarrow> \<not> bitmap_range bm bit_offset"
proof -
  have size': "0 < unat (bm_size bm)" "unat (bm_size bm) \<le> 2 ^ 29"
    using assms unfolding bitmap_inv_def by metis+
  have "unat (8 * bm_size bm - 1) = 8 * unat (bm_size bm) - 1"
  proof (cases "unat (bm_size bm) = 2 ^ 29")
    case True
    then have "unat (bm_size bm) = unat (0x20000000 :: 32 word)" by simp
    then have "bm_size bm = 0x20000000" by (simp only: word_unat_eq_iff)
    then show ?thesis by simp
  next
    case False
    then have "8 * unat (bm_size bm) < 2 ^ 32" using size'(2) by simp
    then have e: "unat (8 * bm_size bm) = 8 * unat (bm_size bm)" by (simp add: unat_word_ariths)
    then have "1 \<le> 8 * bm_size bm" using size'(1) by (simp add: word_le_nat_alt)
    then show ?thesis using e by (simp add: unat_sub)
  qed
  then show ?thesis using size'(1) by (auto simp: word_less_nat_alt bitmap_range_def)
qed

lemma bitmap_access:
  assumes "bitmap_inv bm" and "bitmap_range bm k" and "bm_data bm = Some d"
  shows "unat (k div 8) < length d"
  using assms by (auto simp: bitmap_inv_def bitmap_range_def unat_div)

text \<open>In range both operations return.\<close>

definition bitmap_set_at :: "bitmap \<Rightarrow> 32 word \<Rightarrow> bitmap" where
  "bitmap_set_at bm k = (case bitmap_set bm k of Inr (_, bm') \<Rightarrow> bm' | Inl _ \<Rightarrow> bm)"

definition bitmap_test_at :: "bitmap \<Rightarrow> 32 word \<Rightarrow> bool" where
  "bitmap_test_at bm k \<longleftrightarrow> bitmap_is_set bm k = Inr True"

lemma bitmap_set_run:
  assumes inv: "bitmap_inv bm" and k: "bitmap_range bm k" and d: "bm_data bm = Some d"
  shows "bitmap_set bm k = Inr (HIXO_OK, bm\<lparr>bm_data := Some (d[unat (k div 8) :=
      d ! unat (k div 8) OR push_bit (unat (k mod 8)) 1])\<rparr>)"
  using bitmap_access [OF inv k d] bitmap_in_range [OF inv] k d
  by (simp add: bitmap_set_def Let_def)

lemma bitmap_is_set_run:
  assumes inv: "bitmap_inv bm" and k: "bitmap_range bm k" and d: "bm_data bm = Some d"
  shows "bitmap_is_set bm k = Inr (bit (d ! unat (k div 8)) (unat (k mod 8)))"
proof -
  have m: "unat (k mod 8) < 8" by (simp add: unat_mod)
  have "(b AND push_bit n 1 \<noteq> 0) = bit b n" if "n < 8" for b :: byte and n
    by (simp add: bit_iff_and_push_bit_not_eq_0)
  then show ?thesis
    using bitmap_access [OF inv k d] bitmap_in_range [OF inv] k d m
    by (simp add: bitmap_is_set_def Let_def)
qed

interpretation bm: bit_store bitmap_inv bitmap_range bitmap_set_at bitmap_test_at
proof
  fix bm k l
  assume inv: "bitmap_inv bm" and k: "bitmap_range bm k"
  then obtain d where d: "bm_data bm = Some d" by (auto simp: bitmap_inv_def)
  note acc = bitmap_access [OF inv k d]
  let ?i = "unat (k div 8)" and ?d = "d[unat (k div 8) := d ! unat (k div 8) OR push_bit (unat (k mod 8)) 1]"
  have set': "bitmap_set_at bm k = bm\<lparr>bm_data := Some ?d\<rparr>"
    by (simp add: bitmap_set_at_def bitmap_set_run [OF inv k d])
  show inv': "bitmap_inv (bitmap_set_at bm k)"
    using inv d unfolding set' by (simp add: bitmap_inv_def)
  show "bitmap_range (bitmap_set_at bm k) l \<longleftrightarrow> bitmap_range bm l"
    by (simp add: set' bitmap_range_def)
  assume l: "bitmap_range bm l"
  then have l': "bitmap_range (bm\<lparr>bm_data := Some ?d\<rparr>) l" by (simp add: bitmap_range_def)
  have "bit (?d ! unat (l div 8)) (unat (l mod 8)) \<longleftrightarrow> l = k \<or> bit (d ! unat (l div 8)) (unat (l mod 8))"
  proof (cases "l div 8 = k div 8")
    case True
    have "unat (l mod 8) = unat (k mod 8) \<longleftrightarrow> l = k"
    proof
      assume "unat (l mod 8) = unat (k mod 8)"
      then have "l mod 8 = k mod 8" by (simp add: word_unat_eq_iff)
      with True show "l = k" by (metis div_mult_mod_eq)
    qed simp
    moreover have "unat (l mod 8) < 8" by (simp add: unat_mod)
    ultimately show ?thesis using acc True by (auto simp: bit_simps)
  next
    case False
    then have "unat (l div 8) \<noteq> ?i" by (simp add: word_unat_eq_iff)
    moreover have "l \<noteq> k" using False by auto
    ultimately show ?thesis by simp
  qed
  then show "bitmap_test_at (bitmap_set_at bm k) l \<longleftrightarrow> l = k \<or> bitmap_test_at bm l"
    using bitmap_is_set_run [OF inv' [unfolded set'] l'] bitmap_is_set_run [OF inv l d]
    by (simp add: bitmap_test_at_def set')
qed

text \<open>A created bitmap.\<close>

lemma create_bitmap_ok:
  assumes "create_bitmap bm nbits mem = (HIXO_OK, bm')"
  shows "bitmap_inv bm'" and "unat (bm_size bm') = (unat nbits - 1) div 8 + 1"
    and "bm_data bm' = Some (replicate (unat (bm_size bm')) 0)"
proof -
  have nb: "nbits \<noteq> 0" using assms by (auto simp: create_bitmap_def HIXO_OK_def HIXO_ERROR_def)
  have sz: "bm_size bm' = (nbits - 1) div 8 + 1"
    and data: "bm_data bm' = Some (replicate (unat (bm_size bm')) 0)"
    using assms nb by (auto simp: create_bitmap_def Let_def HIXO_OK_def HIXO_ERROR_def split: if_splits)
  have pos: "0 < unat nbits" using nb by (simp add: unat_gt_0)
  have "1 \<le> nbits" using pos by (simp add: word_le_nat_alt)
  then have m1: "unat (nbits - 1) = unat nbits - 1" by (simp add: unat_sub)
  have bound: "unat nbits < 2 ^ 32" using unsigned_less [of nbits, where ?'a = nat] by simp
  then have "(unat nbits - 1) div 8 + 1 < 2 ^ 32" by simp
  then show size': "unat (bm_size bm') = (unat nbits - 1) div 8 + 1"
    unfolding sz by (simp add: unat_word_ariths unat_div m1)
  show "bm_data bm' = Some (replicate (unat (bm_size bm')) 0)" by (rule data)
  show "bitmap_inv bm'" using data size' bound by (auto simp: bitmap_inv_def)
qed

section \<open>Properties\<close>

text \<open>C34. After \<open>create_bitmap\<close> for any number of bits and any sequence of \<open>bitmap_set\<close> calls in
  range, \<open>bitmap_is_set\<close> says of every bit whether it was among them.\<close>

theorem bitmap_is_bit_set:
  assumes "create_bitmap bm nbits mem = (HIXO_OK, bm')"
    and "\<forall>k \<in> set ks. k < nbits" and "l < nbits"
  shows "bitmap_is_set (foldl bitmap_set_at bm' ks) l = Inr (l \<in> set ks)"
proof -
  note ok = create_bitmap_ok [OF assms(1)]
  have range: "bitmap_range bm' k" if "k < nbits" for k
  proof -
    have "unat k < unat nbits" using that by (simp add: word_less_nat_alt)
    then show ?thesis unfolding bitmap_range_def ok(2) by simp
  qed
  have all: "bitmap_inv (foldl bitmap_set_at bm' ks)" "bitmap_range (foldl bitmap_set_at bm' ks) l"
    "bitmap_test_at (foldl bitmap_set_at bm' ks) l \<longleftrightarrow> l \<in> set ks \<or> bitmap_test_at bm' l"
    using bm.set_all [OF ok(1), of ks l] assms(2,3) range by blast+
  have "\<not> bitmap_test_at bm' l"
    using bitmap_is_set_run [OF ok(1) range [OF assms(3)] ok(3)] bitmap_access [OF ok(1) range [OF assms(3)] ok(3)]
    by (simp add: bitmap_test_at_def)
  then have "bitmap_test_at (foldl bitmap_set_at bm' ks) l \<longleftrightarrow> l \<in> set ks" using all(3) by simp
  moreover obtain b where "bitmap_is_set (foldl bitmap_set_at bm' ks) l = Inr b"
    using all(1) bitmap_is_set_run [OF all(1,2)] unfolding bitmap_inv_def by blast
  ultimately show ?thesis by (simp add: bitmap_test_at_def)
qed

theorem bitmap_is_bit_set_witness:
  "\<exists>bm'. create_bitmap \<lparr>bm_data = None, bm_size = 0\<rparr> 10 (\<lambda>_. True) = (HIXO_OK, bm')
    \<and> bitmap_is_set (foldl bitmap_set_at bm' [9, 3]) 9 = Inr True
    \<and> bitmap_is_set (foldl bitmap_set_at bm' [9, 3]) 8 = Inr False"
proof -
  have "fst (create_bitmap \<lparr>bm_data = None, bm_size = 0\<rparr> 10 (\<lambda>_. True)) = HIXO_OK"
    by (simp add: create_bitmap_def Let_def)
  then obtain bm' where c: "create_bitmap \<lparr>bm_data = None, bm_size = 0\<rparr> 10 (\<lambda>_. True) = (HIXO_OK, bm')"
    by (metis prod.collapse)
  show ?thesis
    using bitmap_is_bit_set [OF c, of "[9, 3]" 9] bitmap_is_bit_set [OF c, of "[9, 3]" 8]
    unfolding c by simp
qed

text \<open>Outside the range setting is refused and reading gives 0; but a destroyed bitmap has the
  range of all 32-bit numbers, and reading or setting any bit of it goes through \<open>NULL\<close>.\<close>

theorem bitmap_range_check:
  assumes "create_bitmap bm nbits mem = (HIXO_OK, bm')" and "8 * ((unat nbits - 1) div 8 + 1) \<le> unat k"
  shows "bitmap_set bm' k = Inr (HIXO_ERROR, bm') \<and> bitmap_is_set bm' k = Inr False
    \<and> bitmap_set (destroy_bitmap bm') j = Inl Bad_access
    \<and> bitmap_is_set (destroy_bitmap bm') j = Inl Bad_access"
proof -
  note ok = create_bitmap_ok [OF assms(1)]
  have "k > 8 * bm_size bm' - 1"
    using assms(2) unfolding bitmap_in_range [OF ok(1)] bitmap_range_def ok(2) by simp
  moreover have "bm_data (destroy_bitmap bm') = None" "bm_size (destroy_bitmap bm') = 0"
    by (simp_all add: destroy_bitmap_def Let_def)
  moreover have "\<not> j > (-1 :: 32 word)" by (simp add: not_less)
  ultimately show ?thesis by (simp add: bitmap_set_def bitmap_is_set_def Let_def)
qed

theorem bitmap_range_check_witness:
  "\<exists>bm'. create_bitmap \<lparr>bm_data = None, bm_size = 0\<rparr> 10 (\<lambda>_. True) = (HIXO_OK, bm')
    \<and> bitmap_set bm' 16 = Inr (HIXO_ERROR, bm') \<and> bitmap_is_set (destroy_bitmap bm') 3 = Inl Bad_access"
proof -
  have "fst (create_bitmap \<lparr>bm_data = None, bm_size = 0\<rparr> 10 (\<lambda>_. True)) = HIXO_OK"
    by (simp add: create_bitmap_def Let_def)
  then obtain bm' where c: "create_bitmap \<lparr>bm_data = None, bm_size = 0\<rparr> 10 (\<lambda>_. True) = (HIXO_OK, bm')"
    by (metis prod.collapse)
  show ?thesis using bitmap_range_check [OF c, of 16 3] unfolding c by simp
qed

end
