(* ===== verification/Rbtree.thy ===== *)
theory Rbtree
  imports Prelude
begin

text \<open>
  The red-black trees of \<open>include/rbtree.h\<close> and \<open>src/rbtree.c\<close>, on pointers.  \<open>rb_heap\<close> holds
  the three words of every node and the word of one root; the parent and the colour of a node
  share the word \<open>rb_parent_color\<close>.  Reading or writing a field through \<open>NULL\<close> is \<open>Bad_access\<close>.
\<close>

unbundle bit_operations_syntax

section \<open>Nodes\<close>

record rb_heap =
  rb_parent_color :: "addr \<Rightarrow> int"
  rb_right :: "addr \<Rightarrow> addr"
  rb_left :: "addr \<Rightarrow> addr"
  rb_node :: addr

definition RB_RED :: int where "RB_RED = 0"
definition RB_BLACK :: int where "RB_BLACK = 1"

definition deref :: "addr \<Rightarrow> 'a run \<Rightarrow> 'a run" where
  "deref p k = (if p = 0 then Inl Bad_access else k)"

definition rb_parent :: "rb_heap \<Rightarrow> addr \<Rightarrow> addr" where
  "rb_parent h r = rb_parent_color h r AND NOT 3"

definition rb_color :: "rb_heap \<Rightarrow> addr \<Rightarrow> int" where
  "rb_color h r = rb_parent_color h r AND 1"

definition rb_is_red :: "rb_heap \<Rightarrow> addr \<Rightarrow> bool" where
  "rb_is_red h r \<longleftrightarrow> rb_color h r = 0"

definition rb_is_black :: "rb_heap \<Rightarrow> addr \<Rightarrow> bool" where
  "rb_is_black h r \<longleftrightarrow> rb_color h r \<noteq> 0"

definition set_parent_color :: "rb_heap \<Rightarrow> addr \<Rightarrow> int \<Rightarrow> rb_heap" where
  "set_parent_color h r v = h\<lparr>rb_parent_color := (rb_parent_color h)(r := v)\<rparr>"

definition set_right :: "rb_heap \<Rightarrow> addr \<Rightarrow> addr \<Rightarrow> rb_heap" where
  "set_right h r v = h\<lparr>rb_right := (rb_right h)(r := v)\<rparr>"

definition set_left :: "rb_heap \<Rightarrow> addr \<Rightarrow> addr \<Rightarrow> rb_heap" where
  "set_left h r v = h\<lparr>rb_left := (rb_left h)(r := v)\<rparr>"

definition set_root :: "rb_heap \<Rightarrow> addr \<Rightarrow> rb_heap" where
  "set_root h v = h\<lparr>rb_node := v\<rparr>"

definition rb_set_red :: "rb_heap \<Rightarrow> addr \<Rightarrow> rb_heap" where
  "rb_set_red h r = set_parent_color h r (rb_parent_color h r AND NOT 1)"

definition rb_set_black :: "rb_heap \<Rightarrow> addr \<Rightarrow> rb_heap" where
  "rb_set_black h r = set_parent_color h r (rb_parent_color h r OR 1)"

definition rb_set_parent :: "rb_heap \<Rightarrow> addr \<Rightarrow> addr \<Rightarrow> rb_heap" where
  "rb_set_parent h rb p = set_parent_color h rb ((rb_parent_color h rb AND 3) OR p)"

definition rb_set_color :: "rb_heap \<Rightarrow> addr \<Rightarrow> int \<Rightarrow> rb_heap" where
  "rb_set_color h rb color = set_parent_color h rb ((rb_parent_color h rb AND NOT 1) OR color)"

definition RB_EMPTY_ROOT :: "rb_heap \<Rightarrow> bool" where
  "RB_EMPTY_ROOT h \<longleftrightarrow> rb_node h = 0"

definition RB_EMPTY_NODE :: "rb_heap \<Rightarrow> addr \<Rightarrow> bool" where
  "RB_EMPTY_NODE h node \<longleftrightarrow> rb_parent h node = node"

definition RB_CLEAR_NODE :: "rb_heap \<Rightarrow> addr \<Rightarrow> rb_heap" where
  "RB_CLEAR_NODE h node = rb_set_parent h node node"

text \<open>The address \<open>rb_link\<close> of the word that will point to the new node.\<close>

datatype link = Root_link | Left_link addr | Right_link addr

fun set_link :: "rb_heap \<Rightarrow> link \<Rightarrow> addr \<Rightarrow> rb_heap" where
  "set_link h Root_link v = set_root h v"
| "set_link h (Left_link a) v = set_left h a v"
| "set_link h (Right_link a) v = set_right h a v"

definition rb_link_node :: "rb_heap \<Rightarrow> addr \<Rightarrow> addr \<Rightarrow> link \<Rightarrow> rb_heap" where
  "rb_link_node h node parent rb_link =
     (let h1 = set_parent_color h node parent;
          h2 = set_left (set_right h1 node 0) node 0
      in set_link h2 rb_link node)"

section \<open>Rotations\<close>

text \<open>The test that redirects the pointer of \<open>parent\<close>, or of the root, from \<open>node\<close> to \<open>v\<close>.\<close>

definition rb_rotate_left :: "rb_heap \<Rightarrow> addr \<Rightarrow> rb_heap run" where
  "rb_rotate_left h node =
     deref node
      (let right = rb_right h node;
           parent = rb_parent h node
       in deref right
        (let h1 = set_right h node (rb_left h right);
             h2 = (if rb_right h1 node \<noteq> 0 then rb_set_parent h1 (rb_left h1 right) node else h1);
             h3 = set_left h2 right node;
             h4 = rb_set_parent h3 right parent;
             h5 = (if parent \<noteq> 0 then
                     (if node = rb_left h4 parent then set_left h4 parent right else set_right h4 parent right)
                   else set_root h4 right)
         in Inr (rb_set_parent h5 node right)))"

definition rb_rotate_right :: "rb_heap \<Rightarrow> addr \<Rightarrow> rb_heap run" where
  "rb_rotate_right h node =
     deref node
      (let left = rb_left h node;
           parent = rb_parent h node
       in deref left
        (let h1 = set_left h node (rb_right h left);
             h2 = (if rb_left h1 node \<noteq> 0 then rb_set_parent h1 (rb_right h1 left) node else h1);
             h3 = set_right h2 left node;
             h4 = rb_set_parent h3 left parent;
             h5 = (if parent \<noteq> 0 then
                     (if node = rb_right h4 parent then set_right h4 parent left else set_left h4 parent left)
                   else set_root h4 left)
         in Inr (rb_set_parent h5 node left)))"

section \<open>Trees and places in them\<close>

datatype color = Red | Black

fun col :: "color \<Rightarrow> int" where
  "col Red = RB_RED"
| "col Black = RB_BLACK"

text \<open>A tree of node addresses, and the way from a place in it up to the root: \<open>InL c a r\<close> says that
  the place is in the left subtree of \<open>a\<close>, whose right subtree is \<open>r\<close>.\<close>

datatype rbt = Leaf | Node rbt color addr rbt

datatype frame = InL color addr rbt | InR rbt color addr

fun plug :: "frame list \<Rightarrow> rbt \<Rightarrow> rbt" where
  "plug [] t = t"
| "plug (InL c a r # K) t = plug K (Node t c a r)"
| "plug (InR l c a # K) t = plug K (Node l c a t)"

fun inorder :: "rbt \<Rightarrow> addr list" where
  "inorder Leaf = []"
| "inorder (Node l c a r) = inorder l @ a # inorder r"

fun before :: "frame list \<Rightarrow> addr list" where
  "before [] = []"
| "before (InL c a r # K) = before K"
| "before (InR l c a # K) = before K @ inorder l @ [a]"

fun behind :: "frame list \<Rightarrow> addr list" where
  "behind [] = []"
| "behind (InL c a r # K) = a # inorder r @ behind K"
| "behind (InR l c a # K) = behind K"

fun ptr :: "rbt \<Rightarrow> addr" where
  "ptr Leaf = 0"
| "ptr (Node l c a r) = a"

fun up :: "frame list \<Rightarrow> addr" where
  "up [] = 0"
| "up (InL c a r # K) = a"
| "up (InR l c a # K) = a"

fun tree :: "rb_heap \<Rightarrow> addr \<Rightarrow> rbt \<Rightarrow> bool" where
  "tree h par Leaf \<longleftrightarrow> True"
| "tree h par (Node l c a r) \<longleftrightarrow> a \<noteq> 0 \<and> 4 dvd a \<and> rb_parent_color h a = par + col c
     \<and> rb_left h a = ptr l \<and> rb_right h a = ptr r \<and> tree h a l \<and> tree h a r"

fun path :: "rb_heap \<Rightarrow> frame list \<Rightarrow> addr \<Rightarrow> bool" where
  "path h [] q \<longleftrightarrow> rb_node h = q"
| "path h (InL c a r # K) q \<longleftrightarrow> a \<noteq> 0 \<and> 4 dvd a \<and> rb_parent_color h a = up K + col c
     \<and> rb_left h a = q \<and> rb_right h a = ptr r \<and> tree h a r \<and> path h K a"
| "path h (InR l c a # K) q \<longleftrightarrow> a \<noteq> 0 \<and> 4 dvd a \<and> rb_parent_color h a = up K + col c
     \<and> rb_left h a = ptr l \<and> rb_right h a = q \<and> tree h a l \<and> path h K a"

text \<open>The heap holds the tree \<open>t\<close>.\<close>

definition whole :: "rb_heap \<Rightarrow> rbt \<Rightarrow> bool" where
  "whole h t \<longleftrightarrow> tree h 0 t \<and> rb_node h = ptr t \<and> distinct (inorder t)"

lemma inorder_plug [simp]: "inorder (plug K t) = before K @ inorder t @ behind K"
  by (induction K t rule: plug.induct) simp_all

definition on_path :: "frame list \<Rightarrow> addr set" where
  "on_path K = set (before K) \<union> set (behind K)"

lemma on_path_simps [simp]:
  "on_path [] = {}" "on_path (InL c a r # K) = insert a (set (inorder r) \<union> on_path K)"
  "on_path (InR l c a # K) = insert a (set (inorder l) \<union> on_path K)"
  by (auto simp: on_path_def)

lemma up_on_path: "K \<noteq> [] \<Longrightarrow> up K \<in> on_path K"
  by (cases K rule: up.cases) simp_all

lemma tree_plug: "tree h 0 (plug K t) \<and> rb_node h = ptr (plug K t) \<longleftrightarrow> tree h (up K) t \<and> path h K (ptr t)"
  by (induction K t rule: plug.induct) auto

lemma distinct_plug:
  "distinct (inorder (plug K t)) \<longleftrightarrow> distinct (inorder t) \<and> distinct (before K @ behind K)
     \<and> set (inorder t) \<inter> on_path K = {}"
  by (auto simp: on_path_def)

lemma whole_plug:
  "whole h (plug K t) \<longleftrightarrow> tree h (up K) t \<and> path h K (ptr t) \<and> distinct (inorder t)
     \<and> distinct (before K @ behind K) \<and> set (inorder t) \<inter> on_path K = {}"
  unfolding whole_def distinct_plug using tree_plug [of h K t] by blast

text \<open>Writes elsewhere.\<close>

definition same_at :: "rb_heap \<Rightarrow> rb_heap \<Rightarrow> addr set \<Rightarrow> bool" where
  "same_at h h' A \<longleftrightarrow> (\<forall>a \<in> A. rb_parent_color h' a = rb_parent_color h a \<and> rb_left h' a = rb_left h a
     \<and> rb_right h' a = rb_right h a)"

lemma same_at_simps [simp]: "same_at h h' {}"
  "same_at h h' (A \<union> B) \<longleftrightarrow> same_at h h' A \<and> same_at h h' B"
  "same_at h h' (insert a A) \<longleftrightarrow> (rb_parent_color h' a = rb_parent_color h a \<and> rb_left h' a = rb_left h a
     \<and> rb_right h' a = rb_right h a) \<and> same_at h h' A"
  by (auto simp: same_at_def)

lemma tree_frame: "tree h par t \<Longrightarrow> same_at h h' (set (inorder t)) \<Longrightarrow> tree h' par t"
  by (induction t arbitrary: par) (auto simp: same_at_def)

lemma path_frame:
  "path h K q \<Longrightarrow> same_at h h' (on_path K) \<Longrightarrow> rb_node h' = rb_node h \<Longrightarrow> path h' K q"
proof (induction K arbitrary: q)
  case (Cons f K)
  then show ?case by (cases f) (auto intro: tree_frame)
qed simp

text \<open>The word with parent and colour.\<close>

lemma and_3: "(x::int) AND 3 = x mod 4"
proof -
  have "x AND mask 2 = take_bit 2 x" by (simp add: take_bit_eq_mask)
  then show ?thesis by (simp add: mask_eq_exp_minus_1 take_bit_eq_mod)
qed

lemma and_not_3: "(x::int) AND NOT 3 = x - x mod 4"
proof -
  have "(x AND 3) AND (x AND NOT 3) = 0" by (simp add: ac_simps and.left_commute)
  then have "(x AND 3) OR (x AND NOT 3) = (x AND 3) + (x AND NOT 3)"
    using plus_and_or [of "x AND 3" "x AND NOT 3"] by simp
  moreover have "(x AND 3) OR (x AND NOT 3) = x"
    by (simp flip: bit.conj_disj_distrib)
  ultimately show ?thesis by (simp add: and_3)
qed

lemma or_aligned:
  assumes "0 \<le> c" and "c < 4" and "4 dvd p"
  shows "(c::int) OR p = p + c"
proof -
  have "c = take_bit 2 c" using assms by (simp add: take_bit_eq_mod)
  moreover have "take_bit 2 p = 0" using assms(3) by (simp add: take_bit_eq_mod mod_eq_0_iff_dvd)
  ultimately have "c AND p = 0"
    by (metis and_zero_eq take_bit_and take_bit_eq_mask and.assoc and.commute)
  then have "c OR p = c + p" using plus_and_or [of c p] by simp
  then show ?thesis by simp
qed

lemma col_simps [simp]: "col c = 0 \<longleftrightarrow> c = Red" "col c = 1 \<longleftrightarrow> c = Black" "0 \<le> col c" "col c < 2" "col c mod 4 = col c"
  "col c mod 2 = col c"
  by (cases c; simp add: RB_RED_def RB_BLACK_def)+

lemma word_parts:
  assumes "rb_parent_color h a = p + col c" and "4 dvd p"
  shows "rb_parent h a = p" and "rb_color h a = col c" and "rb_is_red h a \<longleftrightarrow> c = Red"
    and "rb_is_black h a \<longleftrightarrow> c = Black"
proof -
  have "(p + col c) mod 4 = col c" using assms(2) by (auto elim!: dvdE)
  then show "rb_parent h a = p" unfolding rb_parent_def and_not_3 assms(1) by simp
  have "even p" using assms(2) by (auto elim!: dvdE)
  then have "(p + col c) mod 2 = col c" by (auto elim!: evenE)
  then have "rb_color h a = col c" by (simp add: rb_color_def assms(1) and_one_eq)
  then show "rb_color h a = col c" "rb_is_red h a \<longleftrightarrow> c = Red" "rb_is_black h a \<longleftrightarrow> c = Black"
    by (auto simp: rb_is_red_def rb_is_black_def)
       (metis color.exhaust)
qed

lemma word_updates:
  assumes "rb_parent_color h a = p + col c" and "4 dvd p"
  shows "rb_set_red h a = set_parent_color h a (p + col Red)"
    and "rb_set_black h a = set_parent_color h a (p + col Black)"
    and "4 dvd q \<Longrightarrow> rb_set_parent h a q = set_parent_color h a (q + col c)"
    and "rb_set_color h a (col d) = set_parent_color h a (p + col d)"
proof -
  have even: "even p" using assms(2) by (auto elim!: dvdE)
  have m4: "(p + col c) mod 4 = col c" using assms(2) by (auto elim!: dvdE)
  have div2: "2 * ((p + col c) div 2) = p" using even col_simps(3,4) [of c] by (auto elim!: evenE)
  show "rb_set_red h a = set_parent_color h a (p + col Red)"
    unfolding rb_set_red_def and_not_one assms(1) div2 by (simp add: RB_RED_def)
  show "rb_set_black h a = set_parent_color h a (p + col Black)"
    using even by (cases c) (simp_all add: rb_set_black_def assms(1) or_one_eq RB_RED_def RB_BLACK_def)
  show "rb_set_parent h a q = set_parent_color h a (q + col c)" if "4 dvd q"
    using or_aligned [of "col c" q] that by (simp add: rb_set_parent_def and_3 assms(1) m4 less_trans [of "col c" 2])
  show "rb_set_color h a (col d) = set_parent_color h a (p + col d)"
    unfolding rb_set_color_def and_not_one assms(1) div2
    using even by (cases d) (simp_all add: or_one_eq RB_RED_def RB_BLACK_def)
qed

section \<open>Reading and writing a node of a tree\<close>

lemma set_fields [simp]:
  "rb_parent_color (set_parent_color h a v) = (rb_parent_color h)(a := v)"
  "rb_left (set_parent_color h a v) = rb_left h" "rb_right (set_parent_color h a v) = rb_right h"
  "rb_node (set_parent_color h a v) = rb_node h"
  "rb_parent_color (set_left h a v) = rb_parent_color h" "rb_left (set_left h a v) = (rb_left h)(a := v)"
  "rb_right (set_left h a v) = rb_right h" "rb_node (set_left h a v) = rb_node h"
  "rb_parent_color (set_right h a v) = rb_parent_color h" "rb_left (set_right h a v) = rb_left h"
  "rb_right (set_right h a v) = (rb_right h)(a := v)" "rb_node (set_right h a v) = rb_node h"
  "rb_parent_color (set_root h v) = rb_parent_color h" "rb_left (set_root h v) = rb_left h"
  "rb_right (set_root h v) = rb_right h" "rb_node (set_root h v) = v"
  by (simp_all add: set_parent_color_def set_left_def set_right_def set_root_def)

lemma path_up: "path h K q \<Longrightarrow> 4 dvd up K"
  by (cases K rule: up.cases) simp_all

lemma ptr_in: "ptr t = 0 \<or> ptr t \<in> set (inorder t)"
  by (cases t) simp_all

lemma tree_nonzero: "tree h par t \<Longrightarrow> 0 \<notin> set (inorder t)"
  by (induction t arbitrary: par) auto

lemma path_nonzero: "path h K q \<Longrightarrow> 0 \<notin> on_path K"
proof (induction K arbitrary: q)
  case (Cons f K)
  then show ?case by (cases f) (auto dest: tree_nonzero)
qed simp

lemma ptr_zero: "tree h par t \<Longrightarrow> ptr t = 0 \<longleftrightarrow> t = Leaf"
  by (cases t) auto

lemma whole_node:
  assumes "whole h (plug K (Node l c a r))"
  shows "a \<noteq> 0" "4 dvd a" "rb_left h a = ptr l" "rb_right h a = ptr r" "rb_parent h a = up K"
    "rb_color h a = col c" "rb_is_red h a \<longleftrightarrow> c = Red" "rb_is_black h a \<longleftrightarrow> c = Black"
    "rb_parent_color h a = up K + col c"
proof -
  have t: "tree h (up K) (Node l c a r)" and p: "path h K a" using assms by (auto simp: whole_plug)
  then show "a \<noteq> 0" "4 dvd a" "rb_left h a = ptr l" "rb_right h a = ptr r"
    and w: "rb_parent_color h a = up K + col c" by auto
  show "rb_parent h a = up K" "rb_color h a = col c" "rb_is_red h a \<longleftrightarrow> c = Red" "rb_is_black h a \<longleftrightarrow> c = Black"
    using word_parts [OF w path_up [OF p]] by auto
qed

lemma whole_ptr: "whole h (plug K t) \<Longrightarrow> ptr t = 0 \<longleftrightarrow> t = Leaf"
  by (auto simp: whole_plug ptr_zero)

lemma whole_recolor:
  assumes "whole h (plug K (Node l c a r))"
  shows "whole (set_parent_color h a (up K + col d)) (plug K (Node l d a r))"
proof -
  let ?h = "set_parent_color h a (up K + col d)"
  have w: "tree h (up K) (Node l c a r)" "path h K a" "distinct (inorder (Node l c a r))"
    "distinct (before K @ behind K)" "set (inorder (Node l c a r)) \<inter> on_path K = {}"
    using assms by (auto simp: whole_plug)
  have "tree ?h a l" "tree ?h a r"
    using w by (auto intro!: tree_frame [of h] simp: same_at_def)
  moreover have "path ?h K a" by (rule path_frame [OF w(2)]) (use w(5) in \<open>auto simp: same_at_def\<close>)
  ultimately show ?thesis using w by (simp add: whole_plug)
qed

lemma whole_paint:
  assumes "whole h (plug K (Node l c a r))"
  shows "whole (rb_set_red h a) (plug K (Node l Red a r))" "whole (rb_set_black h a) (plug K (Node l Black a r))"
    "whole (rb_set_color h a (col d)) (plug K (Node l d a r))"
proof -
  have "4 dvd up K" using assms by (auto simp: whole_plug dest: path_up)
  note word_updates [OF whole_node(9) [OF assms] this]
  then show "whole (rb_set_red h a) (plug K (Node l Red a r))" "whole (rb_set_black h a) (plug K (Node l Black a r))"
    "whole (rb_set_color h a (col d)) (plug K (Node l d a r))"
    using whole_recolor [OF assms] by (simp_all del: col.simps)
qed

section \<open>Rotations keep the order\<close>

definition adopt :: "rb_heap \<Rightarrow> addr \<Rightarrow> addr \<Rightarrow> rb_heap" where
  "adopt h p q = (if p \<noteq> 0 then rb_set_parent h p q else h)"

lemma adopt_fields [simp]:
  "rb_left (adopt h p q) = rb_left h" "rb_right (adopt h p q) = rb_right h" "rb_node (adopt h p q) = rb_node h"
  "a \<noteq> p \<Longrightarrow> rb_parent_color (adopt h p q) a = rb_parent_color h a"
  "rb_parent_color (adopt h 0 q) = rb_parent_color h"
  by (simp_all add: adopt_def rb_set_parent_def)

lemma tree_adopt:
  assumes "tree h par t" and "4 dvd par" and "4 dvd q" and "distinct (inorder t)"
  shows "tree (adopt h (ptr t) q) q t"
proof (cases t)
  case (Node l c a r)
  have "rb_set_parent h a q = set_parent_color h a (q + col c)"
    using word_updates(3) [of h a par c q] assms Node by simp
  moreover have "tree (set_parent_color h a (q + col c)) a l" "tree (set_parent_color h a (q + col c)) a r"
    using assms Node by (auto intro!: tree_frame [of h] simp: same_at_def)
  ultimately show ?thesis using assms(1) Node by (simp add: adopt_def)
qed simp

definition redirect :: "rb_heap \<Rightarrow> addr \<Rightarrow> addr \<Rightarrow> addr \<Rightarrow> rb_heap" where
  "redirect h parent old new =
     (if parent \<noteq> 0 then
        (if old = rb_left h parent then set_left h parent new else set_right h parent new)
      else set_root h new)"

lemma redirect_fields [simp]:
  "rb_parent_color (redirect h p u v) = rb_parent_color h"
  "a \<noteq> p \<Longrightarrow> rb_left (redirect h p u v) a = rb_left h a" "a \<noteq> p \<Longrightarrow> rb_right (redirect h p u v) a = rb_right h a"
  by (simp_all add: redirect_def)

lemma redirect_path:
  assumes "path h K q" and "q \<noteq> 0" and "q \<notin> on_path K" and "distinct (before K @ behind K)"
  shows "path (redirect h (up K) q v) K v"
proof (cases K)
  case (Cons f K')
  show ?thesis
  proof (cases f)
    case (InL c a r)
    have "redirect h (up K) q v = set_left h a v" using assms(1) Cons InL by (simp add: redirect_def)
    moreover have "tree (set_left h a v) a r"
      using assms Cons InL by (auto intro!: tree_frame [of h] simp: same_at_def)
    moreover have "path (set_left h a v) K' a"
      using assms Cons InL by (auto intro!: path_frame [of h] simp: same_at_def on_path_def)
    ultimately show ?thesis using assms(1) Cons InL by simp
  next
    case (InR l c a)
    have "q \<noteq> rb_left h a" using ptr_in [of l] assms Cons InR by auto
    then have "redirect h (up K) q v = set_right h a v" using assms(1) Cons InR by (simp add: redirect_def)
    moreover have "tree (set_right h a v) a l"
      using assms Cons InR by (auto intro!: tree_frame [of h] simp: same_at_def)
    moreover have "path (set_right h a v) K' a"
      using assms Cons InR by (auto intro!: path_frame [of h] simp: same_at_def on_path_def)
    ultimately show ?thesis using assms(1) Cons InR by simp
  qed
qed (simp add: redirect_def)

lemma rotate_left_whole:
  assumes "whole h (plug K (Node t1 c x (Node t2 d y t3)))"
  obtains h' where "rb_rotate_left h x = Inr h'" and "whole h' (plug K (Node (Node t1 c x t2) d y t3))"
proof -
  have w: "tree h (up K) (Node t1 c x (Node t2 d y t3))" "path h K x"
    "distinct (inorder t1 @ x # inorder t2 @ y # inorder t3)" "distinct (before K @ behind K)"
    "set (inorder t1 @ x # inorder t2 @ y # inorder t3) \<inter> on_path K = {}"
    using assms by (auto simp: whole_plug)
  have dv: "4 dvd up K" "4 dvd x" "4 dvd y" "x \<noteq> 0" "y \<noteq> 0" using w(1) path_up [OF w(2)] by auto
  note node = whole_node [OF assms]
  have "up K = 0 \<or> up K \<in> on_path K" using up_on_path [of K] by (cases "K = []") auto
  then have upK: "up K \<notin> set (inorder t1 @ x # inorder t2 @ y # inorder t3)"
    using w(1,5) dv tree_nonzero [OF w(1)] by auto
  have "ptr t2 = 0 \<or> ptr t2 \<in> set (inorder t2)" by (rule ptr_in)
  then have ne: "ptr t2 \<noteq> x" "ptr t2 \<noteq> y" "x \<noteq> y" "up K \<noteq> x" "up K \<noteq> y"
    "ptr t2 \<notin> set (inorder t1)" "ptr t2 \<notin> set (inorder t3)" "ptr t2 \<notin> on_path K"
    using w upK dv tree_nonzero [OF w(1)] path_nonzero [OF w(2)] by auto
  define h1 where "h1 = set_right h x (ptr t2)"
  define h2 where "h2 = adopt h1 (ptr t2) x"
  define h3 where "h3 = set_left h2 y x"
  define h4 where "h4 = rb_set_parent h3 y (up K)"
  define h5 where "h5 = redirect h4 (up K) x y"
  define h6 where "h6 = rb_set_parent h5 x y"
  have run: "rb_rotate_left h x = Inr h6"
    using w(1) node by (simp add: rb_rotate_left_def deref_def Let_def h1_def h2_def h3_def h4_def h5_def h6_def
      adopt_def redirect_def)
  have pc: "rb_parent_color h x = up K + col c" "rb_parent_color h y = x + col d" using w(1) by auto
  have h4: "h4 = set_parent_color h3 y (up K + col d)"
    unfolding h4_def by (rule word_updates(3) [where p = x]) (use pc dv ne in \<open>simp_all add: h3_def h2_def h1_def\<close>)
  have h6: "h6 = set_parent_color h5 x (y + col c)"
    unfolding h6_def by (rule word_updates(3) [where p = "up K"]) (use pc dv ne in \<open>simp_all add: h5_def h4 h3_def h2_def h1_def\<close>)
  have other: "same_at h h6 A" if "A \<inter> {x, y, ptr t2, up K} = {}" for A
    unfolding same_at_def
  proof
    fix a assume "a \<in> A"
    then have "a \<noteq> x" "a \<noteq> y" "a \<noteq> ptr t2" "a \<noteq> up K" using that by auto
    then show "rb_parent_color h6 a = rb_parent_color h a \<and> rb_left h6 a = rb_left h a \<and> rb_right h6 a = rb_right h a"
      by (simp add: h6 h5_def h4 h3_def h2_def h1_def)
  qed
  have sub: "tree h x t1" "tree h y t2" "tree h y t3" using w(1) by simp_all
  have dis: "set (inorder t1) \<inter> {x, y, ptr t2, up K} = {}" "set (inorder t3) \<inter> {x, y, ptr t2, up K} = {}"
    using w(3) ne(6,7) upK by auto
  have t1: "tree h6 x t1" and t3: "tree h6 y t3"
    using tree_frame [OF sub(1) other [OF dis(1)]] tree_frame [OF sub(3) other [OF dis(2)]] by blast+
  have "same_at h h1 (set (inorder t2))" using w(3) by (auto simp: same_at_def h1_def)
  from tree_frame [OF sub(2) this] have "tree h2 x t2"
    unfolding h2_def by (rule tree_adopt) (use w(3) dv in simp_all)
  then have t2: "tree h6 x t2"
  proof (rule tree_frame)
    show "same_at h2 h6 (set (inorder t2))"
      unfolding same_at_def
    proof
      fix a assume "a \<in> set (inorder t2)"
      then have "a \<noteq> x" "a \<noteq> y" "a \<noteq> up K" using w(3) upK by auto
      then show "rb_parent_color h6 a = rb_parent_color h2 a \<and> rb_left h6 a = rb_left h2 a \<and> rb_right h6 a = rb_right h2 a"
        by (simp add: h6 h5_def h4 h3_def)
    qed
  qed
  have "path h4 K x"
  proof (rule path_frame [OF w(2)])
    show "same_at h h4 (on_path K)"
      unfolding same_at_def
    proof
      fix a assume "a \<in> on_path K"
      then have "a \<noteq> x" "a \<noteq> y" "a \<noteq> ptr t2" using w(5) ne(8) by auto
      then show "rb_parent_color h4 a = rb_parent_color h a \<and> rb_left h4 a = rb_left h a \<and> rb_right h4 a = rb_right h a"
        by (simp add: h4 h3_def h2_def h1_def)
    qed
  qed (simp add: h4 h3_def h2_def h1_def)
  then have "path h5 K y"
    unfolding h5_def by (rule redirect_path) (use w(4,5) dv in simp_all)
  then have "path h6 K y"
    by (rule path_frame) (use w(5) in \<open>auto simp: same_at_def h6\<close>)
  moreover have "rb_left h6 x = ptr t1" "rb_right h6 x = ptr t2" "rb_left h6 y = x" "rb_right h6 y = ptr t3"
    using w(1) ne upK by (auto simp: h6 h5_def h4 h3_def h2_def h1_def)
  moreover have "rb_parent_color h6 x = y + col c" "rb_parent_color h6 y = up K + col d"
    using ne by (simp_all add: h6 h5_def h4)
  ultimately have "whole h6 (plug K (Node (Node t1 c x t2) d y t3))"
    unfolding whole_plug using w(3-5) t1 t2 t3 dv by (simp add: ac_simps insert_commute)
  with run show ?thesis by (rule that)
qed

section \<open>The other side\<close>

text \<open>Everything is symmetric in left and right: \<open>swap\<close> exchanges the two words of every node.\<close>

definition swap :: "rb_heap \<Rightarrow> rb_heap" where
  "swap h = h\<lparr>rb_left := rb_right h, rb_right := rb_left h\<rparr>"

fun mirror :: "rbt \<Rightarrow> rbt" where
  "mirror Leaf = Leaf"
| "mirror (Node l c a r) = Node (mirror r) c a (mirror l)"

fun flip :: "frame \<Rightarrow> frame" where
  "flip (InL c a r) = InR (mirror r) c a"
| "flip (InR l c a) = InL c a (mirror l)"

lemma mirror_simps [simp]: "mirror (mirror t) = t" "inorder (mirror t) = rev (inorder t)" "ptr (mirror t) = ptr t"
proof -
  show "mirror (mirror t) = t" "inorder (mirror t) = rev (inorder t)" by (induction t) simp_all
  show "ptr (mirror t) = ptr t" by (cases t) simp_all
qed

lemma flip_flip [simp]: "flip (flip f) = f" "flip \<circ> flip = id"
proof -
  have "flip (flip f) = f" for f by (cases f) simp_all
  then show "flip (flip f) = f" "flip \<circ> flip = id" by (simp_all add: fun_eq_iff)
qed

lemma mirror_plug: "mirror (plug K t) = plug (map flip K) (mirror t)"
  by (induction K t rule: plug.induct) simp_all

lemma up_flip [simp]: "up (map flip K) = up K"
  by (cases K rule: up.cases) simp_all

lemma swap_fields [simp]:
  "rb_left (swap h) = rb_right h" "rb_right (swap h) = rb_left h" "rb_parent_color (swap h) = rb_parent_color h"
  "rb_node (swap h) = rb_node h" "swap (swap h) = h" "rb_parent (swap h) = rb_parent h"
  "rb_color (swap h) = rb_color h" "rb_is_red (swap h) = rb_is_red h" "rb_is_black (swap h) = rb_is_black h"
  by (simp_all add: swap_def rb_parent_def rb_color_def rb_is_red_def rb_is_black_def fun_eq_iff)

lemma swap_writes [simp]:
  "set_parent_color (swap h) a v = swap (set_parent_color h a v)"
  "set_left (swap h) a v = swap (set_right h a v)" "set_right (swap h) a v = swap (set_left h a v)"
  "set_root (swap h) v = swap (set_root h v)" "rb_set_parent (swap h) a v = swap (rb_set_parent h a v)"
  "rb_set_red (swap h) a = swap (rb_set_red h a)" "rb_set_black (swap h) a = swap (rb_set_black h a)"
  "rb_set_color (swap h) a v = swap (rb_set_color h a v)"
  by (simp_all add: set_parent_color_def set_left_def set_right_def set_root_def rb_set_parent_def
      rb_set_red_def rb_set_black_def rb_set_color_def swap_def)

lemma tree_swap: "tree (swap h) par (mirror t) \<longleftrightarrow> tree h par t"
  by (induction t arbitrary: par) auto

lemma whole_swap: "whole (swap h) (mirror t) \<longleftrightarrow> whole h t"
  by (simp add: whole_def tree_swap)

fun swap_run :: "rb_heap run \<Rightarrow> rb_heap run" where
  "swap_run (Inl e) = Inl e"
| "swap_run (Inr h) = Inr (swap h)"

lemma rotate_right_swap: "rb_rotate_right h x = swap_run (rb_rotate_left (swap h) x)"
  by (simp add: rb_rotate_right_def rb_rotate_left_def deref_def Let_def)

lemma rotate_right_whole:
  assumes "whole h (plug K (Node (Node t1 c x t2) d y t3))"
  obtains h' where "rb_rotate_right h y = Inr h'" and "whole h' (plug K (Node t1 c x (Node t2 d y t3)))"
proof -
  have "whole (swap h) (mirror (plug K (Node (Node t1 c x t2) d y t3)))" using assms by (simp only: whole_swap)
  then have "whole (swap h) (plug (map flip K) (Node (mirror t3) d y (Node (mirror t2) c x (mirror t1))))"
    by (simp add: mirror_plug)
  then obtain h' where h': "rb_rotate_left (swap h) y = Inr h'"
    "whole h' (plug (map flip K) (Node (Node (mirror t3) d y (mirror t2)) c x (mirror t1)))"
    by (rule rotate_left_whole)
  have "whole (swap h') (mirror (plug (map flip K) (Node (Node (mirror t3) d y (mirror t2)) c x (mirror t1))))"
    using h'(2) by (simp only: whole_swap)
  then have "whole (swap h') (plug K (Node t1 c x (Node t2 d y t3)))" by (simp add: mirror_plug)
  with h'(1) show ?thesis by (intro that) (simp_all add: rotate_right_swap)
qed

end
