(* ===== verification/RbInsert.thy ===== *)
theory RbInsert
  imports Rbtree
begin

text \<open>
  Insertion: \<open>rb_insert_color\<close> restores the colours after \<open>rb_link_node\<close> has hung a red node into
  the tree.  \<open>rb t n\<close> says that \<open>t\<close> has black height \<open>n\<close> and no red node with a red child.
\<close>

unbundle bit_operations_syntax

section \<open>The code\<close>

definition insert_left :: "rb_heap \<Rightarrow> addr \<Rightarrow> addr \<Rightarrow> addr \<Rightarrow> (rb_heap \<times> addr) run" where
  "insert_left h node parent gparent =
     (let uncle = rb_right h gparent
      in if uncle \<noteq> 0 \<and> rb_is_red h uncle then
           (let h1 = rb_set_black h uncle; h2 = rb_set_black h1 parent; h3 = rb_set_red h2 gparent
            in Inr (h3, gparent))
         else
           bind_run (if rb_right h parent = node
                     then bind_run (rb_rotate_left h parent) (\<lambda>h1. Inr (h1, node, parent))
                     else Inr (h, parent, node)) (\<lambda>(h1, parent, node).
             let h2 = rb_set_black h1 parent; h3 = rb_set_red h2 gparent
             in bind_run (rb_rotate_right h3 gparent) (\<lambda>h4. Inr (h4, node))))"

definition insert_right :: "rb_heap \<Rightarrow> addr \<Rightarrow> addr \<Rightarrow> addr \<Rightarrow> (rb_heap \<times> addr) run" where
  "insert_right h node parent gparent =
     (let uncle = rb_left h gparent
      in if uncle \<noteq> 0 \<and> rb_is_red h uncle then
           (let h1 = rb_set_black h uncle; h2 = rb_set_black h1 parent; h3 = rb_set_red h2 gparent
            in Inr (h3, gparent))
         else
           bind_run (if rb_left h parent = node
                     then bind_run (rb_rotate_right h parent) (\<lambda>h1. Inr (h1, node, parent))
                     else Inr (h, parent, node)) (\<lambda>(h1, parent, node).
             let h2 = rb_set_black h1 parent; h3 = rb_set_red h2 gparent
             in bind_run (rb_rotate_left h3 gparent) (\<lambda>h4. Inr (h4, node))))"

partial_function (option) insert_loop :: "rb_heap \<Rightarrow> addr \<Rightarrow> rb_heap run option" where
  "insert_loop h node =
     (if node = 0 then Some (Inl Bad_access)
      else
        let parent = rb_parent h node
        in if parent \<noteq> 0 \<and> rb_is_red h parent then
             let gparent = rb_parent h parent
             in if gparent = 0 then Some (Inl Bad_access)
                else case (if parent = rb_left h gparent then insert_left h node parent gparent
                           else insert_right h node parent gparent) of
                       Inl e \<Rightarrow> Some (Inl e)
                     | Inr (h', node') \<Rightarrow> insert_loop h' node'
           else Some (Inr h))"

definition rb_insert_color :: "rb_heap \<Rightarrow> addr \<Rightarrow> rb_heap run option" where
  "rb_insert_color h node =
     (case insert_loop h node of
        None \<Rightarrow> None
      | Some r \<Rightarrow> Some (bind_run r (\<lambda>h'. deref (rb_node h') (Inr (rb_set_black h' (rb_node h'))))))"

section \<open>Red-black trees\<close>

fun black :: "rbt \<Rightarrow> bool" where
  "black Leaf \<longleftrightarrow> True"
| "black (Node l c a r) \<longleftrightarrow> c = Black"

fun rb :: "rbt \<Rightarrow> nat \<Rightarrow> bool" where
  "rb Leaf n \<longleftrightarrow> n = 0"
| "rb (Node l Black a r) n \<longleftrightarrow> (\<exists>m. n = Suc m \<and> rb l m \<and> rb r m)"
| "rb (Node l Red a r) n \<longleftrightarrow> black l \<and> black r \<and> rb l n \<and> rb r n"

fun black_top :: "frame list \<Rightarrow> bool" where
  "black_top [] \<longleftrightarrow> False"
| "black_top (InL c a r # K) \<longleftrightarrow> c = Black"
| "black_top (InR l c a # K) \<longleftrightarrow> c = Black"

text \<open>\<open>hole K n\<close>: a red-black tree of height \<open>n\<close> fits at the end of \<open>K\<close>, if its root is black or the
  node above it is.\<close>

fun hole :: "frame list \<Rightarrow> nat \<Rightarrow> bool" where
  "hole [] n \<longleftrightarrow> True"
| "hole (InL Black a r # K) n \<longleftrightarrow> rb r n \<and> hole K (Suc n)"
| "hole (InL Red a r # K) n \<longleftrightarrow> rb r n \<and> black r \<and> black_top K \<and> hole K n"
| "hole (InR l Black a # K) n \<longleftrightarrow> rb l n \<and> hole K (Suc n)"
| "hole (InR l Red a # K) n \<longleftrightarrow> rb l n \<and> black l \<and> black_top K \<and> hole K n"

lemma rb_plug:
  "hole K n \<Longrightarrow> rb t n \<Longrightarrow> K \<noteq> [] \<Longrightarrow> black t \<or> black_top K \<Longrightarrow> \<exists>m. rb (plug K t) m \<and> black (plug K t)"
proof (induction K arbitrary: t n)
  case (Cons f K)
  have step: "\<exists>m. rb (plug K u) m \<and> black (plug K u)" if "hole K k" "rb u k" "black u \<or> black_top K" for u k
    using Cons.IH that by (cases K) auto
  show ?case
  proof (cases f)
    case (InL c a r)
    show ?thesis
    proof (cases c)
      case Red
      with InL Cons.prems step [of n "Node t Red a r"] show ?thesis by auto
    next
      case Black
      with InL Cons.prems step [of "Suc n" "Node t Black a r"] show ?thesis by auto
    qed
  next
    case (InR l c a)
    show ?thesis
    proof (cases c)
      case Red
      with InR Cons.prems step [of n "Node l Red a t"] show ?thesis by auto
    next
      case Black
      with InR Cons.prems step [of "Suc n" "Node l Black a t"] show ?thesis by auto
    qed
  qed
qed simp

text \<open>A tree that is red-black but for the colour of its root.\<close>

definition rb_root :: "rbt \<Rightarrow> bool" where
  "rb_root t \<longleftrightarrow> black t \<and> (\<exists>n. rb t n)"

lemma rb_mirror [simp]: "rb (mirror t) n \<longleftrightarrow> rb t n" "black (mirror t) \<longleftrightarrow> black t"
proof -
  show b: "black (mirror t) \<longleftrightarrow> black t" for t by (cases t) simp_all
  show "rb (mirror t) n \<longleftrightarrow> rb t n"
    by (induction t n rule: rb.induct) (auto simp: b)
qed

lemma hole_flip [simp]: "hole (map flip K) n \<longleftrightarrow> hole K n"
proof -
  have "black_top (map flip K) \<longleftrightarrow> black_top K" for K by (cases K rule: black_top.cases) simp_all
  then show ?thesis by (induction K n rule: hole.induct) auto
qed

lemma black_top_flip [simp]: "black_top (map flip K) \<longleftrightarrow> black_top K"
  by (cases K rule: black_top.cases) simp_all

section \<open>One turn of the loop\<close>

text \<open>What a turn makes of the two nodes above the red node \<open>t\<close>: with a red uncle the grandparent
  becomes the red node, otherwise a rotation ends the repair.\<close>

lemma insert_left_red_uncle:
  assumes "whole h (plug (F # InL Black g (Node ul Red u ur) # K) t)"
    and F: "F = InL Red p s \<or> F = InR s Red p"
  obtains h' where "insert_left h node p g = Inr (h', g)"
    and "whole h' (plug K (Node (plug [case F of InL c a r \<Rightarrow> InL Black a r | InR l c a \<Rightarrow> InR l Black a] t)
           Red g (Node ul Black u ur)))"
proof -
  define P where "P = plug [F] t"
  have P: "P = (case F of InL c a r \<Rightarrow> Node t Red p s | InR l c a \<Rightarrow> Node s Red p t)"
    using F by (auto simp: P_def)
  obtain Pl Pr where Pn: "P = Node Pl Red p Pr" using F by (auto simp: P_def)
  have w: "whole h (plug K (Node P Black g (Node ul Red u ur)))"
    using assms by (cases F) (simp_all add: P_def)
  have "whole h (plug (InR P Black g # K) (Node ul Red u ur))" using w by simp
  note uncle = whole_node [OF this] and w1 = whole_paint(2) [OF this]
  have "whole (rb_set_black h u) (plug (InL Black g (Node ul Black u ur) # K) (Node Pl Red p Pr))"
    using w1 by (simp add: Pn)
  note w2 = whole_paint(2) [OF this]
  have "whole (rb_set_black (rb_set_black h u) p) (plug K (Node (Node Pl Black p Pr) Black g (Node ul Black u ur)))"
    using w2 by simp
  note w3 = whole_paint(1) [OF this]
  have "insert_left h node p g = Inr (rb_set_red (rb_set_black (rb_set_black h u) p) g, g)"
    using whole_node(4) [OF w] uncle by (simp add: insert_left_def)
  then show ?thesis
    by (rule that) (use w3 F Pn in \<open>auto simp: P_def\<close>)
qed

lemma insert_left_outer:
  assumes w: "whole h (plug K (Node (Node (Node l Red x r) Red p s) Black g u))" and u: "black u"
  obtains h' where "insert_left h x p g = Inr (h', x)"
    and "whole h' (plug K (Node (Node l Red x r) Black p (Node s Red g u)))"
proof -
  note node_g = whole_node [OF w]
  have wu: "whole h (plug (InR (Node (Node l Red x r) Red p s) Black g # K) u)" using w by simp
  have no_red: "\<not> (ptr u \<noteq> 0 \<and> rb_is_red h (ptr u))"
  proof (cases u)
    case (Node ul c ua ur)
    with u wu whole_node(7) [of h "InR (Node (Node l Red x r) Red p s) Black g # K" ul c ua ur] show ?thesis by simp
  qed simp
  have wp: "whole h (plug (InL Black g u # K) (Node (Node l Red x r) Red p s))" using w by simp
  note node_p = whole_node [OF wp]
  have "x \<notin> set (inorder s)" and "x \<noteq> 0"
    using w whole_node(1) [of h "InL Red p s # InL Black g u # K" l Red x r] by (auto simp: whole_def)
  then have ne: "ptr s \<noteq> x" using ptr_in [of s] by auto
  have "whole (rb_set_black h p) (plug (InL Black g u # K) (Node (Node l Red x r) Black p s))"
    by (rule whole_paint(2) [OF wp])
  then have "whole (rb_set_black h p) (plug K (Node (Node (Node l Red x r) Black p s) Black g u))" by simp
  from whole_paint(1) [OF this] obtain h' where
    "rb_rotate_right (rb_set_red (rb_set_black h p) g) g = Inr h'"
    "whole h' (plug K (Node (Node l Red x r) Black p (Node s Red g u)))"
    by (rule rotate_right_whole)
  moreover from this have "insert_left h x p g = Inr (h', x)"
    using no_red node_g(4) node_p(4) ne by (auto simp: insert_left_def Let_def)
  ultimately show ?thesis by (intro that)
qed

lemma insert_left_inner:
  assumes w: "whole h (plug K (Node (Node s Red p (Node l Red x r)) Black g u))" and u: "black u"
  obtains h' where "insert_left h x p g = Inr (h', p)"
    and "whole h' (plug K (Node (Node s Red p l) Black x (Node r Red g u)))"
proof -
  note node_g = whole_node [OF w]
  have wu: "whole h (plug (InR (Node s Red p (Node l Red x r)) Black g # K) u)" using w by simp
  have no_red: "\<not> (ptr u \<noteq> 0 \<and> rb_is_red h (ptr u))"
  proof (cases u)
    case (Node ul c ua ur)
    with u wu whole_node(7) [of h "InR (Node s Red p (Node l Red x r)) Black g # K" ul c ua ur] show ?thesis by simp
  qed simp
  have wp: "whole h (plug (InL Black g u # K) (Node s Red p (Node l Red x r)))" using w by simp
  note node_p = whole_node [OF wp]
  from wp obtain h1 where h1: "rb_rotate_left h p = Inr h1"
    "whole h1 (plug (InL Black g u # K) (Node (Node s Red p l) Red x r))" by (rule rotate_left_whole)
  have "whole (rb_set_black h1 x) (plug (InL Black g u # K) (Node (Node s Red p l) Black x r))"
    by (rule whole_paint(2) [OF h1(2)])
  then have "whole (rb_set_black h1 x) (plug K (Node (Node (Node s Red p l) Black x r) Black g u))" by simp
  from whole_paint(1) [OF this] obtain h' where
    "rb_rotate_right (rb_set_red (rb_set_black h1 x) g) g = Inr h'"
    "whole h' (plug K (Node (Node s Red p l) Black x (Node r Red g u)))"
    by (rule rotate_right_whole)
  moreover from this have "insert_left h x p g = Inr (h', p)"
    using no_red node_g(4) node_p(4) h1(1) by (auto simp: insert_left_def Let_def)
  ultimately show ?thesis by (intro that)
qed


text \<open>After a turn the tree is the same but for a red node nearer to the root.\<close>

definition turned :: "rbt \<Rightarrow> nat \<Rightarrow> rb_heap \<times> addr \<Rightarrow> bool" where
  "turned T k res \<longleftrightarrow> (\<exists>K l r m. whole (fst res) (plug K (Node l Red (snd res) r)) \<and> rb (Node l Red (snd res) r) m
     \<and> hole K m \<and> inorder (plug K (Node l Red (snd res) r)) = inorder T \<and> length K < k)"

lemma turnedI:
  "whole h' (plug K (Node l Red x r)) \<Longrightarrow> rb (Node l Red x r) m \<Longrightarrow> hole K m \<Longrightarrow>
     inorder (plug K (Node l Red x r)) = inorder T \<Longrightarrow> length K < k \<Longrightarrow> turned T k (h', x)"
  unfolding turned_def by auto

lemma insert_left_turn:
  assumes w: "whole h (plug (F # InL Black g u # K) (Node l Red x r))"
    and F: "F = InL Red p s \<or> F = InR s Red p"
    and rb: "rb (Node l Red x r) n" and hole: "hole (F # InL Black g u # K) n"
  shows "\<exists>res. insert_left h x p g = Inr res
    \<and> turned (plug (F # InL Black g u # K) (Node l Red x r)) (length (F # InL Black g u # K)) res"
proof -
  have s: "rb s n" "black s" and u: "rb u n" and K: "hole K (Suc n)"
    using F hole by auto
  show ?thesis
  proof (cases "black u")
    case False
    then obtain ul ua ur where u': "u = Node ul Red ua ur" by (cases u) (auto intro: color.exhaust)
    let ?F = "case F of InL c a r \<Rightarrow> InL Black a r | InR l c a \<Rightarrow> InR l Black a"
    let ?P = "plug [?F] (Node l Red x r)"
    from insert_left_red_uncle [OF w [unfolded u'] F] obtain h' where
      h': "insert_left h x p g = Inr (h', g)" "whole h' (plug K (Node ?P Red g (Node ul Black ua ur)))" by blast
    have "rb (Node ?P Red g (Node ul Black ua ur)) (Suc n)" using F rb s u u' by auto
    then have "turned (plug (F # InL Black g u # K) (Node l Red x r)) (length (F # InL Black g u # K)) (h', g)"
      by (rule turnedI [OF h'(2)]) (use K F u' in auto)
    with h'(1) show ?thesis by blast
  next
    case True
    from F show ?thesis
    proof
      assume F: "F = InL Red p s"
      have "whole h (plug K (Node (Node (Node l Red x r) Red p s) Black g u))" using w F by simp
      from insert_left_outer [OF this True] obtain h' where
        h': "insert_left h x p g = Inr (h', x)" "whole h' (plug K (Node (Node l Red x r) Black p (Node s Red g u)))" by blast
      have "turned (plug (F # InL Black g u # K) (Node l Red x r)) (length (F # InL Black g u # K)) (h', x)"
        by (rule turnedI [where K = "InL Black p (Node s Red g u) # K" and l = l and r = r, OF _ rb])
          (use h'(2) s u K F True in auto)
      with h'(1) show ?thesis by blast
    next
      assume F: "F = InR s Red p"
      have "whole h (plug K (Node (Node s Red p (Node l Red x r)) Black g u))" using w F by simp
      from insert_left_inner [OF this True] obtain h' where
        h': "insert_left h x p g = Inr (h', p)" "whole h' (plug K (Node (Node s Red p l) Black x (Node r Red g u)))" by blast
      have "turned (plug (F # InL Black g u # K) (Node l Red x r)) (length (F # InL Black g u # K)) (h', p)"
        by (rule turnedI [where K = "InL Black x (Node r Red g u) # K" and l = s and r = l and m = n])
          (use h'(2) s u K F True rb in auto)
      with h'(1) show ?thesis by blast
    qed
  qed
qed

text \<open>The other side by symmetry.\<close>

fun swap_turn :: "(rb_heap \<times> addr) run \<Rightarrow> (rb_heap \<times> addr) run" where
  "swap_turn (Inl e) = Inl e"
| "swap_turn (Inr (h, a)) = Inr (swap h, a)"

lemma swap_run_bind [simp]: "bind_run (swap_run r) f = bind_run r (\<lambda>h. f (swap h))"
  by (cases r) simp_all

lemma swap_turn_bind: "swap_turn (bind_run r f) = bind_run r (\<lambda>h. swap_turn (f h))"
  by (cases r) simp_all

lemma rotate_left_swap: "rb_rotate_left h x = swap_run (rb_rotate_right (swap h) x)"
  by (simp add: rb_rotate_right_def rb_rotate_left_def deref_def Let_def)

lemma insert_right_swap: "insert_right h node p g = swap_turn (insert_left (swap h) node p g)"
  by (simp add: insert_right_def insert_left_def Let_def swap_turn_bind rotate_right_swap)

lemma turned_swap: "turned (mirror T) k (h, a) \<Longrightarrow> turned T k (swap h, a)"
proof -
  assume "turned (mirror T) k (h, a)"
  then obtain K l r m where t: "whole h (plug K (Node l Red a r))" "rb (Node l Red a r) m" "hole K m"
    "inorder (plug K (Node l Red a r)) = inorder (mirror T)" "length K < k" by (auto simp: turned_def)
  have flip: "plug (map flip K) (Node (mirror r) Red a (mirror l)) = mirror (plug K (Node l Red a r))"
    by (simp add: mirror_plug)
  show ?thesis
  proof (rule turnedI)
    show "whole (swap h) (plug (map flip K) (Node (mirror r) Red a (mirror l)))"
      unfolding flip whole_swap by (rule t(1))
    show "inorder (plug (map flip K) (Node (mirror r) Red a (mirror l))) = inorder T"
      unfolding flip using t(4) by (simp del: inorder_plug)
  qed (use t in auto)
qed

lemma insert_right_turn:
  assumes w: "whole h (plug (F # InR u Black g # K) (Node l Red x r))"
    and F: "F = InL Red p s \<or> F = InR s Red p"
    and rb: "rb (Node l Red x r) n" and hole: "hole (F # InR u Black g # K) n"
  shows "\<exists>res. insert_right h x p g = Inr res
    \<and> turned (plug (F # InR u Black g # K) (Node l Red x r)) (length (F # InR u Black g # K)) res"
proof -
  have "whole (swap h) (mirror (plug (F # InR u Black g # K) (Node l Red x r)))"
    using w by (simp only: whole_swap)
  then have "whole (swap h) (plug (flip F # InL Black g (mirror u) # map flip K) (Node (mirror r) Red x (mirror l)))"
    by (simp add: mirror_plug)
  moreover have "flip F = InL Red p (mirror s) \<or> flip F = InR (mirror s) Red p" using F by auto
  moreover have "rb (Node (mirror r) Red x (mirror l)) n" using rb by simp
  moreover have "hole (flip F # InL Black g (mirror u) # map flip K) n"
    using hole hole_flip [of "F # InR u Black g # K" n] by simp
  ultimately obtain h1 a where res: "insert_left (swap h) x p g = Inr (h1, a)"
    "turned (plug (flip F # InL Black g (mirror u) # map flip K) (Node (mirror r) Red x (mirror l)))
       (length (flip F # InL Black g (mirror u) # map flip K)) (h1, a)"
    using insert_left_turn [of "swap h" "flip F" g "mirror u" "map flip K" "mirror r" x "mirror l" p "mirror s" n] by auto
  have "plug (flip F # InL Black g (mirror u) # map flip K) (Node (mirror r) Red x (mirror l))
      = mirror (plug (F # InR u Black g # K) (Node l Red x r))" by (simp add: mirror_plug)
  with res(2) have "turned (plug (F # InR u Black g # K) (Node l Red x r)) (length (F # InR u Black g # K)) (swap h1, a)"
    by (intro turned_swap) simp
  with res(1) show ?thesis by (simp add: insert_right_swap)
qed

section \<open>The loop\<close>

lemma insert_loop_done:
  assumes w: "whole h (plug K (Node l Red x r))" and "K = [] \<or> black_top K"
  shows "insert_loop h x = Some (Inr h)"
proof -
  note node = whole_node [OF w]
  have "up K = 0 \<or> \<not> rb_is_red h (up K)"
    using assms(2)
  proof
    assume b: "black_top K"
    show ?thesis
    proof (cases K rule: up.cases)
      case (2 c a r' K')
      with b w whole_node(7) [of h K' "Node l Red x r" c a r'] show ?thesis by simp
    next
      case (3 l' c a K')
      with b w whole_node(7) [of h K' l' c a "Node l Red x r"] show ?thesis by simp
    qed (use b in simp)
  qed simp
  with node show ?thesis by (subst insert_loop.simps) auto
qed

lemma insert_loop_ok:
  assumes "whole h (plug K (Node l Red x r))" and "rb (Node l Red x r) n" and "hole K n"
  shows "\<exists>h' T m. insert_loop h x = Some (Inr h') \<and> whole h' T \<and> T \<noteq> Leaf
    \<and> inorder T = inorder (plug K (Node l Red x r)) \<and> rb T m"
  using assms
proof (induction "length K" arbitrary: h K l x r n rule: less_induct)
  case less
  note w = less.prems(1)
  show ?case
  proof (cases "K = [] \<or> black_top K")
    case True
    then have "insert_loop h x = Some (Inr h)" by (rule insert_loop_done [OF w])
    moreover have "\<exists>m. rb (plug K (Node l Red x r)) m"
      using less.prems rb_plug [of K n "Node l Red x r"] True by (cases "K = []") auto
    moreover have "plug K (Node l Red x r) \<noteq> Leaf"
      by (metis inorder.simps(1) inorder_plug append_is_Nil_conv inorder.simps(2) list.distinct(1))
    ultimately show ?thesis using w by blast
  next
    case False
    then obtain F K1 where K: "K = F # K1" by (cases K) auto
    have "\<exists>p s. F = InL Red p s \<or> F = InR s Red p"
      using False K by (cases F) (auto intro: color.exhaust)
    then obtain p s where F: "F = InL Red p s \<or> F = InR s Red p" by blast
    have "black_top K1" using less.prems(3) K F by auto
    then consider (left) g u K2 where "K1 = InL Black g u # K2" | (right) g u K2 where "K1 = InR u Black g # K2"
      by (cases K1 rule: black_top.cases) auto
    then have "\<exists>h1 y. \<exists>g. rb_parent h p = g \<and> g \<noteq> 0 \<and> (if p = rb_left h g then insert_left h x p g else insert_right h x p g)
        = Inr (h1, y) \<and> turned (plug K (Node l Red x r)) (length K) (h1, y)"
    proof cases
      case left
      have P: "whole h (plug (InL Black g u # K2) (plug [F] (Node l Red x r)))" using w K left F by auto
      obtain Pl Pr where Pn: "plug [F] (Node l Red x r) = Node Pl Red p Pr" using F by auto
      note wp = whole_node [OF P [unfolded Pn]]
      have G: "whole h (plug K2 (Node (Node Pl Red p Pr) Black g u))" using P Pn by simp
      from insert_left_turn [OF w [unfolded K left] F less.prems(2) less.prems(3) [unfolded K left]]
      show ?thesis using wp whole_node [OF G] K left by auto
    next
      case right
      have P: "whole h (plug (InR u Black g # K2) (plug [F] (Node l Red x r)))" using w K right F by auto
      obtain Pl Pr where Pn: "plug [F] (Node l Red x r) = Node Pl Red p Pr" using F by auto
      note wp = whole_node [OF P [unfolded Pn]]
      have G: "whole h (plug K2 (Node u Black g (Node Pl Red p Pr)))" using P Pn by simp
      have "p \<notin> set (inorder u)" using G by (auto simp: whole_plug)
      then have "ptr u \<noteq> p" using ptr_in [of u] wp(1) by auto
      with insert_right_turn [OF w [unfolded K right] F less.prems(2) less.prems(3) [unfolded K right]]
      show ?thesis using wp whole_node [OF G] K right by auto
    qed
    then obtain h1 y g where step: "rb_parent h p = g" "g \<noteq> 0"
      "(if p = rb_left h g then insert_left h x p g else insert_right h x p g) = Inr (h1, y)"
      and t: "turned (plug K (Node l Red x r)) (length K) (h1, y)" by blast
    from t obtain K' l' r' m where t': "whole h1 (plug K' (Node l' Red y r'))" "rb (Node l' Red y r') m" "hole K' m"
      "inorder (plug K' (Node l' Red y r')) = inorder (plug K (Node l Red x r))" "length K' < length K"
      by (auto simp: turned_def)
    have "up K = p" using K F by auto
    moreover have "rb_is_red h p" "p \<noteq> 0"
      using F w K whole_node(1,7) [of h K1 "Node l Red x r" Red p s] whole_node(1,7) [of h K1 s Red p "Node l Red x r"]
      by auto
    ultimately have "insert_loop h x = insert_loop h1 y"
      using whole_node [OF w] step by (subst insert_loop.simps) (simp add: Let_def)
    with less.hyps [OF t'(5,1-3)] t'(4) show ?thesis by metis
  qed
qed

section \<open>Insertion\<close>

lemma rb_insert_color_ok:
  assumes "whole h (plug K (Node l Red x r))" and "rb (Node l Red x r) n" and "hole K n"
  obtains h' T where "rb_insert_color h x = Some (Inr h')" and "whole h' T"
    and "inorder T = inorder (plug K (Node l Red x r))" and "rb_root T"
proof -
  from insert_loop_ok [OF assms] obtain h1 T m where
    run: "insert_loop h x = Some (Inr h1)" and w: "whole h1 T" and ne: "T \<noteq> Leaf"
    and ord: "inorder T = inorder (plug K (Node l Red x r))" and rb: "rb T m" by blast
  obtain tl c a tr where T: "T = Node tl c a tr" using ne by (cases T) auto
  have root: "rb_node h1 = a" using w by (simp add: whole_def T)
  have w': "whole h1 (plug [] (Node tl c a tr))" using w T by simp
  show ?thesis
  proof (rule that)
    show "rb_insert_color h x = Some (Inr (rb_set_black h1 a))"
      using run root whole_node(1) [OF w'] by (simp add: rb_insert_color_def deref_def)
    show "whole (rb_set_black h1 a) (Node tl Black a tr)" using whole_paint(2) [OF w'] by simp
    show "inorder (Node tl Black a tr) = inorder (plug K (Node l Red x r))" using ord T by simp
    show "rb_root (Node tl Black a tr)" using rb T by (cases c) (auto simp: rb_root_def)
  qed
qed

lemma hole_of_plug:
  "rb (plug K t) m \<Longrightarrow> black (plug K t) \<Longrightarrow> \<exists>n. hole K n \<and> rb t n \<and> (black t \<or> black_top K)"
proof (induction K t rule: plug.induct)
  case (2 c a r K t)
  then obtain n where "hole K n" "rb (Node t c a r) n" "black (Node t c a r) \<or> black_top K" by auto
  then show ?case by (cases c) auto
next
  case (3 l c a K t)
  then obtain n where "hole K n" "rb (Node l c a t) n" "black (Node l c a t) \<or> black_top K" by auto
  then show ?case by (cases c) auto
qed auto

text \<open>The word that \<open>rb_link\<close> points to, for the place \<open>K\<close>.\<close>

fun link_of :: "frame list \<Rightarrow> link" where
  "link_of [] = Root_link"
| "link_of (InL c a r # K) = Left_link a"
| "link_of (InR l c a # K) = Right_link a"

lemma set_link_path:
  assumes "path h K q" and "distinct (before K @ behind K)"
  shows "path (set_link h (link_of K) v) K v"
proof (cases K rule: up.cases)
  case (2 c a r K')
  have a: "a \<notin> set (inorder r)" "a \<notin> on_path K'" using assms(2) 2 by (auto simp: on_path_def)
  have p: "tree h a r" "path h K' a" using assms(1) 2 by simp_all
  have "same_at h (set_left h a v) (set (inorder r))" "same_at h (set_left h a v) (on_path K')"
    using a by (auto simp: same_at_def)
  from tree_frame [OF p(1) this(1)] path_frame [OF p(2) this(2)] show ?thesis using assms(1) 2 by simp
next
  case (3 l c a K')
  have a: "a \<notin> set (inorder l)" "a \<notin> on_path K'" using assms(2) 3 by (auto simp: on_path_def)
  have p: "tree h a l" "path h K' a" using assms(1) 3 by simp_all
  have "same_at h (set_right h a v) (set (inorder l))" "same_at h (set_right h a v) (on_path K')"
    using a by (auto simp: same_at_def)
  from tree_frame [OF p(1) this(1)] path_frame [OF p(2) this(2)] show ?thesis using assms(1) 3 by simp
qed simp

lemma rb_link_node_whole:
  assumes w: "whole h (plug K Leaf)" and node: "node \<noteq> 0" "4 dvd node" "node \<notin> on_path K"
  shows "whole (rb_link_node h node (up K) (link_of K)) (plug K (Node Leaf Red node Leaf))"
proof -
  let ?h1 = "set_left (set_right (set_parent_color h node (up K)) node 0) node 0"
  let ?h = "set_link ?h1 (link_of K) node"
  have p: "path h K 0" "distinct (before K @ behind K)" using w by (simp_all add: whole_plug)
  have same: "same_at h ?h1 (on_path K)" using node(3) by (auto simp: same_at_def)
  have p1: "path ?h1 K 0" by (rule path_frame [OF p(1) same]) simp
  have "path ?h K node" by (rule set_link_path [OF p1 p(2)])
  moreover have "rb_left ?h node = 0" "rb_right ?h node = 0" "rb_parent_color ?h node = up K"
    using node(3) by (cases K rule: up.cases; simp)+
  ultimately have "whole ?h (plug K (Node Leaf Red node Leaf))"
    unfolding whole_plug using node p(2) by (simp add: RB_RED_def)
  then show ?thesis by (simp add: rb_link_node_def Let_def)
qed

lemma rb_insert_whole:
  assumes w: "whole h (plug K Leaf)" and rb: "rb_root (plug K Leaf)"
    and node: "node \<noteq> 0" "4 dvd node" "node \<notin> on_path K"
  shows "\<exists>h' T. rb_insert_color (rb_link_node h node (up K) (link_of K)) node = Some (Inr h')
    \<and> whole h' T \<and> rb_root T \<and> inorder T = before K @ node # behind K"
proof -
  from rb have "\<exists>m. rb (plug K Leaf) m" "black (plug K Leaf)" by (auto simp: rb_root_def)
  then obtain n where n: "hole K n" "rb Leaf n" using hole_of_plug by blast
  have "rb (Node Leaf Red node Leaf) n" using n(2) by simp
  from rb_insert_color_ok [OF rb_link_node_whole [OF w node] this n(1)] show ?thesis by force
qed

text \<open>C16. Hanging a new node into any place of a red-black tree with \<open>rb_link_node\<close> and repairing the
  colours with \<open>rb_insert_color\<close> gives a red-black tree with the same nodes in the same order and
  the new one in its place; no \<open>NULL\<close> is dereferenced and the loop ends.\<close>

theorem rb_insert_keeps_tree:
  assumes w: "whole h (plug K Leaf)" and rb: "rb_root (plug K Leaf)"
    and node: "node \<noteq> 0" "4 dvd node" "node \<notin> on_path K"
  shows "\<exists>h' T. rb_insert_color (rb_link_node h node (up K) (link_of K)) node = Some (Inr h')
    \<and> whole h' T \<and> rb_root T \<and> inorder T = before K @ node # behind K"
  by (rule rb_insert_whole [OF w rb node])

section \<open>A tree of two nodes\<close>

definition rb_zero :: rb_heap where
  "rb_zero = \<lparr>rb_parent_color = (\<lambda>_. 0), rb_right = (\<lambda>_. 0), rb_left = (\<lambda>_. 0), rb_node = 0\<rparr>"

definition rb_pair :: rb_heap where
  "rb_pair = \<lparr>rb_parent_color = (\<lambda>_. 0)(64 := 1, 128 := 64), rb_right = (\<lambda>_. 0)(64 := 128), rb_left = (\<lambda>_. 0), rb_node = 64\<rparr>"

lemma rb_pair: "whole rb_pair (Node Leaf Black 64 (Node Leaf Red 128 Leaf))"
  by (simp add: whole_def rb_pair_def RB_RED_def RB_BLACK_def)

theorem rb_insert_keeps_tree_witness:
  "\<exists>h' T. rb_insert_color (rb_link_node rb_pair 192 128 (Right_link 128)) 192 = Some (Inr h')
    \<and> whole h' T \<and> rb_root T \<and> inorder T = [64, 128, 192]"
proof -
  let ?K = "[InR Leaf Red 128, InR Leaf Black 64]"
  have "whole rb_pair (plug ?K Leaf)" using rb_pair by simp
  moreover have "rb_root (plug ?K Leaf)" by (simp add: rb_root_def)
  ultimately show ?thesis using rb_insert_keeps_tree [of rb_pair ?K 192] by simp
qed

end
