(* ===== verification/RbErase.thy ===== *)
theory RbErase
  imports RbInsert "HOL-Library.While_Combinator"
begin

text \<open>
  Deletion from a red-black tree: \<open>rb_erase\<close> with \<open>__rb_erase_color\<close>, and \<open>rb_replace_node\<close>.
\<close>

unbundle bit_operations_syntax

section \<open>The code\<close>

definition null_or_black :: "rb_heap \<Rightarrow> addr \<Rightarrow> bool" where
  "null_or_black h p \<longleftrightarrow> p = 0 \<or> rb_is_black h p"

text \<open>One turn of the loop of \<open>__rb_erase_color\<close>; the second component is \<open>node\<close> and \<open>parent\<close> for
  the next one, or \<open>None\<close> at the \<open>break\<close>.\<close>

definition erase_left :: "rb_heap \<Rightarrow> addr \<Rightarrow> (rb_heap \<times> (addr \<times> addr) option) run" where
  "erase_left h parent =
     deref (rb_right h parent)
      (bind_run
        (if rb_is_red h (rb_right h parent) then
           (let h1 = rb_set_black h (rb_right h parent); h2 = rb_set_red h1 parent
            in bind_run (rb_rotate_left h2 parent) (\<lambda>h3. Inr (h3, rb_right h3 parent)))
         else Inr (h, rb_right h parent)) (\<lambda>(h, other).
       deref other
        (if null_or_black h (rb_left h other) \<and> null_or_black h (rb_right h other) then
           (let h1 = rb_set_red h other in Inr (h1, Some (parent, rb_parent h1 parent)))
         else
           bind_run
            (if null_or_black h (rb_right h other) then
               deref (rb_left h other)
                (let h1 = rb_set_black h (rb_left h other); h2 = rb_set_red h1 other
                 in bind_run (rb_rotate_right h2 other) (\<lambda>h3. Inr (h3, rb_right h3 parent)))
             else Inr (h, other)) (\<lambda>(h, other).
           deref other
            (let h1 = rb_set_color h other (rb_color h parent); h2 = rb_set_black h1 parent
             in deref (rb_right h2 other)
                 (let h3 = rb_set_black h2 (rb_right h2 other)
                  in bind_run (rb_rotate_left h3 parent) (\<lambda>h4. Inr (h4, None))))))))"

definition erase_right :: "rb_heap \<Rightarrow> addr \<Rightarrow> (rb_heap \<times> (addr \<times> addr) option) run" where
  "erase_right h parent =
     deref (rb_left h parent)
      (bind_run
        (if rb_is_red h (rb_left h parent) then
           (let h1 = rb_set_black h (rb_left h parent); h2 = rb_set_red h1 parent
            in bind_run (rb_rotate_right h2 parent) (\<lambda>h3. Inr (h3, rb_left h3 parent)))
         else Inr (h, rb_left h parent)) (\<lambda>(h, other).
       deref other
        (if null_or_black h (rb_left h other) \<and> null_or_black h (rb_right h other) then
           (let h1 = rb_set_red h other in Inr (h1, Some (parent, rb_parent h1 parent)))
         else
           bind_run
            (if null_or_black h (rb_left h other) then
               deref (rb_right h other)
                (let h1 = rb_set_black h (rb_right h other); h2 = rb_set_red h1 other
                 in bind_run (rb_rotate_left h2 other) (\<lambda>h3. Inr (h3, rb_left h3 parent)))
             else Inr (h, other)) (\<lambda>(h, other).
           deref other
            (let h1 = rb_set_color h other (rb_color h parent); h2 = rb_set_black h1 parent
             in deref (rb_left h2 other)
                 (let h3 = rb_set_black h2 (rb_left h2 other)
                  in bind_run (rb_rotate_right h3 parent) (\<lambda>h4. Inr (h4, None))))))))"

text \<open>The loop gives the last value of \<open>node\<close>.\<close>

partial_function (option) erase_loop :: "rb_heap \<Rightarrow> addr \<Rightarrow> addr \<Rightarrow> (rb_heap \<times> addr) run option" where
  "erase_loop h node parent =
     (if null_or_black h node \<and> node \<noteq> rb_node h then
        if parent = 0 then Some (Inl Bad_access)
        else case (if rb_left h parent = node then erase_left h parent else erase_right h parent) of
               Inl e \<Rightarrow> Some (Inl e)
             | Inr (h', next) \<Rightarrow>
                 (case next of
                    None \<Rightarrow> Some (Inr (h', rb_node h'))
                  | Some np \<Rightarrow> erase_loop h' (fst np) (snd np))
      else Some (Inr (h, node)))"

definition rb_erase_color :: "rb_heap \<Rightarrow> addr \<Rightarrow> addr \<Rightarrow> rb_heap run option" where
  "rb_erase_color h node parent =
     (case erase_loop h node parent of
        None \<Rightarrow> None
      | Some r \<Rightarrow> Some (bind_run r (\<lambda>(h', node'). Inr (if node' \<noteq> 0 then rb_set_black h' node' else h'))))"

text \<open>The loop down to the left; \<open>None\<close> if it does not end.\<close>

definition leftmost :: "rb_heap \<Rightarrow> addr \<Rightarrow> addr option" where
  "leftmost h = while_option (\<lambda>n. rb_left h n \<noteq> 0) (rb_left h)"

definition erase_one :: "rb_heap \<Rightarrow> addr \<Rightarrow> addr \<Rightarrow> rb_heap run option" where
  "erase_one h node child =
     (let parent = rb_parent h node;
          color = rb_color h node;
          h1 = (if child \<noteq> 0 then rb_set_parent h child parent else h);
          h2 = (if parent \<noteq> 0 then
                  (if rb_left h1 parent = node then set_left h1 parent child else set_right h1 parent child)
                else set_root h1 child)
      in if color = RB_BLACK then rb_erase_color h2 child parent else Some (Inr h2))"

definition erase_two :: "rb_heap \<Rightarrow> addr \<Rightarrow> addr \<Rightarrow> rb_heap run option" where
  "erase_two h old node =
     (let h1 = (if rb_parent h old \<noteq> 0 then
                  (if rb_left h (rb_parent h old) = old then set_left h (rb_parent h old) node
                   else set_right h (rb_parent h old) node)
                else set_root h node);
          child = rb_right h1 node;
          parent = rb_parent h1 node;
          color = rb_color h1 node
      in case (if parent = old then Inr (h1, node)
               else deref parent
                 (let h2 = (if child \<noteq> 0 then rb_set_parent h1 child parent else h1);
                      h3 = set_left h2 parent child;
                      h4 = set_right h3 node (rb_right h3 old);
                      h5 = rb_set_parent h4 (rb_right h4 old) node
                  in Inr (h5, parent))) of
           Inl e \<Rightarrow> Some (Inl e)
         | Inr (h5, parent) \<Rightarrow>
             let h6 = set_parent_color h5 node (rb_parent_color h5 old);
                 h7 = set_left h6 node (rb_left h6 old);
                 h8 = rb_set_parent h7 (rb_left h7 old) node
             in if color = RB_BLACK then rb_erase_color h8 child parent else Some (Inr h8))"

definition rb_erase :: "rb_heap \<Rightarrow> addr \<Rightarrow> rb_heap run option" where
  "rb_erase h node =
     (if node = 0 then Some (Inl Bad_access)
      else if rb_left h node = 0 then erase_one h node (rb_right h node)
      else if rb_right h node = 0 then erase_one h node (rb_left h node)
      else case leftmost h (rb_right h node) of
             None \<Rightarrow> None
           | Some n \<Rightarrow> erase_two h node n)"

definition rb_replace_node :: "rb_heap \<Rightarrow> addr \<Rightarrow> addr \<Rightarrow> rb_heap run" where
  "rb_replace_node h victim new =
     deref victim
      (let parent = rb_parent h victim;
           h1 = (if parent \<noteq> 0 then
                   (if victim = rb_left h parent then set_left h parent new else set_right h parent new)
                 else set_root h new);
           h2 = (if rb_left h1 victim \<noteq> 0 then rb_set_parent h1 (rb_left h1 victim) new else h1);
           h3 = (if rb_right h2 victim \<noteq> 0 then rb_set_parent h2 (rb_right h2 victim) new else h2)
       in deref new
           (Inr (set_right (set_left (set_parent_color h3 new (rb_parent_color h3 victim)) new (rb_left h3 victim))
              new (rb_right h3 victim))))"

section \<open>Repairing the colours\<close>

lemma whole_black:
  assumes "whole h (plug K t)"
  shows "null_or_black h (ptr t) \<longleftrightarrow> black t"
proof (cases t)
  case (Node l c a r)
  with whole_node [of h K l c a r] assms show ?thesis by (simp add: null_or_black_def)
qed (simp add: null_or_black_def)

text \<open>A state of the loop: the subtree \<open>t\<close> has black height \<open>n\<close>, its place wants one more.\<close>

definition deficit :: "frame list \<Rightarrow> nat \<Rightarrow> rbt \<Rightarrow> bool" where
  "deficit K n t \<longleftrightarrow> hole K (Suc n) \<and>
     (case t of Node l Red a r \<Rightarrow> rb (Node l Black a r) (Suc n) | _ \<Rightarrow> rb t n)"

text \<open>At the \<open>break\<close> the tree is red-black.\<close>

definition erased :: "rbt \<Rightarrow> rb_heap \<Rightarrow> bool" where
  "erased T h' \<longleftrightarrow> (\<exists>T'. whole h' T' \<and> rb_root T' \<and> inorder T' = inorder T)"

definition erase_turn :: "rbt \<Rightarrow> nat \<Rightarrow> rb_heap \<times> (addr \<times> addr) option \<Rightarrow> bool" where
  "erase_turn T k res \<longleftrightarrow>
     (case snd res of
        None \<Rightarrow> erased T (fst res)
      | Some (node, parent) \<Rightarrow> (\<exists>K t n. node = ptr t \<and> parent = up K \<and> whole (fst res) (plug K t)
          \<and> deficit K n t \<and> inorder (plug K t) = inorder T \<and> (length K < k \<or> \<not> black t)))"

lemma erasedI: "whole h' T' \<Longrightarrow> rb_root T' \<Longrightarrow> inorder T' = inorder T \<Longrightarrow> erased T h'"
  by (auto simp: erased_def)

lemma rb_root_plug:
  "hole K n \<Longrightarrow> rb t n \<Longrightarrow> black t \<or> black_top K \<Longrightarrow> rb_root (plug K t)"
  using rb_plug [of K n t] by (cases "K = []") (auto simp: rb_root_def)

text \<open>The second half of a turn, when the sibling is black.\<close>

definition erase_left_black :: "rb_heap \<Rightarrow> addr \<Rightarrow> addr \<Rightarrow> (rb_heap \<times> (addr \<times> addr) option) run" where
  "erase_left_black h parent other =
       deref other
        (if null_or_black h (rb_left h other) \<and> null_or_black h (rb_right h other) then
           (let h1 = rb_set_red h other in Inr (h1, Some (parent, rb_parent h1 parent)))
         else
           bind_run
            (if null_or_black h (rb_right h other) then
               deref (rb_left h other)
                (let h1 = rb_set_black h (rb_left h other); h2 = rb_set_red h1 other
                 in bind_run (rb_rotate_right h2 other) (\<lambda>h3. Inr (h3, rb_right h3 parent)))
             else Inr (h, other)) (\<lambda>(h, other).
           deref other
            (let h1 = rb_set_color h other (rb_color h parent); h2 = rb_set_black h1 parent
             in deref (rb_right h2 other)
                 (let h3 = rb_set_black h2 (rb_right h2 other)
                  in bind_run (rb_rotate_left h3 parent) (\<lambda>h4. Inr (h4, None))))))"

lemma erase_left_split:
  "erase_left h parent =
     deref (rb_right h parent)
      (bind_run
        (if rb_is_red h (rb_right h parent) then
           (let h1 = rb_set_black h (rb_right h parent); h2 = rb_set_red h1 parent
            in bind_run (rb_rotate_left h2 parent) (\<lambda>h3. Inr (h3, rb_right h3 parent)))
         else Inr (h, rb_right h parent)) (\<lambda>(h, other). erase_left_black h parent other))"
  unfolding erase_left_def erase_left_black_def by (rule refl)

text \<open>The last rotation.\<close>

lemma erase_rotate:
  assumes w: "whole h (plug (InL c p (Node sl Black sa (Node rl Red ra rr)) # K) t)"
  obtains h4 where "rb_rotate_left (rb_set_black (rb_set_black (rb_set_color h sa (rb_color h p)) p) ra) p = Inr h4"
    and "whole h4 (plug K (Node (Node t Black p sl) c sa (Node rl Black ra rr)))"
    and "rb_right (rb_set_black (rb_set_color h sa (rb_color h p)) p) sa = ra" and "ra \<noteq> 0" and "sa \<noteq> 0"
proof -
  have wp: "whole h (plug K (Node t c p (Node sl Black sa (Node rl Red ra rr))))" using w by simp
  note col = whole_node(6) [OF wp]
  have ws: "whole h (plug (InR t c p # K) (Node sl Black sa (Node rl Red ra rr)))" using w by simp
  note w1 = whole_paint(3) [where d = c, OF ws]
  let ?h1 = "rb_set_color h sa (rb_color h p)"
  have "whole ?h1 (plug K (Node t c p (Node sl c sa (Node rl Red ra rr))))" using w1 col by simp
  note w2 = whole_paint(2) [OF this]
  let ?h2 = "rb_set_black ?h1 p"
  have w2': "whole ?h2 (plug (InR t Black p # K) (Node sl c sa (Node rl Red ra rr)))" using w2 by simp
  have w2'': "whole ?h2 (plug (InR sl c sa # InR t Black p # K) (Node rl Red ra rr))" using w2 by simp
  note w3 = whole_paint(2) [OF w2'']
  let ?h3 = "rb_set_black ?h2 ra"
  have "whole ?h3 (plug K (Node t Black p (Node sl c sa (Node rl Black ra rr))))" using w3 by simp
  from rotate_left_whole [OF this] obtain h4 where "rb_rotate_left ?h3 p = Inr h4"
    "whole h4 (plug K (Node (Node t Black p sl) c sa (Node rl Black ra rr)))" by blast
  then show ?thesis
    by (rule that) (use whole_node(1,4) [OF w2'] whole_node(1) [OF w2''] in simp_all)
qed

lemma rotated_root:
  assumes "hole (InL c p s # K) (Suc n)" and "rb (Node t Black p l) (Suc n)" and "rb r (Suc n)" and "black r"
  shows "rb_root (plug K (Node (Node t Black p l) c x r))"
proof (cases c)
  case Red
  with assms show ?thesis by (intro rb_root_plug [of K "Suc n"]) auto
next
  case Black
  with assms show ?thesis by (intro rb_root_plug [of K "Suc (Suc n)"]) auto
qed

lemma erase_left_black_turn:
  assumes w: "whole h (plug (InL c p (Node sl Black sa sr) # K) t)"
    and t: "rb t n" "black t" and hole: "hole (InL c p (Node sl Black sa sr) # K) (Suc n)"
  shows "\<exists>res. erase_left_black h p sa = Inr res
    \<and> erase_turn (plug (InL c p (Node sl Black sa sr) # K) t) (if c = Red then 0 else Suc (length K)) res"
proof -
  let ?T = "plug (InL c p (Node sl Black sa sr) # K) t"
  have s: "rb sl n" "rb sr n" using hole by (cases c; simp)+
  have ws: "whole h (plug (InR t c p # K) (Node sl Black sa sr))" using w by simp
  note sib = whole_node [OF ws]
  have wl: "whole h (plug (InL Black sa sr # InR t c p # K) sl)" and wr: "whole h (plug (InR sl Black sa # InR t c p # K) sr)"
    using w by simp_all
  note bl = whole_black [OF wl] and br = whole_black [OF wr]
  consider (both) "black sl" "black sr" | (right) rl ra rr where "sr = Node rl Red ra rr"
    | (left) ll la lr where "black sr" "sl = Node ll Red la lr"
    by (cases sl; cases sr) (auto, (metis color.exhaust)+)
  then show ?thesis
  proof cases
    case both
    have run: "erase_left_black h p sa = Inr (rb_set_red h sa, Some (p, rb_parent (rb_set_red h sa) p))"
      using sib(1,3,4) bl br both by (simp add: erase_left_black_def deref_def Let_def)
    have w1: "whole (rb_set_red h sa) (plug K (Node t c p (Node sl Red sa sr)))" using whole_paint(1) [OF ws] by simp
    have "\<exists>m. deficit K m (Node t c p (Node sl Red sa sr)) 
        \<and> (length K < (if c = Red then 0 else Suc (length K)) \<or> \<not> black (Node t c p (Node sl Red sa sr)))"
    proof (cases c)
      case Red
      with t s hole both show ?thesis by (intro exI [of _ n]) (auto simp: deficit_def)
    next
      case Black
      with t s hole both show ?thesis by (intro exI [of _ "Suc n"]) (auto simp: deficit_def)
    qed
    then have "erase_turn ?T (if c = Red then 0 else Suc (length K)) (rb_set_red h sa, Some (p, rb_parent (rb_set_red h sa) p))"
      unfolding erase_turn_def using w1 whole_node(5) [OF w1]
      by (auto intro!: exI [of _ K] exI [of _ "Node t c p (Node sl Red sa sr)"])
    with run show ?thesis by blast
  next
    case right
    obtain h4 where h4: "rb_rotate_left (rb_set_black (rb_set_black (rb_set_color h sa (rb_color h p)) p) ra) p = Inr h4"
      "whole h4 (plug K (Node (Node t Black p sl) c sa (Node rl Black ra rr)))"
      "rb_right (rb_set_black (rb_set_color h sa (rb_color h p)) p) sa = ra" "ra \<noteq> 0" "sa \<noteq> 0"
      by (rule erase_rotate [OF w [unfolded right]])
    have run: "erase_left_black h p sa = Inr (h4, None)"
      using sib(1,4) br right h4 by (simp add: erase_left_black_def deref_def Let_def)
    have "rb_root (plug K (Node (Node t Black p sl) c sa (Node rl Black ra rr)))"
      by (rule rotated_root [OF hole]) (use t s right in auto)
    then have "erased ?T h4" by (rule erasedI [OF h4(2)]) (use right in simp)
    with run show ?thesis by (auto simp: erase_turn_def)
  next
    case left
    let ?h1 = "rb_set_black h la"
    have "whole h (plug (InL Black sa sr # InR t c p # K) (Node ll Red la lr))" using wl left by simp
    note w1 = whole_paint(2) [OF this] and la = whole_node(1) [OF this]
    have "whole ?h1 (plug (InR t c p # K) (Node (Node ll Black la lr) Black sa sr))" using w1 by simp
    note w2 = whole_paint(1) [OF this]
    from rotate_right_whole [OF w2] obtain h3 where h3: "rb_rotate_right (rb_set_red ?h1 sa) sa = Inr h3"
      "whole h3 (plug (InR t c p # K) (Node ll Black la (Node lr Red sa sr)))" by blast
    have wp: "whole h3 (plug K (Node t c p (Node ll Black la (Node lr Red sa sr))))"
      and w3: "whole h3 (plug (InL c p (Node ll Black la (Node lr Red sa sr)) # K) t)" using h3(2) by simp_all
    obtain h4 where h4: "rb_rotate_left (rb_set_black (rb_set_black (rb_set_color h3 la (rb_color h3 p)) p) sa) p = Inr h4"
      "whole h4 (plug K (Node (Node t Black p ll) c la (Node lr Black sa sr)))"
      "rb_right (rb_set_black (rb_set_color h3 la (rb_color h3 p)) p) la = sa" "sa \<noteq> 0" "la \<noteq> 0"
      by (rule erase_rotate [OF w3])
    have run: "erase_left_black h p sa = Inr (h4, None)"
      using sib(1,3,4) bl br left h4 h3(1) la whole_node(4) [OF wp]
      by (simp add: erase_left_black_def deref_def Let_def)
    have "rb_root (plug K (Node (Node t Black p ll) c la (Node lr Black sa sr)))"
      by (rule rotated_root [OF hole]) (use t s left in auto)
    then have "erased ?T h4" by (rule erasedI [OF h4(2)]) (use left in simp)
    with run show ?thesis by (auto simp: erase_turn_def)
  qed
qed

lemma erase_turn_cong:
  "erase_turn T k res \<Longrightarrow> inorder T = inorder T' \<Longrightarrow> k \<le> k' \<Longrightarrow> erase_turn T' k' res"
  by (cases "snd res") (auto simp: erase_turn_def erased_def, (metis less_le_trans)+)

text \<open>A whole turn: a red sibling is first rotated away, and then the turn is the last but one.\<close>

lemma erase_left_turn:
  assumes w: "whole h (plug (InL c p s # K) t)"
    and t: "rb t n" "black t" and hole: "hole (InL c p s # K) (Suc n)"
  shows "\<exists>res. erase_left h p = Inr res \<and> erase_turn (plug (InL c p s # K) t) (Suc (length K)) res"
proof -
  have rbs: "rb s (Suc n)" using hole by (cases c) simp_all
  obtain sl d sa sr where s: "s = Node sl d sa sr" using rbs by (cases s) auto
  have wp: "whole h (plug K (Node t c p (Node sl d sa sr)))" and ws: "whole h (plug (InR t c p # K) (Node sl d sa sr))"
    using w s by simp_all
  note node_p = whole_node [OF wp] and node_s = whole_node [OF ws]
  show ?thesis
  proof (cases d)
    case Black
    then have "erase_left h p = erase_left_black h p sa"
      using node_p(4) node_s by (simp add: erase_left_split deref_def)
    moreover obtain res where "erase_left_black h p sa = Inr res"
      "erase_turn (plug (InL c p s # K) t) (if c = Red then 0 else Suc (length K)) res"
      using erase_left_black_turn [OF w [unfolded s Black] t hole [unfolded s Black]] s Black by auto
    ultimately show ?thesis using erase_turn_cong [of _ _ res _ "Suc (length K)"] by auto
  next
    case Red
    have c: "c = Black" using hole s Red by (cases c) auto
    have sl: "black sl" "rb sl (Suc n)" "black sr" "rb sr (Suc n)" using rbs s Red by auto
    have "whole h (plug (InR t c p # K) (Node sl Red sa sr))" using ws Red by simp
    note w1 = whole_paint(2) [OF this]
    have "whole (rb_set_black h sa) (plug K (Node t c p (Node sl Black sa sr)))" using w1 by simp
    note w2 = whole_paint(1) [OF this]
    from rotate_left_whole [OF w2] obtain h3 where
      h3: "rb_rotate_left (rb_set_red (rb_set_black h sa) p) p = Inr h3"
        "whole h3 (plug K (Node (Node t Red p sl) Black sa sr))" by blast
    obtain ll la lr where sl': "sl = Node ll Black la lr" using sl by (cases sl) auto
    let ?K = "InL Black sa sr # K"
    have w3: "whole h3 (plug (InL Red p (Node ll Black la lr) # ?K) t)"
      and w3p: "whole h3 (plug ?K (Node t Red p (Node ll Black la lr)))" using h3(2) sl' by simp_all
    have hole': "hole (InL Red p (Node ll Black la lr) # ?K) (Suc n)" using hole c sl sl' by simp
    have run: "erase_left h p = erase_left_black h3 p la"
      using node_p(4) node_s h3(1) Red whole_node(4) [OF w3p] by (simp add: erase_left_split deref_def)
    from erase_left_black_turn [OF w3 t hole'] obtain res where
      res: "erase_left_black h3 p la = Inr res" "erase_turn (plug (InL Red p (Node ll Black la lr) # ?K) t) 0 res"
      by auto
    have "erase_turn (plug (InL c p s # K) t) (Suc (length K)) res"
      by (rule erase_turn_cong [OF res(2)]) (use s sl' in simp_all)
    with run res(1) show ?thesis by simp
  qed
qed

fun swap_erase :: "(rb_heap \<times> (addr \<times> addr) option) run \<Rightarrow> (rb_heap \<times> (addr \<times> addr) option) run" where
  "swap_erase (Inl e) = Inl e"
| "swap_erase (Inr (h, r)) = Inr (swap h, r)"

lemma swap_erase_bind [simp]: "swap_erase (bind_run r f) = bind_run r (\<lambda>x. swap_erase (f x))"
  by (cases r) simp_all

lemma deref_swap [simp]: "swap_erase (deref p r) = deref p (swap_erase r)"
  by (simp add: deref_def)

lemma null_or_black_swap [simp]: "null_or_black (swap h) = null_or_black h"
  by (simp add: null_or_black_def fun_eq_iff)

definition last_rotation :: "rb_heap \<Rightarrow> addr \<Rightarrow> addr \<Rightarrow> (rb_heap \<times> (addr \<times> addr) option) run" where
  "last_rotation h parent other =
     deref other
      (let h1 = rb_set_color h other (rb_color h parent); h2 = rb_set_black h1 parent
       in deref (rb_right h2 other)
           (let h3 = rb_set_black h2 (rb_right h2 other)
            in bind_run (rb_rotate_left h3 parent) (\<lambda>h4. Inr (h4, None))))"

definition last_rotation' :: "rb_heap \<Rightarrow> addr \<Rightarrow> addr \<Rightarrow> (rb_heap \<times> (addr \<times> addr) option) run" where
  "last_rotation' h parent other =
     deref other
      (let h1 = rb_set_color h other (rb_color h parent); h2 = rb_set_black h1 parent
       in deref (rb_left h2 other)
           (let h3 = rb_set_black h2 (rb_left h2 other)
            in bind_run (rb_rotate_right h3 parent) (\<lambda>h4. Inr (h4, None))))"

lemma last_rotation_swap: "last_rotation' h p a = swap_erase (last_rotation (swap h) p a)"
  by (simp add: last_rotation_def last_rotation'_def Let_def rotate_right_swap)

definition erase_right_black :: "rb_heap \<Rightarrow> addr \<Rightarrow> addr \<Rightarrow> (rb_heap \<times> (addr \<times> addr) option) run" where
  "erase_right_black h parent other =
       deref other
        (if null_or_black h (rb_left h other) \<and> null_or_black h (rb_right h other) then
           (let h1 = rb_set_red h other in Inr (h1, Some (parent, rb_parent h1 parent)))
         else
           bind_run
            (if null_or_black h (rb_left h other) then
               deref (rb_right h other)
                (let h1 = rb_set_black h (rb_right h other); h2 = rb_set_red h1 other
                 in bind_run (rb_rotate_left h2 other) (\<lambda>h3. Inr (h3, rb_left h3 parent)))
             else Inr (h, other)) (\<lambda>(h, other). last_rotation' h parent other))"

lemma erase_right_black_swap: "erase_right_black h p a = swap_erase (erase_left_black (swap h) p a)"
proof -
  have left: "erase_left_black h parent other =
       deref other
        (if null_or_black h (rb_left h other) \<and> null_or_black h (rb_right h other) then
           (let h1 = rb_set_red h other in Inr (h1, Some (parent, rb_parent h1 parent)))
         else
           bind_run
            (if null_or_black h (rb_right h other) then
               deref (rb_left h other)
                (let h1 = rb_set_black h (rb_left h other); h2 = rb_set_red h1 other
                 in bind_run (rb_rotate_right h2 other) (\<lambda>h3. Inr (h3, rb_right h3 parent)))
             else Inr (h, other)) (\<lambda>(h, other). last_rotation h parent other))" for h parent other
    unfolding erase_left_black_def last_rotation_def by (rule refl)
  let ?h2 = "rb_set_red (rb_set_black h (rb_right h a)) a"
  have rot: "rb_rotate_right (swap ?h2) a = swap_run (rb_rotate_left ?h2 a)" by (simp add: rotate_right_swap)
  show ?thesis
    by (cases "rb_rotate_left ?h2 a")
      (auto simp: left erase_right_black_def Let_def rot last_rotation_swap deref_def)
qed

lemma erase_right_split:
  "erase_right h parent =
     deref (rb_left h parent)
      (bind_run
        (if rb_is_red h (rb_left h parent) then
           (let h1 = rb_set_black h (rb_left h parent); h2 = rb_set_red h1 parent
            in bind_run (rb_rotate_right h2 parent) (\<lambda>h3. Inr (h3, rb_left h3 parent)))
         else Inr (h, rb_left h parent)) (\<lambda>(h, other). erase_right_black h parent other))"
  unfolding erase_right_def erase_right_black_def last_rotation'_def by (rule refl)

lemma erase_right_swap: "erase_right h p = swap_erase (erase_left (swap h) p)"
proof -
  let ?h2 = "rb_set_red (rb_set_black h (rb_left h p)) p"
  have rot: "rb_rotate_right ?h2 p = swap_run (rb_rotate_left (swap ?h2) p)" by (rule rotate_right_swap)
  show ?thesis
    by (cases "rb_rotate_left (swap ?h2) p")
      (auto simp: erase_left_split erase_right_split Let_def rot erase_right_black_swap deref_def)
qed

lemma erase_turn_swap:
  assumes "erase_turn (mirror T) k (h, r)"
  shows "erase_turn T k (swap h, r)"
proof (cases r)
  case None
  then obtain T' where T': "whole h T'" "rb_root T'" "inorder T' = inorder (mirror T)"
    using assms by (auto simp: erase_turn_def erased_def)
  have "whole (swap h) (mirror T')" using T'(1) by (simp only: whole_swap)
  moreover have "rb_root (mirror T')" using T'(2) by (simp add: rb_root_def)
  moreover have "inorder (mirror T') = inorder T" using T'(3) by simp
  ultimately show ?thesis using None by (auto simp: erase_turn_def erased_def)
next
  case (Some np)
  then obtain K t n where s: "fst np = ptr t" "snd np = up K" "whole h (plug K t)" "deficit K n t"
    "inorder (plug K t) = inorder (mirror T)" "length K < k \<or> \<not> black t"
    using assms by (auto simp: erase_turn_def split: prod.splits)
  have "whole (swap h) (mirror (plug K t))" using s(3) by (simp only: whole_swap)
  then have "whole (swap h) (plug (map flip K) (mirror t))" by (simp add: mirror_plug)
  moreover have "deficit (map flip K) n (mirror t)"
    using s(4) by (cases t) (auto simp: deficit_def split: color.splits)
  moreover have "inorder (plug (map flip K) (mirror t)) = inorder T"
    using s(5) by (simp del: inorder_plug flip: mirror_plug)
  ultimately show ?thesis
    using s(1,2,6) Some
    by (auto simp: erase_turn_def simp del: inorder_plug split: prod.splits intro!: exI [of _ "map flip K"] exI [of _ "mirror t"])
qed

lemma erase_right_turn:
  assumes w: "whole h (plug (InR s c p # K) t)"
    and t: "rb t n" "black t" and hole: "hole (InR s c p # K) (Suc n)"
  shows "\<exists>res. erase_right h p = Inr res \<and> erase_turn (plug (InR s c p # K) t) (Suc (length K)) res"
proof -
  have "whole (swap h) (mirror (plug (InR s c p # K) t))" using w by (simp only: whole_swap)
  then have "whole (swap h) (plug (InL c p (mirror s) # map flip K) (mirror t))" by (simp add: mirror_plug)
  moreover have "hole (InL c p (mirror s) # map flip K) (Suc n)"
    using hole hole_flip [of "InR s c p # K" "Suc n"] by simp
  ultimately obtain h1 r where res: "erase_left (swap h) p = Inr (h1, r)"
    "erase_turn (plug (InL c p (mirror s) # map flip K) (mirror t)) (Suc (length K)) (h1, r)"
    using erase_left_turn [of "swap h" c p "mirror s" "map flip K" "mirror t" n] t by auto
  have "plug (InL c p (mirror s) # map flip K) (mirror t) = mirror (plug (InR s c p # K) t)"
    by (simp add: mirror_plug)
  with res have "erase_turn (plug (InR s c p # K) t) (Suc (length K)) (swap h1, r)"
    by (intro erase_turn_swap) simp
  with res(1) show ?thesis by (simp add: erase_right_swap)
qed

section \<open>The loop\<close>

lemma paint_root:
  assumes "whole h T" and "rb_root T"
  shows "whole (if rb_node h \<noteq> 0 then rb_set_black h (rb_node h) else h) T"
proof (cases T)
  case (Node l c a r)
  then have "whole h (plug [] (Node l Black a r))" "c = Black" "rb_node h = a"
    using assms by (auto simp: whole_def rb_root_def)
  with whole_paint(2) [OF this(1)] whole_node(1) [OF this(1)] Node show ?thesis by simp
qed (use assms in \<open>simp add: whole_def\<close>)

lemma erase_color_red:
  assumes w: "whole h (plug K (Node l Red a r))" and d: "deficit K n (Node l Red a r)"
  shows "\<exists>h'. rb_erase_color h a p = Some (Inr h') \<and> erased (plug K (Node l Red a r)) h'"
proof -
  note node = whole_node [OF w]
  have "erase_loop h a p = Some (Inr (h, a))"
    using node by (subst erase_loop.simps) (simp add: null_or_black_def)
  then have "rb_erase_color h a p = Some (Inr (rb_set_black h a))"
    using node by (simp add: rb_erase_color_def)
  moreover have "rb_root (plug K (Node l Black a r))"
    by (rule rb_root_plug [of K "Suc n"]) (use d in \<open>auto simp: deficit_def\<close>)
  ultimately show ?thesis using whole_paint(2) [OF w] by (auto simp: erased_def)
qed

lemma ptr_plug: "K \<noteq> [] \<Longrightarrow> ptr (plug K t) \<in> on_path K"
proof (induction K t rule: plug.induct)
  case (2 c a r K t)
  then show ?case by (cases "K = []") auto
next
  case (3 l c a K t)
  then show ?case by (cases "K = []") auto
qed simp

lemma not_root:
  assumes w: "whole h (plug (f # K) t)"
  shows "ptr t \<noteq> rb_node h"
proof -
  have "rb_node h \<in> on_path (f # K)" using w ptr_plug [of "f # K" t] by (simp add: whole_def)
  moreover have "ptr t \<notin> on_path (f # K)"
    using ptr_in [of t] path_nonzero [of h "f # K" "ptr t"] w unfolding whole_plug by auto
  ultimately show ?thesis by auto
qed

lemma erase_color_ok:
  assumes "whole h (plug K t)" and "deficit K n t"
  shows "\<exists>h'. rb_erase_color h (ptr t) (up K) = Some (Inr h') \<and> erased (plug K t) h'"
  using assms
proof (induction "length K" arbitrary: h K t n rule: less_induct)
  case less
  note w = less.prems(1)
  show ?case
  proof (cases "black t")
    case False
    then obtain l a r where "t = Node l Red a r" by (cases t) (auto intro: color.exhaust)
    with erase_color_red less.prems show ?thesis by auto
  next
    case True
    then have t: "rb t n" "hole K (Suc n)"
      using less.prems(2) by (cases t; auto simp: deficit_def)+
    have nb: "null_or_black h (ptr t)" using whole_black [OF w] True by simp
    show ?thesis
    proof (cases K)
      case Nil
      have "erase_loop h (ptr t) (up K) = Some (Inr (h, ptr t))"
        using w Nil by (subst erase_loop.simps) (simp add: whole_def)
      moreover have "rb_root t" using t True by (auto simp: rb_root_def)
      ultimately show ?thesis
        using paint_root [of h t] w Nil by (auto simp: rb_erase_color_def whole_def erased_def)
    next
      case (Cons f K')
      have ne: "ptr t \<noteq> rb_node h" using not_root w Cons by blast
      have "up K \<noteq> 0 \<and> (\<exists>res. (if rb_left h (up K) = ptr t then erase_left h (up K) else erase_right h (up K)) = Inr res
          \<and> erase_turn (plug K t) (length K) res)"
      proof (cases f)
        case (InL c a r)
        have "whole h (plug K' (Node t c a r))" using w Cons InL by simp
        note node = whole_node [OF this]
        show ?thesis
          using erase_left_turn [of h c a r K' t n] node w t True Cons InL by simp
      next
        case (InR l c a)
        have wa: "whole h (plug K' (Node l c a t))" using w Cons InR by simp
        note node = whole_node [OF this]
        have "rb l (Suc n)" using t(2) Cons InR by (cases c) simp_all
        then have "l \<noteq> Leaf" by auto
        then have "ptr l \<in> set (inorder l)" by (cases l) simp_all
        moreover have "set (inorder l) \<inter> set (inorder t) = {}" "0 \<notin> set (inorder l)"
          using wa tree_nonzero [of h a l] by (auto simp: whole_plug)
        ultimately have "ptr l \<noteq> ptr t" using ptr_in [of t] by auto
        then show ?thesis
          using erase_right_turn [of h l c a K' t n] node w t True Cons InR by simp
      qed
      then have up: "up K \<noteq> 0"
        and "\<exists>res. (if rb_left h (up K) = ptr t then erase_left h (up K) else erase_right h (up K)) = Inr res
          \<and> erase_turn (plug K t) (length K) res" by blast+
      then obtain h1 r where res: "(if rb_left h (up K) = ptr t then erase_left h (up K) else erase_right h (up K)) = Inr (h1, r)"
        "erase_turn (plug K t) (length K) (h1, r)" by auto
      show ?thesis
      proof (cases r)
        case None
        have "erase_loop h (ptr t) (up K) = Some (Inr (h1, rb_node h1))"
          using nb ne up res(1) None by (subst erase_loop.simps) simp
        moreover obtain T' where T': "whole h1 T'" "rb_root T'" "inorder T' = inorder (plug K t)"
          using res(2) None by (auto simp: erase_turn_def erased_def)
        ultimately show ?thesis
          using paint_root [OF T'(1,2)] T'(2,3) by (auto simp: rb_erase_color_def erased_def)
      next
        case (Some np)
        then obtain K1 t1 m where s: "fst np = ptr t1" "snd np = up K1" "whole h1 (plug K1 t1)" "deficit K1 m t1"
          "inorder (plug K1 t1) = inorder (plug K t)" "length K1 < length K \<or> \<not> black t1"
          using res(2) by (auto simp: erase_turn_def simp del: inorder_plug split: prod.splits)
        have "rb_erase_color h (ptr t) (up K) = rb_erase_color h1 (ptr t1) (up K1)"
          unfolding rb_erase_color_def
          using nb ne up res(1) Some s(1,2) by (subst erase_loop.simps) simp
        moreover have "\<exists>h'. rb_erase_color h1 (ptr t1) (up K1) = Some (Inr h') \<and> erased (plug K1 t1) h'"
        proof (cases "black t1")
          case False
          then obtain l a r where "t1 = Node l Red a r" by (cases t1) (auto intro: color.exhaust)
          with erase_color_red s(3,4) show ?thesis by auto
        next
          case True
          with s show ?thesis using less.hyps by blast
        qed
        ultimately show ?thesis using s(5) by (simp add: erased_def)
      qed
    qed
  qed
qed

section \<open>Taking a node out\<close>

lemma deficitI: "rb t m \<Longrightarrow> hole K (Suc m) \<Longrightarrow> deficit K m t"
  by (cases t rule: black.cases) (auto simp: deficit_def split: color.splits)

lemma up_not_in:
  assumes "whole h (plug K t)"
  shows "up K \<notin> set (inorder t)"
proof (cases "K = []")
  case True
  with assms show ?thesis using tree_nonzero [of h 0 t] by (simp add: whole_def)
next
  case False
  with assms up_on_path [of K] show ?thesis by (auto simp: whole_plug)
qed

text \<open>The pointer above a node is turned to one of its subtrees.\<close>

lemma splice_whole:
  assumes w: "whole h (plug K (Node l c a r))" and t: "t = l \<or> t = r"
  shows "whole (redirect (adopt h (ptr t) (up K)) (up K) a (ptr t)) (plug K t)"
proof -
  let ?h1 = "adopt h (ptr t) (up K)" and ?h2 = "redirect (adopt h (ptr t) (up K)) (up K) a (ptr t)"
  have p: "path h K a" "a \<noteq> 0" "4 dvd a" "distinct (before K @ behind K)" "a \<notin> on_path K" "tree h a t"
    "set (inorder t) \<inter> on_path K = {}" "distinct (inorder t)"
    using w t by (auto simp: whole_plug)
  have "ptr t \<notin> on_path K" using ptr_in [of t] p(7) path_nonzero [OF p(1)] by auto
  then have "same_at h ?h1 (on_path K)" unfolding same_at_def by (metis adopt_fields(1,2,4))
  from path_frame [OF p(1) this] have "path ?h1 K a" by simp
  then have "path ?h2 K (ptr t)" by (rule redirect_path) (use p in simp_all)
  moreover have "tree ?h1 (up K) t" using p by (intro tree_adopt [where par = a]) (simp_all add: path_up)
  then have "tree ?h2 (up K) t"
  proof (rule tree_frame)
    have "up K \<notin> set (inorder t)" using up_not_in [OF w] t by auto
    then show "same_at ?h1 ?h2 (set (inorder t))"
      unfolding same_at_def by (metis redirect_fields)
  qed
  ultimately show ?thesis using p by (simp add: whole_plug)
qed

text \<open>What is left to do after a black node is gone.\<close>

lemma unlinked:
  assumes "whole h (plug K t)" and "hole K n" and "rb (Node l c a r) n"
    and "l = Leaf \<and> t = r \<or> r = Leaf \<and> t = l" and "c = Red \<Longrightarrow> black_top K"
  shows "\<exists>h'. (if col c = RB_BLACK then rb_erase_color h (ptr t) (up K) else Some (Inr h)) = Some (Inr h')
    \<and> erased (plug K t) h'"
proof (cases c)
  case Red
  have "rb_root (plug K t)" using assms Red by (intro rb_root_plug [of K n]) auto
  with assms(1) Red show ?thesis by (auto simp: RB_RED_def RB_BLACK_def erased_def)
next
  case Black
  then obtain m where "n = Suc m" "rb t m" using assms(3,4) by auto
  with assms(1,2) have "deficit K m t" by (intro deficitI) simp_all
  with erase_color_ok assms(1) Black show ?thesis by (simp add: erased_def)
qed

lemma erase_one_ok:
  assumes w: "whole h (plug K (Node l c a r))" and rb: "rb_root (plug K (Node l c a r))"
    and t: "l = Leaf \<and> t = r \<or> r = Leaf \<and> t = l"
  shows "\<exists>h'. erase_one h a (ptr t) = Some (Inr h') \<and> erased (plug K t) h'"
proof -
  let ?h = "redirect (adopt h (ptr t) (up K)) (up K) a (ptr t)"
  obtain n where n: "hole K n" "rb (Node l c a r) n" "black (Node l c a r) \<or> black_top K"
    using rb hole_of_plug [of K "Node l c a r"] unfolding rb_root_def by blast
  have "whole ?h (plug K t)" using splice_whole [OF w] t by blast
  from unlinked [OF this n(1,2) t] n(3) have "\<exists>h'. (if col c = RB_BLACK then rb_erase_color ?h (ptr t) (up K) else Some (Inr ?h)) = Some (Inr h')
    \<and> erased (plug K t) h'" by auto
  moreover have "erase_one h a (ptr t) = (if col c = RB_BLACK then rb_erase_color ?h (ptr t) (up K) else Some (Inr ?h))"
    using whole_node(5,6) [OF w] by (simp add: erase_one_def Let_def adopt_def redirect_def eq_commute [of a])
  ultimately show ?thesis by simp
qed

section \<open>Putting one node in the place of another\<close>

text \<open>The node \<open>v\<close> gets new neighbours: the pointers to \<open>v\<close> turn to \<open>new\<close>, and \<open>new\<close> has the words
  of \<open>v\<close>.\<close>

lemma replaced:
  assumes w: "whole h (plug K (Node l c v r))" and new: "new \<noteq> 0" "4 dvd new" "new \<notin> set (inorder (plug K (Node l c v r)))"
    and h': "h' = adopt (adopt (redirect h (up K) v new) (ptr l) new) (ptr r) new"
    and words: "rb_parent_color h'' new = up K + col c" "rb_left h'' new = ptr l" "rb_right h'' new = ptr r"
    and rest: "same_at h' h'' (set (inorder l) \<union> set (inorder r) \<union> on_path K)" "rb_node h'' = rb_node h'"
  shows "whole h'' (plug K (Node l c new r))"
proof -
  let ?h1 = "redirect h (up K) v new" and ?h2 = "adopt (redirect h (up K) v new) (ptr l) new"
  have p: "path h K v" "v \<noteq> 0" "4 dvd v" "distinct (before K @ behind K)" "v \<notin> on_path K" "tree h v l" "tree h v r"
    "set (inorder l @ inorder r) \<inter> on_path K = {}" "distinct (inorder l @ inorder r)"
    using w by (auto simp: whole_plug)
  have up: "up K \<notin> set (inorder l)" "up K \<notin> set (inorder r)" using up_not_in [OF w] by auto
  have l: "ptr l \<notin> set (inorder r)" "ptr l \<notin> on_path K"
    using ptr_in [of l] p(8,9) tree_nonzero [OF p(7)] path_nonzero [OF p(1)] by auto
  have r: "ptr r \<notin> set (inorder l)" "ptr r \<notin> on_path K"
    using ptr_in [of r] p(8,9) tree_nonzero [OF p(6)] path_nonzero [OF p(1)] by auto
  have same1: "same_at h ?h1 A" if "up K \<notin> A" for A
    unfolding same_at_def using that by (metis redirect_fields)
  have same2: "same_at g (adopt g q new) A" if "q \<notin> A" for A g q
    unfolding same_at_def using that by (metis adopt_fields(1,2,4))
  have l1: "tree ?h1 v l" and r1: "tree ?h1 v r"
    using tree_frame [OF p(6) same1] tree_frame [OF p(7) same1] up by auto
  have "tree ?h2 new l" using l1 p(3,9) new(2) by (intro tree_adopt) auto
  then have l2: "tree h' new l" using tree_frame same2 r(1) h' by blast
  have "tree ?h2 v r" using tree_frame [OF r1 same2] l(1) by blast
  then have r2: "tree h' new r" unfolding h' using p(3,9) new(2) by (intro tree_adopt [where par = v]) auto
  have "path ?h1 K new" using p by (intro redirect_path) auto
  from path_frame [OF path_frame [OF this same2 [OF l(2)]] same2 [OF r(2)]] have "path h' K new" by (simp add: h')
  with l2 r2 rest have "tree h'' new l" "tree h'' new r" "path h'' K new"
    by (auto intro: tree_frame path_frame)
  moreover have "new \<notin> set (inorder l)" "new \<notin> set (inorder r)" "new \<notin> on_path K"
    using new(3) by (auto simp: on_path_def)
  ultimately show ?thesis using p words new(1,2) by (simp add: whole_plug)
qed

lemma replace_node_whole:
  assumes w: "whole h (plug K (Node l c v r))" and new: "new \<noteq> 0" "4 dvd new" "new \<notin> set (inorder (plug K (Node l c v r)))"
  obtains h' where "rb_replace_node h v new = Inr h'" and "whole h' (plug K (Node l c new r))"
proof -
  note node = whole_node [OF w]
  let ?h1 = "redirect h (up K) v new"
  let ?h3 = "adopt (adopt ?h1 (ptr l) new) (ptr r) new"
  let ?h4 = "set_right (set_left (set_parent_color ?h3 new (rb_parent_color ?h3 v)) new (rb_left ?h3 v)) new (rb_right ?h3 v)"
  have up: "up K \<noteq> v" "v \<noteq> up K" using up_not_in [OF w] by auto
  have "distinct (inorder l @ v # inorder r)" using w by (auto simp: whole_plug)
  then have v: "ptr l \<noteq> v" "ptr r \<noteq> v" using ptr_in [of l] ptr_in [of r] node(1) by auto
  have "rb_replace_node h v new = Inr ?h4"
    by (simp only: rb_replace_node_def deref_def Let_def node(1,5) new(1) if_False flip: redirect_def adopt_def)
      (simp add: node up)
  moreover have "whole ?h4 (plug K (Node l c new r))"
    by (rule replaced [OF w new refl]) (use node up v new(3) in \<open>auto simp: same_at_def on_path_def\<close>)
  ultimately show ?thesis by (rule that)
qed

section \<open>The leftmost node of a subtree\<close>

lemma plug_append [simp]: "plug (K1 @ K2) t = plug K2 (plug K1 t)"
  by (induction K1 t rule: plug.induct) simp_all

lemma before_append: "before (K1 @ K2) = before K2 @ before K1" "behind (K1 @ K2) = behind K1 @ behind K2"
  by (induction K1 rule: before.induct) simp_all

lemma leftmost_step: "leftmost h n = (if rb_left h n \<noteq> 0 then leftmost h (rb_left h n) else Some n)"
  unfolding leftmost_def by (rule while_option_unfold)

lemma leftmost_place:
  "tree h par t \<Longrightarrow> t \<noteq> Leaf \<Longrightarrow>
     \<exists>K c s r. t = plug K (Node Leaf c s r) \<and> before K = [] \<and> leftmost h (ptr t) = Some s"
proof (induction t arbitrary: par)
  case (Node l c a r)
  have t: "tree h a l" "rb_left h a = ptr l" "ptr l = 0 \<longleftrightarrow> l = Leaf" using Node.prems(1) ptr_zero by auto
  show ?case
  proof (cases "l = Leaf")
    case True
    then have "leftmost h a = Some a" using t by (subst leftmost_step) simp
    then show ?thesis using True by (intro exI [of _ "[]"]) auto
  next
    case False
    then obtain K c' s r' where l: "l = plug K (Node Leaf c' s r')" "before K = []" "leftmost h (ptr l) = Some s"
      using Node.IH(1) t by blast
    have "leftmost h a = Some s" using False t l(3) by (subst leftmost_step) simp
    then show ?thesis using l(1,2)
      by (intro exI [of _ "K @ [InL c a r]"] exI [of _ c'] exI [of _ s] exI [of _ r']) (simp add: before_append)
  qed
qed simp

lemma before_Nil: "before K = [] \<Longrightarrow> K = [] \<or> (\<exists>c a r K'. K = InL c a r # K' \<and> before K' = [])"
  by (cases K rule: before.cases) auto

lemma ptr_plug_same: "K \<noteq> [] \<Longrightarrow> ptr (plug K t) = ptr (plug K u)"
proof (induction K t arbitrary: u rule: plug.induct)
  case (2 c a r K t)
  then show ?case by (cases "K = []") (use "2.IH" [of "Node u c a r"] in auto)
next
  case (3 l c a K t)
  then show ?case by (cases "K = []") (use "3.IH" [of "Node l c a u"] in auto)
qed simp

lemma hole_same: "hole (K @ InR l c a # K') n \<longleftrightarrow> hole (K @ InR l c b # K') n"
proof -
  have top: "black_top (K @ InR l c a # K') \<longleftrightarrow> black_top (K @ InR l c b # K')" for K
    by (cases K rule: black_top.cases) simp_all
  show ?thesis
  proof (induction K n rule: hole.induct)
    case (1 n)
    then show ?case by (cases c) simp_all
  qed (simp_all add: top)
qed

lemma black_top_same: "black_top (K @ InR l c a # K') \<longleftrightarrow> black_top (K @ InR l c b # K')"
  by (cases K rule: black_top.cases) simp_all

text \<open>The words after the two kinds of writes.\<close>

lemma redirect_at:
  "rb_left (redirect h q u v) a = (if a = q \<and> q \<noteq> 0 \<and> u = rb_left h q then v else rb_left h a)"
  "rb_right (redirect h q u v) a = (if a = q \<and> q \<noteq> 0 \<and> u \<noteq> rb_left h q then v else rb_right h a)"
  "rb_node (redirect h q u v) = (if q = 0 then v else rb_node h)"
  by (simp_all add: redirect_def)

lemma adopt_at: "rb_parent_color (adopt h q p) a = (if a = q \<and> q \<noteq> 0 then (rb_parent_color h a AND 3) OR p else rb_parent_color h a)"
  by (simp add: adopt_def rb_set_parent_def)

lemma set_parent_at [simp]:
  "rb_left (rb_set_parent h a p) = rb_left h" "rb_right (rb_set_parent h a p) = rb_right h"
  "rb_node (rb_set_parent h a p) = rb_node h"
  "b \<noteq> a \<Longrightarrow> rb_parent_color (rb_set_parent h a p) b = rb_parent_color h b"
  by (simp_all add: rb_set_parent_def)

section \<open>A node with two subtrees\<close>

text \<open>The next node in order, \<open>s\<close>, takes the place of \<open>x\<close>: first if it is the right child of \<open>x\<close>.\<close>

lemma erase_two_near:
  assumes w: "whole h (plug K (Node l c x (Node Leaf cs s sr)))" and l: "l \<noteq> Leaf"
  shows "\<exists>h'. erase_two h x s = (if col cs = RB_BLACK then rb_erase_color h' (ptr sr) s else Some (Inr h'))
    \<and> whole h' (plug K (Node l c s sr))"
proof -
  note x = whole_node [OF w]
  have ws: "whole h (plug (InR l c x # K) (Node Leaf cs s sr))" using w by simp
  note s = whole_node [OF ws]
  have dis: "distinct (inorder l @ x # s # inorder sr)" using w by (auto simp: whole_plug)
  have q: "up K \<noteq> x" "x \<noteq> up K" "up K \<noteq> s" "s \<noteq> up K" using up_not_in [OF w] by auto
  have cl: "ptr l \<in> set (inorder l)" using l by (cases l) simp_all
  have ch: "ptr sr = 0 \<or> ptr sr \<in> set (inorder sr)" by (rule ptr_in)
  define g where "g = redirect (adopt h (ptr sr) x) x s (ptr sr)"
  have wg: "whole g (plug (InR l c x # K) sr)" using splice_whole [OF ws] by (simp add: g_def)
  define h1 where "h1 = redirect h (up K) x s"
  define h8 where "h8 = adopt (set_left (set_parent_color h1 s (rb_parent_color h1 x)) s (ptr l)) (ptr l) s"
  have h1x: "rb_left h1 x = ptr l" "rb_right h1 x = s" "rb_parent_color h1 x = up K + col c"
    "rb_right h1 s = ptr sr" "rb_parent h1 s = x" "rb_color h1 s = col cs"
    using x s q by (simp_all add: h1_def rb_parent_def rb_color_def)
  have run: "erase_two h x s = (if col cs = RB_BLACK then rb_erase_color h8 (ptr sr) s else Some (Inr h8))"
  proof -
    have h1: "(if rb_parent h x \<noteq> 0 then (if rb_left h (rb_parent h x) = x then set_left h (rb_parent h x) s
        else set_right h (rb_parent h x) s) else set_root h s) = h1"
      unfolding h1_def redirect_def x(5) by (cases "rb_left h (up K) = x") simp_all
    have nz: "ptr l \<noteq> 0" using l whole_ptr [of h "InL c x (Node Leaf cs s sr) # K" l] w by simp
    show ?thesis
      unfolding erase_two_def Let_def h1 h1x
      using dis nz by (simp add: h1x h8_def adopt_def)
  qed
  have "whole h8 (plug K (Node l c s sr))"
  proof (rule replaced [where h = g and v = x, OF _ s(1,2) _ refl])
    show "whole g (plug K (Node l c x sr))" using wg by simp
    show "s \<notin> set (inorder (plug K (Node l c x sr)))" using w by (auto simp: whole_plug on_path_def)
    show "rb_parent_color h8 s = up K + col c" "rb_left h8 s = ptr l" "rb_right h8 s = ptr sr"
      using h1x cl dis by (auto simp: h8_def adopt_at)
    let ?h = "adopt (adopt (redirect g (up K) x s) (ptr l) s) (ptr sr) s"
    show "rb_node h8 = rb_node ?h" using q by (simp add: h8_def h1_def g_def redirect_at x)
    have eq: "rb_parent_color h8 a = rb_parent_color ?h a \<and> rb_left h8 a = rb_left ?h a \<and> rb_right h8 a = rb_right ?h a"
      if a: "a \<noteq> x" "a \<noteq> s" for a
    proof -
      have "rb_left h8 a = rb_left ?h a" "rb_right h8 a = rb_right ?h a"
        using a q x by (simp_all add: h8_def h1_def g_def redirect_at)
      moreover have "rb_parent_color h8 a = rb_parent_color ?h a"
      proof (cases "a = ptr sr \<and> a \<noteq> 0")
        case True
        then obtain rl rc rr where sr: "sr = Node rl rc a rr" by (cases sr) auto
        have "tree h s sr" using w by (auto simp: whole_plug)
        then have "rb_parent_color h a = s + col rc" using sr by simp
        moreover have "a \<noteq> ptr l" using True ch cl dis by auto
        ultimately have "rb_parent_color h8 a = s + col rc" using a by (simp add: h8_def h1_def)
        moreover have "tree g x sr" using wg by (auto simp: whole_plug)
        then have "rb_parent_color (adopt (redirect g (up K) x s) (ptr l) s) a = x + col rc"
          using sr \<open>a \<noteq> ptr l\<close> by simp
        from word_updates(3) [OF this x(2) s(2)] have "rb_parent_color ?h a = s + col rc"
          using True by (simp add: adopt_def [of _ "ptr sr"])
        ultimately show ?thesis by simp
      next
        case False
        then show ?thesis using a by (auto simp: h8_def h1_def g_def adopt_at)
      qed
      ultimately show ?thesis by blast
    qed
    show "same_at ?h h8 (set (inorder l) \<union> set (inorder sr) \<union> on_path K)"
      unfolding same_at_def
    proof
      fix a assume "a \<in> set (inorder l) \<union> set (inorder sr) \<union> on_path K"
      then have "a \<noteq> x" "a \<noteq> s" using w by (auto simp: whole_plug)
      then show "rb_parent_color h8 a = rb_parent_color ?h a \<and> rb_left h8 a = rb_left ?h a \<and> rb_right h8 a = rb_right ?h a"
        by (rule eq)
    qed
  qed
  with run show ?thesis by blast
qed

text \<open>Otherwise \<open>s\<close> is first taken out of the right subtree.\<close>

lemma erase_two_far:
  assumes w: "whole h (plug K (Node l c x (plug (InL d p u # KS) (Node Leaf cs s sr))))"
    and l: "l \<noteq> Leaf" and KS: "before KS = []"
  shows "\<exists>h'. erase_two h x s = (if col cs = RB_BLACK then rb_erase_color h' (ptr sr) p else Some (Inr h'))
    \<and> whole h' (plug K (Node l c s (plug (InL d p u # KS) sr)))"
proof -
  let ?KS = "InL d p u # KS" and ?P = "InL d p u # KS @ InR l c x # K"
  let ?r = "plug ?KS (Node Leaf cs s sr)"
  note x = whole_node [OF w]
  have ws: "whole h (plug ?P (Node Leaf cs s sr))" using w by simp
  note s = whole_node [OF ws]
  have wp: "whole h (plug (KS @ InR l c x # K) (Node (Node Leaf cs s sr) d p u))" using w by simp
  note p = whole_node [OF wp]
  have r: "ptr ?r = ptr (plug ?KS sr)" "ptr ?r \<in> on_path ?KS"
    by (rule ptr_plug_same, simp) (rule ptr_plug, simp)
  have dis: "distinct (inorder l @ x # s # inorder sr @ behind ?KS)" using w KS by (auto simp: whole_plug)
  have q: "up K \<noteq> x" "up K \<noteq> s" "up K \<noteq> p" using up_not_in [OF w] KS by auto
  have cl: "ptr l \<in> set (inorder l)" using l by (cases l) simp_all
  have ch: "ptr sr = 0 \<or> ptr sr \<in> set (inorder sr)" by (rule ptr_in)
  have cr: "ptr ?r \<in> set (behind ?KS)" using r(2) KS by (auto simp: on_path_def)
  have inr: "set (inorder ?r) = insert s (set (inorder sr) \<union> set (behind ?KS))" using KS by auto
  have nil: "0 \<notin> set (inorder (plug K (Node l c x ?r)))"
    using w tree_nonzero unfolding whole_def by blast
  then have nz: "ptr l \<noteq> 0" "ptr ?r \<noteq> 0" using cl cr inr by auto
  note p0 = p(1)
  have ne: "p \<noteq> x" "p \<noteq> s" "s \<noteq> x" "ptr l \<noteq> x" "ptr l \<noteq> s" "ptr l \<noteq> p" "ptr ?r \<noteq> x" "ptr ?r \<noteq> s" "ptr ?r \<noteq> ptr l"
    "ptr sr \<noteq> x" "ptr sr \<noteq> s" "ptr sr \<noteq> p" "ptr sr \<noteq> ptr l" "ptr sr \<noteq> ptr ?r"
  proof -
    have d: "x \<notin> set (inorder l)" "x \<notin> set (behind ?KS)" "s \<notin> set (inorder l)" "s \<notin> set (behind ?KS)" "s \<noteq> x"
      "set (inorder l) \<inter> set (behind ?KS) = {}" "x \<notin> set (inorder sr)" "s \<notin> set (inorder sr)"
      "set (inorder l) \<inter> set (inorder sr) = {}" "set (inorder sr) \<inter> set (behind ?KS) = {}"
      using dis by auto
    have p: "p \<in> set (behind ?KS)" by simp
    show "p \<noteq> x" "p \<noteq> s" "s \<noteq> x" "ptr l \<noteq> x" "ptr l \<noteq> s" "ptr l \<noteq> p" "ptr ?r \<noteq> x" "ptr ?r \<noteq> s" "ptr ?r \<noteq> ptr l"
      using d(1,2) d(3,4) d(5) disjoint_iff [THEN iffD1, OF d(6)] cl cr p by metis+
    have "ptr sr \<notin> {x, s, p, ptr l, ptr ?r}" if "ptr sr \<in> set (inorder sr)"
      using that d(7,8) disjoint_iff [THEN iffD1, OF d(9)] disjoint_iff [THEN iffD1, OF d(10)] cl cr p by force
    moreover have "ptr sr \<notin> {x, s, p, ptr l, ptr ?r}" if "ptr sr = 0"
      using that x(1) s(1) nz p0 by simp
    ultimately show "ptr sr \<noteq> x" "ptr sr \<noteq> s" "ptr sr \<noteq> p" "ptr sr \<noteq> ptr l" "ptr sr \<noteq> ptr ?r"
      using ch by blast+
  qed
  define g where "g = redirect (adopt h (ptr sr) p) p s (ptr sr)"
  have wg: "whole g (plug ?P sr)" using splice_whole [OF ws] by (simp add: g_def)
  define h1 where "h1 = redirect h (up K) x s"
  define h5 where "h5 = adopt (set_right (set_left (adopt h1 (ptr sr) p) p (ptr sr)) s (ptr ?r)) (ptr ?r) s"
  define h8 where "h8 = adopt (set_left (set_parent_color h5 s (rb_parent_color h1 x)) s (ptr l)) (ptr l) s"
  have h1x: "rb_left h1 x = ptr l" "rb_right h1 x = ptr ?r" "rb_parent_color h1 x = up K + col c"
    "rb_right h1 s = ptr sr" "rb_parent h1 s = p" "rb_color h1 s = col cs"
    using x s q by (simp_all add: h1_def rb_parent_def rb_color_def)
  have run: "erase_two h x s = (if col cs = RB_BLACK then rb_erase_color h8 (ptr sr) p else Some (Inr h8))"
  proof -
    have h1: "(if rb_parent h x \<noteq> 0 then (if rb_left h (rb_parent h x) = x then set_left h (rb_parent h x) s
        else set_right h (rb_parent h x) s) else set_root h s) = h1"
      unfolding h1_def redirect_def x(5) by (cases "rb_left h (up K) = x") simp_all
    show ?thesis
      unfolding erase_two_def h1 h1x Let_def
      using ne p(1) nz by (simp add: h1x h8_def h5_def adopt_def deref_def)
  qed
  have "whole h8 (plug K (Node l c s (plug ?KS sr)))"
  proof (rule replaced [where h = g and v = x, OF _ s(1,2) _ refl])
    show "whole g (plug K (Node l c x (plug ?KS sr)))" using wg by simp
    show "s \<notin> set (inorder (plug K (Node l c x (plug ?KS sr))))"
      using w KS by (auto simp: whole_plug on_path_def)
    show "rb_parent_color h8 s = up K + col c" "rb_left h8 s = ptr l" "rb_right h8 s = ptr (plug ?KS sr)"
      using h1x ne r(1) by (simp_all add: h8_def h5_def adopt_at)
    let ?h = "adopt (adopt (redirect g (up K) x s) (ptr l) s) (ptr (plug ?KS sr)) s"
    show "rb_node h8 = rb_node ?h" using q p by (simp add: h8_def h5_def h1_def g_def redirect_at)
    have eq: "rb_parent_color h8 a = rb_parent_color ?h a \<and> rb_left h8 a = rb_left ?h a \<and> rb_right h8 a = rb_right ?h a"
      if a: "a \<noteq> x" "a \<noteq> s" for a
    proof -
      have "rb_left h8 a = rb_left ?h a" "rb_right h8 a = rb_right ?h a"
        using a q p ne by (simp_all add: h8_def h5_def h1_def g_def redirect_at)
      moreover have "rb_parent_color h8 a = rb_parent_color ?h a"
        using a ne r(1) by (simp add: h8_def h5_def h1_def g_def adopt_at)
      ultimately show ?thesis by blast
    qed
    show "same_at ?h h8 (set (inorder l) \<union> set (inorder (plug ?KS sr)) \<union> on_path K)"
      unfolding same_at_def
    proof
      fix a assume "a \<in> set (inorder l) \<union> set (inorder (plug ?KS sr)) \<union> on_path K"
      then have "a \<noteq> x" "a \<noteq> s" using w KS by (auto simp: whole_plug)
      then show "rb_parent_color h8 a = rb_parent_color ?h a \<and> rb_left h8 a = rb_left ?h a \<and> rb_right h8 a = rb_right ?h a"
        by (rule eq)
    qed
  qed
  with run show ?thesis by blast
qed

lemma erase_two_whole:
  assumes w: "whole h (plug K (Node l c x (plug KS (Node Leaf cs s sr))))"
    and l: "l \<noteq> Leaf" and KS: "before KS = []"
  shows "\<exists>h'. erase_two h x s
      = (if col cs = RB_BLACK then rb_erase_color h' (ptr sr) (up (KS @ InR l c s # K)) else Some (Inr h'))
    \<and> whole h' (plug (KS @ InR l c s # K) sr)"
  using before_Nil [OF KS]
proof
  assume "KS = []"
  with erase_two_near [of h K l c x cs s sr] w l show ?thesis by (simp cong: if_cong split del: if_split)
next
  assume "\<exists>d p u KS'. KS = InL d p u # KS' \<and> before KS' = []"
  then obtain d p u KS' where "KS = InL d p u # KS'" "before (InL d p u # KS') = []" by auto
  with erase_two_far [of h K l c x d p u KS' cs s sr] w l show ?thesis by (simp cong: if_cong split del: if_split)
qed

lemma erase_two_ok:
  assumes w: "whole h (plug K (Node l c x (plug KS (Node Leaf cs s sr))))"
    and rb: "rb_root (plug K (Node l c x (plug KS (Node Leaf cs s sr))))" and l: "l \<noteq> Leaf" and KS: "before KS = []"
  shows "\<exists>h'. erase_two h x s = Some (Inr h') \<and> erased (plug (KS @ InR l c s # K) sr) h'"
proof -
  have "\<exists>m. rb (plug (KS @ InR l c x # K) (Node Leaf cs s sr)) m" "black (plug (KS @ InR l c x # K) (Node Leaf cs s sr))"
    using rb by (simp_all add: rb_root_def)
  then obtain n where n: "hole (KS @ InR l c x # K) n" "rb (Node Leaf cs s sr) n"
    "black (Node Leaf cs s sr) \<or> black_top (KS @ InR l c x # K)" using hole_of_plug by blast
  obtain h' where h': "whole h' (plug (KS @ InR l c s # K) sr)" "erase_two h x s
      = (if col cs = RB_BLACK then rb_erase_color h' (ptr sr) (up (KS @ InR l c s # K)) else Some (Inr h'))"
    using erase_two_whole [OF w l KS] by blast
  have "hole (KS @ InR l c s # K) n" using n(1) hole_same by blast
  moreover have "cs = Red \<Longrightarrow> black_top (KS @ InR l c s # K)" using n(3) black_top_same [of KS l c x K s] by auto
  ultimately show ?thesis using unlinked [OF h'(1) _ n(2)] h'(2) by simp
qed

lemma rb_erase_whole:
  assumes w: "whole h (plug K (Node l c x r))" and rb: "rb_root (plug K (Node l c x r))"
  shows "\<exists>h' T. rb_erase h x = Some (Inr h') \<and> whole h' T \<and> rb_root T
    \<and> inorder T = before K @ inorder l @ inorder r @ behind K"
proof -
  note x = whole_node [OF w]
  have zero: "ptr l = 0 \<longleftrightarrow> l = Leaf" "ptr r = 0 \<longleftrightarrow> r = Leaf"
    using whole_ptr [of h "InL c x r # K" l] whole_ptr [of h "InR l c x # K" r] w by simp_all
  show ?thesis
  proof (cases "l = Leaf \<or> r = Leaf")
    case True
    define t where "t = (if l = Leaf then r else l)"
    have "l = Leaf \<and> t = r \<or> r = Leaf \<and> t = l" using True by (auto simp: t_def)
    moreover have "rb_erase h x = erase_one h x (ptr t)" using True x zero by (auto simp: rb_erase_def t_def)
    ultimately show ?thesis using erase_one_ok [OF w rb, of t] by (auto simp: erased_def)
  next
    case False
    have "tree h x r" using w by (auto simp: whole_plug)
    then obtain KS cs s sr where s: "r = plug KS (Node Leaf cs s sr)" "before KS = []" "leftmost h (ptr r) = Some s"
      using leftmost_place False by blast
    then have "rb_erase h x = erase_two h x s" using x zero False by (simp add: rb_erase_def)
    then show ?thesis
      using erase_two_ok [of h K l c x KS cs s sr] w rb s(1,2) False
      by (auto simp: erased_def before_append)
  qed
qed

section \<open>Properties\<close>

text \<open>C15. Taking any node out of a red-black tree with \<open>rb_erase\<close> gives a red-black tree with the
  other nodes in the same order; no \<open>NULL\<close> is dereferenced and every loop ends.\<close>

theorem rb_erase_keeps_tree:
  assumes w: "whole h (plug K (Node l c x r))" and rb: "rb_root (plug K (Node l c x r))"
  shows "\<exists>h' T. rb_erase h x = Some (Inr h') \<and> whole h' T \<and> rb_root T
    \<and> inorder T = before K @ inorder l @ inorder r @ behind K"
  by (rule rb_erase_whole [OF w rb])

text \<open>C30. \<open>rb_replace_node\<close> puts a new node in the place of a node of the tree: the tree keeps its
  shape and its colours, and the order of the other nodes.\<close>

theorem rb_replace_keeps_tree:
  assumes w: "whole h (plug K (Node l c v r))" and new: "new \<noteq> 0" "4 dvd new" "new \<notin> set (inorder (plug K (Node l c v r)))"
  shows "\<exists>h'. rb_replace_node h v new = Inr h' \<and> whole h' (plug K (Node l c new r))"
  using replace_node_whole [OF w new] by blast

theorem rb_replace_keeps_tree_witness:
  "\<exists>h'. rb_replace_node rb_pair 64 192 = Inr h' \<and> whole h' (Node Leaf Black 192 (Node Leaf Red 128 Leaf))"
  using rb_replace_keeps_tree [of rb_pair "[]" Leaf Black 64 "Node Leaf Red 128 Leaf" 192] rb_pair by simp

section \<open>A tree of five nodes\<close>

definition rb_five :: rb_heap where
  "rb_five = \<lparr>rb_parent_color = (\<lambda>_. 0)(64 := 129, 128 := 1, 192 := 257, 256 := 128, 320 := 257),
     rb_right = (\<lambda>_. 0)(128 := 256, 256 := 320), rb_left = (\<lambda>_. 0)(128 := 64, 256 := 192), rb_node = 128\<rparr>"

abbreviation five :: rbt where
  "five \<equiv> Node (Node Leaf Black 64 Leaf) Black 128 (Node (Node Leaf Black 192 Leaf) Red 256 (Node Leaf Black 320 Leaf))"

lemma rb_five: "whole rb_five five" "rb_root five"
  by (simp_all add: whole_def rb_five_def RB_RED_def RB_BLACK_def rb_root_def)

theorem rb_erase_keeps_tree_witness:
  "\<exists>h' T. rb_erase rb_five 128 = Some (Inr h') \<and> whole h' T \<and> rb_root T \<and> inorder T = [64, 192, 256, 320]"
  using rb_erase_keeps_tree [of rb_five "[]" "Node Leaf Black 64 Leaf" Black 128
      "Node (Node Leaf Black 192 Leaf) Red 256 (Node Leaf Black 320 Leaf)"] rb_five by simp

end
