(* ===== verification/RbWalk.thy ===== *)
theory RbWalk
  imports RbErase
begin

text \<open>
  The walks through a red-black tree: \<open>rb_first\<close>, \<open>rb_last\<close>, \<open>rb_next\<close> and \<open>rb_prev\<close> of \<open>src/rbtree.c\<close>.
  They give the nodes in order, \<open>NULL\<close> at the ends.
\<close>

unbundle bit_operations_syntax

section \<open>The code\<close>

definition rightmost :: "rb_heap \<Rightarrow> addr \<Rightarrow> addr option" where
  "rightmost h = while_option (\<lambda>n. rb_right h n \<noteq> 0) (rb_right h)"

definition rb_first :: "rb_heap \<Rightarrow> addr option" where
  "rb_first h = (let n = rb_node h in if n = 0 then Some 0 else leftmost h n)"

definition rb_last :: "rb_heap \<Rightarrow> addr option" where
  "rb_last h = (let n = rb_node h in if n = 0 then Some 0 else rightmost h n)"

text \<open>The loops up: from \<open>node\<close> as long as it is a right child, or a left child.\<close>

definition climb_right :: "rb_heap \<Rightarrow> addr \<Rightarrow> addr option" where
  "climb_right h = while_option (\<lambda>node. rb_parent h node \<noteq> 0 \<and> node = rb_right h (rb_parent h node)) (rb_parent h)"

definition climb_left :: "rb_heap \<Rightarrow> addr \<Rightarrow> addr option" where
  "climb_left h = while_option (\<lambda>node. rb_parent h node \<noteq> 0 \<and> node = rb_left h (rb_parent h node)) (rb_parent h)"

definition rb_next :: "rb_heap \<Rightarrow> addr \<Rightarrow> addr run option" where
  "rb_next h node =
     (if node = 0 then Some (Inl Bad_access)
      else if rb_parent h node = node then Some (Inr 0)
      else if rb_right h node \<noteq> 0 then map_option Inr (leftmost h (rb_right h node))
      else map_option (\<lambda>node. Inr (rb_parent h node)) (climb_right h node))"

definition rb_prev :: "rb_heap \<Rightarrow> addr \<Rightarrow> addr run option" where
  "rb_prev h node =
     (if node = 0 then Some (Inl Bad_access)
      else if rb_parent h node = node then Some (Inr 0)
      else if rb_left h node \<noteq> 0 then map_option Inr (rightmost h (rb_left h node))
      else map_option (\<lambda>node. Inr (rb_parent h node)) (climb_left h node))"

section \<open>The next node\<close>

lemma leftmost_first:
  assumes "tree h par t" and "t \<noteq> Leaf"
  shows "leftmost h (ptr t) = Some (hd (inorder t @ ys))"
  using leftmost_place [OF assms] by auto

lemma place_of:
  "a \<in> set (inorder t) \<Longrightarrow> \<exists>K l c r. t = plug K (Node l c a r)"
proof (induction t)
  case (Node l c b r)
  then consider "a = b" | "a \<in> set (inorder l)" | "a \<in> set (inorder r)" by auto
  then show ?case
  proof cases
    case 1
    then show ?thesis by (intro exI [of _ "[]"]) simp
  next
    case 2
    then obtain K l' c' r' where "l = plug K (Node l' c' a r')" using Node.IH(1) by blast
    then have "Node l c b r = plug (K @ [InL c b r]) (Node l' c' a r')" by simp
    then show ?thesis by blast
  next
    case 3
    then obtain K l' c' r' where "r = plug K (Node l' c' a r')" using Node.IH(2) by blast
    then have "Node l c b r = plug (K @ [InR l c b]) (Node l' c' a r')" by simp
    then show ?thesis by blast
  qed
qed simp

lemma climb_right_step:
  "climb_right h n = (if rb_parent h n \<noteq> 0 \<and> n = rb_right h (rb_parent h n) then climb_right h (rb_parent h n) else Some n)"
  unfolding climb_right_def by (rule while_option_unfold)

lemma climb_right_end:
  "whole h (plug K (Node l c a r)) \<Longrightarrow>
     map_option (rb_parent h) (climb_right h a) = Some (hd (behind K @ [0]))"
proof (induction K arbitrary: l c a r)
  case Nil
  with whole_node(5) [OF Nil] show ?case by (subst climb_right_step) simp
next
  case (Cons f K)
  note node = whole_node [OF Cons.prems]
  show ?case
  proof (cases f)
    case (InL d b s)
    have w: "whole h (plug K (Node (Node l c a r) d b s))" using Cons.prems InL by simp
    have "a \<notin> set (inorder s)" using w by (auto simp: whole_plug)
    then have "a \<noteq> ptr s" using ptr_in [of s] node(1) by auto
    with whole_node [OF w] node InL show ?thesis by (subst climb_right_step) simp
  next
    case (InR s d b)
    have w: "whole h (plug K (Node s d b (Node l c a r)))" using Cons.prems InR by simp
    have "climb_right h a = climb_right h b"
      using whole_node [OF w] node InR by (subst climb_right_step) simp
    with Cons.IH [OF w] InR show ?thesis by simp
  qed
qed

lemma rb_next_at:
  assumes w: "whole h (plug K (Node l c a r))"
  shows "rb_next h a = Some (Inr (hd (inorder r @ behind K @ [0])))"
proof -
  note node = whole_node [OF w]
  have "up K \<noteq> a" using up_not_in [OF w] by auto
  moreover have "tree h a r" using w by (auto simp: whole_plug)
  note leftmost_first [OF this, of "behind K @ [0]"] ptr_zero [OF this]
  moreover have "map_option (\<lambda>n. Inr (rb_parent h n)) (climb_right h a) = map_option Inr (map_option (rb_parent h) (climb_right h a))"
    by (simp add: option.map_comp o_def)
  ultimately show ?thesis
    using node climb_right_end [OF w] by (cases r) (auto simp: rb_next_def)
qed

section \<open>The other direction\<close>

lemma swap_walks:
  "rightmost h = leftmost (swap h)" "climb_left h = climb_right (swap h)"
  "rb_last h = rb_first (swap h)" "rb_prev h a = rb_next (swap h) a"
proof -
  show l: "rightmost h = leftmost (swap h)" "climb_left h = climb_right (swap h)"
    by (simp_all add: rightmost_def leftmost_def climb_left_def climb_right_def)
  then show "rb_last h = rb_first (swap h)" "rb_prev h a = rb_next (swap h) a"
    by (simp_all add: rb_last_def rb_first_def rb_prev_def rb_next_def Let_def)
qed

lemma rb_first_whole:
  assumes "whole h t"
  shows "rb_first h = Some (hd (inorder t @ [0]))"
proof (cases t)
  case Leaf
  with assms show ?thesis by (simp add: whole_def rb_first_def)
next
  case (Node l c a r)
  with assms leftmost_first [of h 0 t "[0]"] show ?thesis by (auto simp: whole_def rb_first_def)
qed

lemma rb_next_nth:
  assumes w: "whole h t" and i: "i < length (inorder t)"
  shows "rb_next h (inorder t ! i) = Some (Inr ((inorder t @ [0]) ! Suc i))"
proof -
  let ?a = "inorder t ! i"
  obtain K l c r where t: "t = plug K (Node l c ?a r)" using place_of i nth_mem by blast
  let ?ys = "inorder r @ behind K" and ?xs = "before K @ inorder l"
  have order: "inorder t = ?xs @ ?a # ?ys" by (subst t) simp
  have "distinct (inorder t)" using w by (simp add: whole_def)
  moreover have "inorder t ! length ?xs = ?a" "length ?xs < length (inorder t)" by (subst order, simp)+
  ultimately have k: "length ?xs = i" using i nth_eq_iff_index_eq by blast
  have "rb_next h ?a = Some (Inr (hd (?ys @ [0])))" using rb_next_at [of h K l c ?a r] w t by simp
  moreover have "(inorder t @ [0]) ! Suc i = hd (?ys @ [0])"
    by (subst order) (simp add: k [symmetric] nth_append hd_conv_nth)
  ultimately show ?thesis by simp
qed

section \<open>Property\<close>

text \<open>C29. The walks give the nodes of the tree in order and back, with \<open>NULL\<close> at both ends.\<close>

theorem rb_walks:
  assumes w: "whole h t"
  shows "rb_first h = Some (hd (inorder t @ [0])) \<and> rb_last h = Some (last (0 # inorder t))
    \<and> (\<forall>i < length (inorder t). rb_next h (inorder t ! i) = Some (Inr ((inorder t @ [0]) ! Suc i))
         \<and> rb_prev h (inorder t ! i) = Some (Inr ((0 # inorder t) ! i)))"
proof (intro conjI allI impI)
  have sw: "whole (swap h) (mirror t)" using w by (simp only: whole_swap)
  show "rb_first h = Some (hd (inorder t @ [0]))" by (rule rb_first_whole [OF w])
  show "rb_last h = Some (last (0 # inorder t))"
    using rb_first_whole [OF sw] by (simp add: swap_walks hd_append hd_rev)
  fix i assume i: "i < length (inorder t)"
  show "rb_next h (inorder t ! i) = Some (Inr ((inorder t @ [0]) ! Suc i))" by (rule rb_next_nth [OF w i])
  have "rb_next (swap h) (inorder (mirror t) ! (length (inorder t) - Suc i))
      = Some (Inr ((inorder (mirror t) @ [0]) ! Suc (length (inorder t) - Suc i)))"
    using i by (intro rb_next_nth [OF sw]) simp
  then show "rb_prev h (inorder t ! i) = Some (Inr ((0 # inorder t) ! i))"
    using i by (cases i) (auto simp: swap_walks rev_nth nth_append Suc_diff_Suc split: if_splits)
qed

theorem rb_walks_witness:
  "rb_first rb_five = Some 64 \<and> rb_last rb_five = Some 320 \<and> rb_next rb_five 64 = Some (Inr 128)
   \<and> rb_prev rb_five 256 = Some (Inr 192)"
proof -
  note walks = rb_walks [OF rb_five(1), THEN conjunct2, THEN conjunct2, rule_format]
  show ?thesis using rb_walks [OF rb_five(1)] walks [of 0] walks [of 3] by (simp add: nth_Cons numeral_eq_Suc)
qed

end
