(* ===== verification/RbSet.thy ===== *)
theory RbSet
  imports RbWalk
begin

text \<open>
  A set of integers in a red-black tree: the functions of \<open>tests/rbtree_test.c\<close>, which search,
  insert and delete with the operations of the tree.  \<open>my_node\<close> is the first member of
  \<open>struct mytype\<close>, so an element has the address of its node.  \<open>malloc\<close> and what is read from the
  standard input are parameters.
\<close>

section \<open>The code\<close>

record mytree =
  rb :: rb_heap
  num :: "addr \<Rightarrow> int"
  live :: "addr set"

partial_function (option) my_search_loop :: "mytree \<Rightarrow> int \<Rightarrow> addr \<Rightarrow> addr option" where
  "my_search_loop s x node =
     (if node \<noteq> 0 then
        if x < num s node then my_search_loop s x (rb_left (rb s) node)
        else if x > num s node then my_search_loop s x (rb_right (rb s) node)
        else Some node
      else Some 0)"

definition my_search :: "mytree \<Rightarrow> int \<Rightarrow> addr option" where
  "my_search s x = my_search_loop s x (rb_node (rb s))"

fun get_link :: "rb_heap \<Rightarrow> link \<Rightarrow> addr" where
  "get_link h Root_link = rb_node h"
| "get_link h (Left_link a) = rb_left h a"
| "get_link h (Right_link a) = rb_right h a"

text \<open>The loop gives the link and the parent of the place, or \<open>None\<close> for the early return.\<close>

partial_function (option) my_insert_loop ::
    "mytree \<Rightarrow> int \<Rightarrow> link \<Rightarrow> addr \<Rightarrow> (link \<times> addr) option option" where
  "my_insert_loop s x tmp parent =
     (let this = get_link (rb s) tmp
      in if this \<noteq> 0 then
           if x < num s this then my_insert_loop s x (Left_link this) this
           else if x > num s this then my_insert_loop s x (Right_link this) this
           else Some None
         else Some (Some (tmp, parent)))"

definition my_insert :: "mytree \<Rightarrow> addr \<Rightarrow> (int \<times> mytree) run option" where
  "my_insert s data =
     (case my_insert_loop s (num s data) Root_link 0 of
        None \<Rightarrow> None
      | Some None \<Rightarrow> Some (Inr (-1, s))
      | Some (Some (tmp, parent)) \<Rightarrow>
          (case rb_insert_color (rb_link_node (rb s) data parent tmp) data of
             None \<Rightarrow> None
           | Some r \<Rightarrow> Some (bind_run r (\<lambda>h. Inr (0, s\<lparr>rb := h\<rparr>)))))"

definition my_delete :: "mytree \<Rightarrow> int \<Rightarrow> mytree run option" where
  "my_delete s x =
     (case my_search s x of
        None \<Rightarrow> None
      | Some data \<Rightarrow>
          if data = 0 then Some (Inr s)
          else (case rb_erase (rb s) data of
                  None \<Rightarrow> None
                | Some r \<Rightarrow> Some (bind_run r (\<lambda>h. Inr (s\<lparr>rb := h, live := live s - {data}\<rparr>)))))"

text \<open>The numbers that \<open>print_rbtree\<close> prints.\<close>

partial_function (option) print_loop :: "mytree \<Rightarrow> addr \<Rightarrow> int list run option" where
  "print_loop s node =
     (if node \<noteq> 0 then
        (case rb_next (rb s) node of
           None \<Rightarrow> None
         | Some (Inl e) \<Rightarrow> Some (Inl e)
         | Some (Inr next) \<Rightarrow>
             Option.bind (print_loop s next) (\<lambda>r. Some (bind_run r (\<lambda>out. Inr (num s node # out)))))
      else Some (Inr []))"

definition print_rbtree :: "mytree \<Rightarrow> int list run option" where
  "print_rbtree s =
     (case rb_first (rb s) of
        None \<Rightarrow> None
      | Some node \<Rightarrow> print_loop s node)"

text \<open>One turn of the loop of \<open>main\<close> that reads numbers: \<open>x\<close> is the number, \<open>malloc\<close> chooses the
  address of the new element.  Then the loop, which stops at the first turn that goes wrong, and the
  rest of \<open>main\<close>.\<close>

definition read_number :: "(mytree \<Rightarrow> addr) \<Rightarrow> int \<Rightarrow> mytree \<Rightarrow> mytree run option" where
  "read_number malloc x s =
     (let tmp = malloc s
      in if tmp = 0 then Some (Inl Bad_access)
         else
           (case my_insert (s\<lparr>num := (num s)(tmp := x), live := insert tmp (live s)\<rparr>) tmp of
              None \<Rightarrow> None
            | Some r \<Rightarrow> Some (bind_run r (\<lambda>(ret, s1).
                Inr (if ret < 0 then s1\<lparr>live := live s1 - {tmp}\<rparr> else s1)))))"

fun run_all :: "('a \<Rightarrow> 's \<Rightarrow> 's run option) \<Rightarrow> 'a list \<Rightarrow> 's \<Rightarrow> 's run option" where
  "run_all turn [] s = Some (Inr s)"
| "run_all turn (x # xs) s =
     (case turn x s of
        None \<Rightarrow> None
      | Some (Inl e) \<Rightarrow> Some (Inl e)
      | Some (Inr s') \<Rightarrow> run_all turn xs s')"

definition rbtree_main :: "(mytree \<Rightarrow> addr) \<Rightarrow> int list \<Rightarrow> mytree \<Rightarrow> (int list \<times> int list \<times> mytree) run option" where
  "rbtree_main malloc xs s0 =
     (case run_all (read_number malloc) xs (s0\<lparr>rb := set_root (rb s0) 0\<rparr>) of
        None \<Rightarrow> None
      | Some (Inl e) \<Rightarrow> Some (Inl e)
      | Some (Inr s) \<Rightarrow>
          (case (print_rbtree s, my_delete s 21) of
             (Some (Inr out), Some (Inr s1)) \<Rightarrow>
               (case print_rbtree s1 of
                  None \<Rightarrow> None
                | Some r \<Rightarrow> Some (bind_run r (\<lambda>out1. Inr (out, out1, s1))))
           | (Some (Inl e), _) \<Rightarrow> Some (Inl e)
           | (Some _, Some (Inl e)) \<Rightarrow> Some (Inl e)
           | _ \<Rightarrow> None))"

section \<open>Search trees\<close>

definition sorted_keys :: "(addr \<Rightarrow> int) \<Rightarrow> addr list \<Rightarrow> bool" where
  "sorted_keys f as \<longleftrightarrow> sorted_wrt (\<lambda>a b. f a < f b) as"

lemma sorted_keys_simps [simp]:
  "sorted_keys f []" "sorted_keys f (a # as) \<longleftrightarrow> (\<forall>b \<in> set as. f a < f b) \<and> sorted_keys f as"
  "sorted_keys f (as @ bs) \<longleftrightarrow> sorted_keys f as \<and> sorted_keys f bs \<and> (\<forall>a \<in> set as. \<forall>b \<in> set bs. f a < f b)"
  by (auto simp: sorted_keys_def sorted_wrt_append)

definition found :: "mytree \<Rightarrow> int \<Rightarrow> addr list \<Rightarrow> addr \<Rightarrow> bool" where
  "found s x as a \<longleftrightarrow> (if x \<in> num s ` set as then a \<in> set as \<and> num s a = x else a = 0)"

lemma my_search_loop_finds:
  "tree (rb s) par t \<Longrightarrow> sorted_keys (num s) (inorder t) \<Longrightarrow>
     \<exists>a. my_search_loop s x (ptr t) = Some a \<and> found s x (inorder t) a"
proof (induction t arbitrary: par)
  case Leaf
  then show ?case by (simp add: my_search_loop.simps found_def)
next
  case (Node l c a r)
  have a: "a \<noteq> 0" "rb_left (rb s) a = ptr l" "rb_right (rb s) a = ptr r" "tree (rb s) a l" "tree (rb s) a r"
    using Node.prems(1) by auto
  have so: "sorted_keys (num s) (inorder l)" "sorted_keys (num s) (inorder r)"
    "\<forall>b \<in> set (inorder l). num s b < num s a" "\<forall>b \<in> set (inorder r). num s a < num s b" using Node.prems(2) by auto
  consider "x < num s a" | "x > num s a" | "x = num s a" by linarith
  then show ?case
  proof cases
    case 1
    then have "my_search_loop s x a = my_search_loop s x (ptr l)" using a by (subst my_search_loop.simps) simp
    moreover have "x \<notin> num s ` insert a (set (inorder r))" using so(4) 1 by fastforce
    then have "found s x (inorder (Node l c a r)) b" if "found s x (inorder l) b" for b
      using that by (auto simp: found_def split: if_splits)
    ultimately show ?thesis using Node.IH(1) [OF a(4) so(1)] by auto
  next
    case 2
    then have "my_search_loop s x a = my_search_loop s x (ptr r)" using a by (subst my_search_loop.simps) simp
    moreover have "x \<notin> num s ` insert a (set (inorder l))" using so(3) 2 by fastforce
    then have "found s x (inorder (Node l c a r)) b" if "found s x (inorder r) b" for b
      using that by (auto simp: found_def split: if_splits)
    ultimately show ?thesis using Node.IH(2) [OF a(5) so(2)] by auto
  next
    case 3
    then have "my_search_loop s x a = Some a" using a by (subst my_search_loop.simps) simp
    with 3 show ?thesis by (auto simp: found_def)
  qed
qed

definition placed :: "mytree \<Rightarrow> int \<Rightarrow> frame list \<Rightarrow> rbt \<Rightarrow> frame list \<Rightarrow> addr list \<Rightarrow> addr list \<Rightarrow> bool" where
  "placed s x K t K' as bs \<longleftrightarrow> plug K' Leaf = plug K t \<and> before K' = before K @ as \<and> behind K' = bs @ behind K
     \<and> inorder t = as @ bs \<and> (\<forall>a \<in> set as. num s a < x) \<and> (\<forall>b \<in> set bs. x < num s b)"

lemma get_link_of: "path h K q \<Longrightarrow> get_link h (link_of K) = q"
  by (cases K rule: up.cases) simp_all

lemma my_insert_loop_places:
  "whole (rb s) (plug K t) \<Longrightarrow> sorted_keys (num s) (inorder t) \<Longrightarrow>
     if x \<in> num s ` set (inorder t) then my_insert_loop s x (link_of K) (up K) = Some None
     else \<exists>K' as bs. my_insert_loop s x (link_of K) (up K) = Some (Some (link_of K', up K')) \<and> placed s x K t K' as bs"
proof (induction t arbitrary: K)
  case Leaf
  then have "get_link (rb s) (link_of K) = 0" using get_link_of by (auto simp: whole_plug)
  then show ?case by (subst my_insert_loop.simps) (auto simp: Let_def placed_def intro!: exI [of _ K])
next
  case (Node l c a r)
  have a: "a \<noteq> 0" "get_link (rb s) (link_of K) = a" using Node.prems(1) get_link_of by (auto simp: whole_plug)
  have so: "sorted_keys (num s) (inorder l)" "sorted_keys (num s) (inorder r)"
    "\<forall>b \<in> set (inorder l). num s b < num s a" "\<forall>b \<in> set (inorder r). num s a < num s b" using Node.prems(2) by auto
  consider "x < num s a" | "x > num s a" | "x = num s a" by linarith
  then show ?case
  proof cases
    case 1
    let ?K = "InL c a r # K"
    have w: "whole (rb s) (plug ?K l)" using Node.prems(1) by simp
    have step: "my_insert_loop s x (link_of K) (up K) = my_insert_loop s x (link_of ?K) (up ?K)"
      using a 1 by (subst my_insert_loop.simps) (simp add: Let_def)
    have "x \<notin> num s ` insert a (set (inorder r))" using so(4) 1 by fastforce
    then have mem: "x \<in> num s ` set (inorder (Node l c a r)) \<longleftrightarrow> x \<in> num s ` set (inorder l)" by auto
    show ?thesis
    proof (cases "x \<in> num s ` set (inorder l)")
      case True
      with Node.IH(1) [OF w so(1)] show ?thesis using mem step by simp
    next
      case False
      with Node.IH(1) [OF w so(1)] obtain K' as bs where K':
        "my_insert_loop s x (link_of ?K) (up ?K) = Some (Some (link_of K', up K'))"
        "placed s x ?K l K' as bs" by auto
      have "placed s x K (Node l c a r) K' as (bs @ a # inorder r)" using K'(2) so(4) 1 by (auto simp: placed_def)
      with K'(1) mem False step show ?thesis by auto
    qed
  next
    case 2
    let ?K = "InR l c a # K"
    have w: "whole (rb s) (plug ?K r)" using Node.prems(1) by simp
    have step: "my_insert_loop s x (link_of K) (up K) = my_insert_loop s x (link_of ?K) (up ?K)"
      using a 2 by (subst my_insert_loop.simps) (simp add: Let_def)
    have "x \<notin> num s ` insert a (set (inorder l))" using so(3) 2 by fastforce
    then have mem: "x \<in> num s ` set (inorder (Node l c a r)) \<longleftrightarrow> x \<in> num s ` set (inorder r)" by auto
    show ?thesis
    proof (cases "x \<in> num s ` set (inorder r)")
      case True
      with Node.IH(2) [OF w so(2)] show ?thesis using mem step by simp
    next
      case False
      with Node.IH(2) [OF w so(2)] obtain K' as bs where K':
        "my_insert_loop s x (link_of ?K) (up ?K) = Some (Some (link_of K', up K'))"
        "placed s x ?K r K' as bs" by auto
      have "placed s x K (Node l c a r) K' (inorder l @ a # as) bs" using K'(2) so(3) 2 by (auto simp: placed_def)
      with K'(1) mem False step show ?thesis by auto
    qed
  next
    case 3
    then have "my_insert_loop s x (link_of K) (up K) = Some None" using a by (subst my_insert_loop.simps) (simp add: Let_def)
    with 3 show ?thesis by auto
  qed
qed

section \<open>The interface of the set\<close>

text \<open>What a set of integers promises its user: \<open>holds s X\<close> says that the state \<open>s\<close> has the
  elements \<open>X\<close>.\<close>

locale int_set =
  fixes holds :: "'s \<Rightarrow> int set \<Rightarrow> bool" and add :: "int \<Rightarrow> 's \<Rightarrow> 's run option"
    and del :: "'s \<Rightarrow> int \<Rightarrow> 's run option" and listing :: "'s \<Rightarrow> int list run option"
  assumes add_holds: "holds s X \<Longrightarrow> \<exists>s'. add x s = Some (Inr s') \<and> holds s' (insert x X)"
    and del_holds: "holds s X \<Longrightarrow> \<exists>s'. del s x = Some (Inr s') \<and> holds s' (X - {x})"
    and listing_holds: "holds s X \<Longrightarrow> listing s = Some (Inr (sorted_list_of_set X))"
begin

lemma add_all:
  "holds s X \<Longrightarrow> \<exists>s'. run_all add xs s = Some (Inr s') \<and> holds s' (set xs \<union> X)"
proof (induction xs arbitrary: s X)
  case (Cons x xs)
  obtain s1 where s1: "add x s = Some (Inr s1)" "holds s1 (insert x X)" using add_holds [OF Cons.prems] by blast
  from Cons.IH [OF s1(2)] s1(1) show ?case by (auto simp: insert_commute)
qed simp

lemma add_all_list:
  assumes "holds s {}"
  shows "\<exists>s' s''. run_all add xs s = Some (Inr s') \<and> listing s' = Some (Inr (sorted_list_of_set (set xs)))
    \<and> del s' x = Some (Inr s'') \<and> listing s'' = Some (Inr (sorted_list_of_set (set xs - {x})))
    \<and> holds s'' (set xs - {x})"
proof -
  obtain s' where s': "run_all add xs s = Some (Inr s')" "holds s' (set xs)" using add_all [OF assms, of xs] by auto
  obtain s'' where "del s' x = Some (Inr s'')" "holds s'' (set xs - {x})" using del_holds [OF s'(2)] by blast
  with s' listing_holds show ?thesis by blast
qed

end

section \<open>The tree provides it\<close>

definition tree_ok :: "mytree \<Rightarrow> rbt \<Rightarrow> bool" where
  "tree_ok s t \<longleftrightarrow> whole (rb s) t \<and> rb_root t \<and> sorted_keys (num s) (inorder t)
     \<and> set (inorder t) \<subseteq> live s \<and> finite (live s)"

definition tree_holds :: "mytree \<Rightarrow> int set \<Rightarrow> bool" where
  "tree_holds s X \<longleftrightarrow> (\<exists>t. tree_ok s t \<and> X = num s ` set (inorder t))"

text \<open>What \<open>malloc\<close> promises while there is memory: a new aligned address.\<close>

definition mallocs :: "(mytree \<Rightarrow> addr) \<Rightarrow> bool" where
  "mallocs malloc \<longleftrightarrow> (\<forall>s. finite (live s) \<longrightarrow> malloc s \<noteq> 0 \<and> 4 dvd malloc s \<and> malloc s \<notin> live s)"

lemma my_insert_ok:
  assumes ok: "tree_ok s t" and data: "data \<noteq> 0" "4 dvd data" "data \<notin> set (inorder t)" "data \<in> live s"
  shows "if num s data \<in> num s ` set (inorder t) then my_insert s data = Some (Inr (-1, s))
    else \<exists>h t'. my_insert s data = Some (Inr (0, s\<lparr>rb := h\<rparr>)) \<and> tree_ok (s\<lparr>rb := h\<rparr>) t'
      \<and> set (inorder t') = insert data (set (inorder t))"
proof -
  have w: "whole (rb s) (plug [] t)" and so: "sorted_keys (num s) (inorder t)" using ok by (simp_all add: tree_ok_def)
  note place = my_insert_loop_places [OF w so, of "num s data"]
  show ?thesis
  proof (cases "num s data \<in> num s ` set (inorder t)")
    case True
    with place show ?thesis by (simp add: my_insert_def)
  next
    case False
    with place obtain K as bs where K: "my_insert_loop s (num s data) Root_link 0 = Some (Some (link_of K, up K))"
      "placed s (num s data) [] t K as bs" by auto
    have parts: "plug K Leaf = t" "before K = as" "behind K = bs" "inorder t = as @ bs"
      "\<forall>a \<in> set as. num s a < num s data" "\<forall>b \<in> set bs. num s data < num s b"
      using K(2) by (simp_all add: placed_def)
    have "whole (rb s) (plug K Leaf)" "rb_root (plug K Leaf)" "data \<notin> on_path K"
      using ok data(3) parts by (auto simp: tree_ok_def on_path_def)
    from rb_insert_whole [OF this(1,2) data(1,2) this(3)] obtain h t' where
      h: "rb_insert_color (rb_link_node (rb s) data (up K) (link_of K)) data = Some (Inr h)"
      "whole h t'" "rb_root t'" "inorder t' = as @ data # bs" using parts by auto
    have "sorted_keys (num s) (inorder t')" using so parts h(4) by auto
    then have "tree_ok (s\<lparr>rb := h\<rparr>) t'" using ok h data(4) parts(4) by (auto simp: tree_ok_def)
    moreover have "my_insert s data = Some (Inr (0, s\<lparr>rb := h\<rparr>))" using K(1) h(1) by (simp add: my_insert_def)
    moreover have "set (inorder t') = insert data (set (inorder t))" using h(4) parts(4) by auto
    ultimately show ?thesis using False by (simp only: if_False) blast
  qed
qed

lemma tree_ok_new:
  assumes "tree_ok s t" and "a \<notin> live s"
  shows "tree_ok (s\<lparr>num := (num s)(a := x), live := insert a (live s)\<rparr>) t"
proof -
  have "\<forall>b \<in> set (inorder t). b \<noteq> a" "sorted_keys (num s) (inorder t)" using assms by (auto simp: tree_ok_def)
  then have "sorted_keys ((num s)(a := x)) (inorder t)"
    unfolding sorted_keys_def by (auto intro!: sorted_wrt_mono_rel [where P = "\<lambda>a b. num s a < num s b"])
  then show ?thesis using assms by (auto simp: tree_ok_def)
qed

lemma read_number_holds:
  assumes holds: "tree_holds s X" and m: "mallocs malloc"
  shows "\<exists>s'. read_number malloc x s = Some (Inr s') \<and> tree_holds s' (insert x X)"
proof -
  obtain t where t: "tree_ok s t" "X = num s ` set (inorder t)" using holds by (auto simp: tree_holds_def)
  define a where "a = malloc s"
  have a: "a \<noteq> 0" "4 dvd a" "a \<notin> live s" "a \<notin> set (inorder t)"
    using m t(1) by (auto simp: a_def mallocs_def tree_ok_def)
  define s1 where "s1 = s\<lparr>num := (num s)(a := x), live := insert a (live s)\<rparr>"
  have ok: "tree_ok s1 t" unfolding s1_def by (rule tree_ok_new [OF t(1) a(3)])
  have s1: "num s1 a = x" "num s1 ` set (inorder t) = X" "a \<in> live s1" using t(2) a(4) by (auto simp: s1_def)
  have turn: "read_number malloc x s = (case my_insert s1 a of None \<Rightarrow> None
      | Some r \<Rightarrow> Some (bind_run r (\<lambda>(ret, s2). Inr (if ret < 0 then s2\<lparr>live := live s2 - {a}\<rparr> else s2))))"
    using a(1) by (simp add: read_number_def a_def [symmetric] s1_def)
  note ins = my_insert_ok [OF ok a(1,2,4) s1(3), unfolded s1(1,2)]
  show ?thesis
  proof (cases "x \<in> X")
    case True
    then have "read_number malloc x s = Some (Inr (s1\<lparr>live := live s1 - {a}\<rparr>))" using ins turn by simp
    moreover have "tree_ok (s1\<lparr>live := live s1 - {a}\<rparr>) t" using ok a(4) by (auto simp: tree_ok_def)
    moreover have "insert x X = num (s1\<lparr>live := live s1 - {a}\<rparr>) ` set (inorder t)" using True s1(2) by auto
    ultimately show ?thesis unfolding tree_holds_def by blast
  next
    case False
    then obtain h t' where h: "my_insert s1 a = Some (Inr (0, s1\<lparr>rb := h\<rparr>))" "tree_ok (s1\<lparr>rb := h\<rparr>) t'"
      "set (inorder t') = insert a (set (inorder t))" using ins by auto
    have "read_number malloc x s = Some (Inr (s1\<lparr>rb := h\<rparr>))" using h(1) turn by simp
    moreover have "insert x X = num (s1\<lparr>rb := h\<rparr>) ` set (inorder t')" using h(3) s1 by auto
    ultimately show ?thesis using h(2) unfolding tree_holds_def by blast
  qed
qed

lemma my_delete_holds:
  assumes holds: "tree_holds s X"
  shows "\<exists>s'. my_delete s x = Some (Inr s') \<and> tree_holds s' (X - {x})"
proof -
  obtain t where t: "tree_ok s t" "X = num s ` set (inorder t)" using holds by (auto simp: tree_holds_def)
  have w: "whole (rb s) t" and so: "sorted_keys (num s) (inorder t)" using t(1) by (simp_all add: tree_ok_def)
  obtain a where a: "my_search s x = Some a" "found s x (inorder t) a"
    using my_search_loop_finds [of s 0 t x] w so by (auto simp: my_search_def whole_def)
  show ?thesis
  proof (cases "x \<in> X")
    case False
    then show ?thesis using a t(2) holds by (auto simp: my_delete_def found_def)
  next
    case True
    then have a_in: "a \<in> set (inorder t)" "num s a = x" using a(2) t(2) by (auto simp: found_def)
    then obtain K l c r where K: "t = plug K (Node l c a r)" using place_of by blast
    let ?xs = "before K @ inorder l" and ?ys = "inorder r @ behind K"
    have order: "inorder t = ?xs @ a # ?ys" by (simp add: K)
    have "a \<noteq> 0" using w K whole_node by blast
    obtain h T where h: "rb_erase (rb s) a = Some (Inr h)" "whole h T" "rb_root T" "inorder T = ?xs @ ?ys"
      using rb_erase_whole [of "rb s" K l c a r] t(1) K by (auto simp: tree_ok_def)
    let ?s = "s\<lparr>rb := h, live := live s - {a}\<rparr>"
    have so': "sorted_keys (num s) (?xs @ a # ?ys)" using so by (simp only: order)
    have "distinct (inorder t)" using w by (simp add: whole_def)
    then have "a \<notin> set (inorder T)" unfolding order h(4) by auto
    moreover have sub: "set (inorder T) \<subseteq> set (inorder t)" unfolding order h(4) by auto
    moreover have "sorted_keys (num s) (inorder T)" using so' unfolding h(4) sorted_keys_simps by auto
    ultimately have "tree_ok ?s T" using t(1) h(2,3) by (auto simp: tree_ok_def)
    moreover have "my_delete s x = Some (Inr ?s)" using a(1) h(1) \<open>a \<noteq> 0\<close> by (simp add: my_delete_def)
    moreover have "X - {x} = num ?s ` set (inorder T)"
    proof -
      have "\<forall>b \<in> set ?xs. num s b < x" "\<forall>b \<in> set ?ys. x < num s b"
        using so' a_in(2) unfolding sorted_keys_simps by (simp_all only: list.set ball_Un set_append) blast+
      then have "\<forall>b \<in> set (inorder T). num s b \<noteq> x" unfolding h(4) set_append by blast
      moreover have "set (inorder t) = insert a (set (inorder T))" unfolding order h(4) by auto
      ultimately show ?thesis using t(2) a_in(2) by auto
    qed
    ultimately show ?thesis unfolding tree_holds_def by blast
  qed
qed

lemma whole_nonzero: "whole h t \<Longrightarrow> a \<in> set (inorder t) \<Longrightarrow> a \<noteq> 0"
  using place_of whole_node(1) by blast

lemma print_loop_rest:
  assumes w: "whole (rb s) t" and i: "i \<le> length (inorder t)"
  shows "print_loop s ((inorder t @ [0]) ! i) = Some (Inr (map (num s) (drop i (inorder t))))"
  using i
proof (induction rule: inc_induct)
  case base
  then show ?case by (simp add: print_loop.simps)
next
  case (step i)
  have "inorder t ! i \<noteq> 0" using whole_nonzero [OF w nth_mem [OF step(2)]] .
  then show ?case using step rb_next_nth [OF w step(2)]
    by (subst print_loop.simps) (simp add: nth_append Cons_nth_drop_Suc [symmetric])
qed

lemma print_rbtree_holds:
  assumes "tree_holds s X"
  shows "print_rbtree s = Some (Inr (sorted_list_of_set X))"
proof -
  obtain t where t: "tree_ok s t" "X = num s ` set (inorder t)" using assms by (auto simp: tree_holds_def)
  have w: "whole (rb s) t" and so: "sorted_keys (num s) (inorder t)" using t(1) by (simp_all add: tree_ok_def)
  have "sorted_wrt (<) (map (num s) (inorder t))" using so by (simp add: sorted_keys_def sorted_wrt_map)
  then have "sorted_list_of_set X = map (num s) (inorder t)"
    using t(2) strict_sorted_equal [of "sorted_list_of_set X" "map (num s) (inorder t)"] by simp
  moreover have "hd (inorder t @ [0]) = (inorder t @ [0]) ! 0" by (simp add: hd_conv_nth)
  then have "rb_first (rb s) = Some ((inorder t @ [0]) ! 0)" using rb_first_whole [OF w] by simp
  ultimately show ?thesis using print_loop_rest [OF w, of 0] by (simp add: print_rbtree_def)
qed

interpretation tree_set: int_set "\<lambda>s X. mallocs malloc \<and> tree_holds s X" "read_number malloc" my_delete print_rbtree
  for malloc
proof
  fix s X x assume "mallocs malloc \<and> tree_holds s X"
  then have holds: "tree_holds s X" and m: "mallocs malloc" by simp_all
  show "\<exists>s'. read_number malloc x s = Some (Inr s') \<and> mallocs malloc \<and> tree_holds s' (insert x X)"
    using read_number_holds [OF holds m] m by simp
  show "\<exists>s'. my_delete s x = Some (Inr s') \<and> mallocs malloc \<and> tree_holds s' (X - {x})"
    using my_delete_holds [OF holds] m by simp
  show "print_rbtree s = Some (Inr (sorted_list_of_set X))" by (rule print_rbtree_holds [OF holds])
qed

text \<open>C28. As long as \<open>malloc\<close> succeeds, the program prints the numbers it read in ascending order, each
  once, and then the same without 21: every number is found or inserted, the second print shows exactly
  what the first did less the deleted element, and no loop runs for ever.\<close>

theorem rbtree_main_prints:
  assumes "mallocs malloc" and "finite (live s0)"
  shows "\<exists>s. rbtree_main malloc xs s0
      = Some (Inr (sorted_list_of_set (set xs), sorted_list_of_set (set xs - {21}), s))
    \<and> tree_holds s (set xs - {21})"
proof -
  have "whole (set_root (rb s0) 0) Leaf" by (simp add: whole_def set_root_def)
  then have "tree_ok (s0\<lparr>rb := set_root (rb s0) 0\<rparr>) Leaf" using assms(2) by (simp add: tree_ok_def rb_root_def)
  then have "mallocs malloc \<and> tree_holds (s0\<lparr>rb := set_root (rb s0) 0\<rparr>) {}"
    using assms(1) by (auto simp: tree_holds_def intro!: exI [of _ Leaf])
  from tree_set.add_all_list [OF this, of xs 21] show ?thesis by (auto simp: rbtree_main_def)
qed

text \<open>A \<open>malloc\<close> that takes the first multiple of four above every element.\<close>

definition bump :: "mytree \<Rightarrow> addr" where
  "bump s = 4 * (1 + Max (insert 0 (live s)))"

lemma mallocs_bump: "mallocs bump"
proof -
  have "bump s \<notin> live s \<and> bump s \<noteq> 0" if "finite (live s)" for s
  proof -
    let ?m = "Max (insert 0 (live s))"
    have "0 \<le> ?m" and "\<forall>a \<in> live s. a \<le> ?m" using that by simp_all
    then show ?thesis by (fastforce simp: bump_def)
  qed
  then show ?thesis by (auto simp: mallocs_def bump_def)
qed

theorem rbtree_main_prints_witness:
  "\<exists>s. rbtree_main bump [7, 21, 3, 7] \<lparr>rb = rb_zero, num = (\<lambda>_. 0), live = {}\<rparr> = Some (Inr ([3, 7, 21], [3, 7], s))"
proof -
  have "set [7, 21, 3, 7] - {21} = {3, 7 :: int}" by auto
  then have "sorted_list_of_set (set [7, 21, 3, 7]) = [3, 7, 21 :: int]"
    "sorted_list_of_set (set [7, 21, 3, 7] - {21}) = [3, 7 :: int]" by (simp_all only:) (simp_all add: insert_commute)
  then show ?thesis
    using rbtree_main_prints [OF mallocs_bump, of "\<lparr>rb = rb_zero, num = (\<lambda>_. 0), live = {}\<rparr>" "[7, 21, 3, 7]"]
    by auto
qed

text \<open>When \<open>malloc\<close> fails, \<open>main\<close> reports it and stores the number through the null pointer.\<close>

lemma read_number_no_memory: "malloc s = 0 \<Longrightarrow> read_number malloc x s = Some (Inl Bad_access)"
  by (simp add: read_number_def)

end
