(* ===== verification/SlubMain.thy ===== *)
theory SlubMain
  imports Slub
begin

text \<open>
  The printing functions \<open>dump_mem\<close> and \<open>dump_slub\<close> of \<open>src/slub.c\<close> and the program that
  \<open>src/hixo.c\<close> is built into (\<open>RUN\<close> is 0): it formats a region of three pages, takes one object, stores into
  it and prints the region.  What is printed is a list of values; a line of bytes carries the address of
  its first byte, so the addresses that printing reads can be told.
\<close>

section \<open>The code\<close>

function dump_mem :: "bmem \<Rightarrow> addr \<Rightarrow> int \<Rightarrow> (addr \<times> byte list) list" where
  "dump_mem b seg16 segsize =
     (if segsize > 0 then
        let n = (if segsize > 16 then 16 else segsize)
        in (seg16, map (\<lambda>i. b (seg16 + int i)) [0..<nat n]) # dump_mem b (seg16 + 16) (segsize - 16)
      else [])"
  by pat_completeness auto
termination by (relation "measure (\<lambda>(b, seg16, segsize). nat segsize)") auto

declare dump_mem.simps [simp del]

datatype dump = Shift nat nat | Value string int | Bytes string "(addr \<times> byte list) list"

definition dump_slub :: "slub_env \<Rightarrow> slub_t \<Rightarrow> bmem \<Rightarrow> addr \<Rightarrow> dump list run" where
  "dump_slub env slb b p =
     assert_run (p \<noteq> 0)
       (let shifts = map (\<lambda>(shift, occupy). Shift shift occupy) (takeWhile (\<lambda>(shift, occupy). shift \<noteq> 0) (objs env));
            fields = [Value ''slub'' p, Value ''nblocks'' (int (nblocks slb)), Value ''bitmap'' (bitmap slb),
              Value ''bitmap_size'' (int (bitmap_size slb)), Value ''usemap'' (usemap slb),
              Value ''usemap_size'' (int (usemap_size slb)), Value ''block'' (block slb), Value ''self'' (self slb)]
        in assert_run (obj_type_count env > 0)
             (Inr (shifts @ fields
                @ [Bytes ''bitmap'' (dump_mem b (bitmap slb) (int (bitmap_size slb * (obj_type_count env + 1)))),
                   Bytes ''usemap'' (dump_mem b (usemap slb) (int (usemap_size slb * nblocks slb)))]
                @ map (\<lambda>i. Bytes ''block'' (dump_mem b (block slb + int (i * BLOCK_SIZE)) (int BLOCK_SIZE)))
                    [0..<nblocks slb])))"

text \<open>A store of an \<open>int\<close>.\<close>

definition put_int :: "bmem \<Rightarrow> addr \<Rightarrow> int \<Rightarrow> bmem" where
  "put_int b p x = (\<lambda>a. if p \<le> a \<and> a < p + 4 then word_of_int (x div 256 ^ nat (a - p)) else b a)"

definition MEMSIZE :: int where "MEMSIZE = 4096 * 3"

text \<open>\<open>p\<close> is what \<open>malloc\<close> returns; the result is the address of the object, what \<open>dump_slub\<close> prints, and
  the memory.\<close>

definition slub_main :: "addr \<Rightarrow> bmem \<Rightarrow> (addr \<times> dump list \<times> bmem) run" where
  "slub_main p b =
     bind_run (slub_format slub_env_init b p MEMSIZE) (\<lambda>(rslt, env, header, b1).
       case header of
         None \<Rightarrow> Inl Bad_access
       | Some slb \<Rightarrow>
           bind_run (slub_alloc env slb b1 p 12) (\<lambda>(dt, b2).
             if dt = 0 then Inl Bad_access
             else
               let b3 = put_int (put_int (put_int b2 dt 97) (dt + 4) 98) (dt + 8) 99
               in bind_run (dump_slub env slb b3 p) (\<lambda>out. Inr (dt, out, b3))))"

section \<open>What is printed\<close>

definition placed_bytes :: "addr \<times> byte list \<Rightarrow> (addr \<times> byte) list" where
  "placed_bytes line = map (\<lambda>i. (fst line + int i, snd line ! i)) [0..<length (snd line)]"

lemma dump_mem_bytes:
  "concat (map placed_bytes (dump_mem b p n)) = map (\<lambda>i. (p + int i, b (p + int i))) [0..<nat n]"
proof (induction b p n rule: dump_mem.induct)
  case (1 b p n)
  have line: "placed_bytes (p, map (\<lambda>i. b (p + int i)) [0..<k]) = map (\<lambda>i. (p + int i, b (p + int i))) [0..<k]" for k
    by (simp add: placed_bytes_def)
  consider "n \<le> 0" | "0 < n" "n \<le> 16" | "16 < n" by linarith
  then show ?case
  proof cases
    case 1
    then show ?thesis by (simp add: dump_mem.simps)
  next
    case 2
    then have "dump_mem b p n = [(p, map (\<lambda>i. b (p + int i)) [0..<nat n])]"
      by (simp add: dump_mem.simps [of b p n] dump_mem.simps [of b "p + 16"])
    then show ?thesis by (simp add: line)
  next
    case 3
    define k where "k = nat (n - 16)"
    have k: "nat n = 16 + k" "nat (n - 16) = k" using 3 by (simp_all add: k_def nat_diff_distrib)
    have "dump_mem b p n = (p, map (\<lambda>i. b (p + int i)) [0..<16]) # dump_mem b (p + 16) (n - 16)"
      using 3 by (simp add: dump_mem.simps [of b p n])
    moreover have "concat (map placed_bytes (dump_mem b (p + 16) (n - 16)))
        = map (\<lambda>i. (p + int (16 + i), b (p + int (16 + i)))) [0..<k]" using "1.IH" 3 k(2) by (simp add: add.assoc)
    moreover have "[0..<16 + k] = [0..<16] @ map (\<lambda>i. 16 + i) [0..<k]"
      using upt_add_eq_append [of 0 16 k] map_add_upt [of 16 k] by (simp add: add.commute)
    ultimately show ?thesis unfolding k(1) by (simp only: map_append concat.simps list.map line map_map o_def)
  qed
qed

definition addrs :: "(addr \<times> byte list) list \<Rightarrow> addr set" where
  "addrs ls = fst ` set (concat (map placed_bytes ls))"

fun dumped :: "dump \<Rightarrow> addr set" where
  "dumped (Bytes s ls) = addrs ls"
| "dumped d = {}"

lemma addrs_dump_mem: "addrs (dump_mem b p n) = {p..<p + n}"
proof -
  have "x \<in> (\<lambda>i. p + int i) ` {0..<nat n}" if "p \<le> x" "x < p + n" for x
    using that by (intro image_eqI [of _ _ "nat (x - p)"]) auto
  then show ?thesis by (auto simp: addrs_def dump_mem_bytes image_image)
qed

text \<open>\<open>dump_mem\<close> prints every byte of the memory it is given once and in order, in lines of at most
  sixteen that carry the address of their first byte, and reads nothing else.\<close>

theorem dump_mem_prints:
  "concat (map snd (dump_mem b p n)) = map (\<lambda>i. b (p + int i)) [0..<nat n]
   \<and> (\<forall>line \<in> set (dump_mem b p n). snd line \<noteq> [] \<and> length (snd line) \<le> 16)
   \<and> addrs (dump_mem b p n) = {p..<p + n}"
proof (intro conjI)
  have "map snd (placed_bytes line) = snd line" for line by (simp add: placed_bytes_def o_def map_nth)
  then have "concat (map snd (dump_mem b p n)) = map snd (concat (map placed_bytes (dump_mem b p n)))"
    by (simp add: map_concat o_def)
  then show "concat (map snd (dump_mem b p n)) = map (\<lambda>i. b (p + int i)) [0..<nat n]"
    by (simp add: dump_mem_bytes o_def)
  show "\<forall>line \<in> set (dump_mem b p n). snd line \<noteq> [] \<and> length (snd line) \<le> 16"
  proof (induction b p n rule: dump_mem.induct)
    case (1 b p n)
    show ?case
    proof (cases "n > 0")
      case True
      with 1 have "\<forall>line \<in> set (dump_mem b (p + 16) (n - 16)). snd line \<noteq> [] \<and> length (snd line) \<le> 16" by simp
      with True show ?thesis by (simp add: dump_mem.simps [of b p n] Let_def nat_le_iff)
    qed (simp add: dump_mem.simps)
  qed
qed (rule addrs_dump_mem)

lemma dump_slub_reads:
  assumes "p \<noteq> 0"
  shows "\<exists>out. dump_slub slub_env_ready (hdr p n) b p = Inr out
    \<and> \<Union> (dumped ` set out) = {p + 64..<usemap (hdr p n) + int (129 * n)} \<union> {p + 4096..<p + 4096 + int (n * 4096)}"
proof -
  let ?U = "usemap (hdr p n)"
  have types: "obj_type_count slub_env_ready = 9" by (simp add: slub_env_ready_def)
  have no_bytes: "dumped (case x of (a, c) \<Rightarrow> Shift a c) = {}" for x by (cases x) simp
  have blocks: "(\<Union>i \<in> {0..<n}. {q + int (i * 4096)..<q + int (i * 4096) + 4096}) = {q..<q + int (n * 4096)}" for q
  proof (induction n)
    case (Suc n)
    then show ?case by (simp add: atLeast0_lessThan_Suc ivl_disj_un_two(3) Un_commute) (auto simp: add.assoc)
  qed simp
  have bm: "p + 64 \<le> ?U" "int (bitmap_size (hdr p n) * (9 + 1)) = ?U - (p + 64)" by (simp_all add: hdr_fields)
  have "{p + 64..<?U + int (129 * n)} = {p + 64..<?U} \<union> {?U..<?U + int (129 * n)}" using bm(1) by auto
  with assms bm(2) blocks [of "p + 4096"] show ?thesis
    by (simp add: dump_slub_def assert_run_def types no_bytes addrs_dump_mem hdr_fields BLOCK_SIZE_def image_image
        image_Un Un_assoc mult.commute)
qed

section \<open>The program\<close>

lemma put_int_bytes:
  "put_int b p x p = word_of_int x" "put_int b p x (p + 1) = word_of_int (x div 256)"
  "put_int b p x (p + 2) = word_of_int (x div 65536)" "put_int b p x (p + 3) = word_of_int (x div 16777216)"
  "a < p \<or> p + 4 \<le> a \<Longrightarrow> put_int b p x a = b a"
  by (auto simp: put_int_def)

text \<open>C39. The program takes the first bytes of the first block as its object, stores 97, 98 and 99 there and
  prints the bitmaps and all three blocks; the last of the blocks lies behind the memory that
  \<open>malloc\<close> has given, so the program reads a whole page that it does not own.\<close>

theorem slub_main_reads_behind:
  assumes p: "0 < p"
  shows "\<exists>out b'. slub_main p b = Inr (p + 4096, out, b')
    \<and> map (\<lambda>i. b' (p + 4096 + int i)) [0..<12] = [97, 0, 0, 0, 98, 0, 0, 0, 99, 0, 0, 0]
    \<and> \<Union> (dumped ` set out) = {p + 64..<p + 461} \<union> {p + 4096..<p + MEMSIZE} \<union> {p + MEMSIZE..<p + MEMSIZE + 4096}"
proof -
  have n: "nblocks_of MEMSIZE = 3" by (simp add: nblocks_of_def MEMSIZE_def)
  obtain b1 where b1: "slub_format slub_env_init b p MEMSIZE = Inr (None, slub_env_ready, Some (hdr p 3), b1)"
    "filled p 3 b1 1 0"
    by (rule slub_format_filled [OF p, of MEMSIZE slub_env_init 1 b, unfolded n]) (simp_all add: MEMSIZE_def)
  have ty: "find_type (objs slub_env_ready) 0 12 = int 1" by (simp add: slub_env_ready_def)
  obtain b2 where b2: "slub_alloc slub_env_ready (hdr p 3) b1 p 12 = Inr (block (hdr p 3) + int 0 * 2 ^ (1 + 3), b2)"
    using filled_next [OF b1(2) _ _ _ _ ty] type_table(3) [of 1] by (auto simp: usable_def)
  have dt: "block (hdr p 3) + int 0 * 2 ^ (1 + 3) = p + 4096" by (simp add: hdr_fields)
  define b3 where "b3 = put_int (put_int (put_int b2 (p + 4096) 97) (p + 4096 + 4) 98) (p + 4096 + 8) 99"
  obtain out where out: "dump_slub slub_env_ready (hdr p 3) b3 p = Inr out"
    "\<Union> (dumped ` set out) = {p + 64..<usemap (hdr p 3) + int (129 * 3)} \<union> {p + 4096..<p + 4096 + int (3 * 4096)}"
    using dump_slub_reads [of p 3 b3] p by auto
  have "slub_main p b = Inr (p + 4096, out, b3)"
    using p b1(1) b2 out(1) unfolding dt by (simp add: slub_main_def b3_def Let_def)
  moreover have "map (\<lambda>i. b3 (p + 4096 + int i)) [0..<12] = [97, 0, 0, 0, 98, 0, 0, 0, 99, 0, 0, 0]"
    by (simp add: b3_def put_int_def upt_rec)
  moreover have "\<Union> (dumped ` set out)
      = {p + 64..<p + 461} \<union> {p + 4096..<p + MEMSIZE} \<union> {p + MEMSIZE..<p + MEMSIZE + 4096}"
    unfolding out(2) by (simp add: hdr_fields MEMSIZE_def) auto
  ultimately show ?thesis by (intro exI [of _ out] exI [of _ b3] conjI)
qed

theorem slub_main_reads_behind_witness:
  "\<exists>out b'. slub_main 65536 (\<lambda>_. 0) = Inr (69632, out, b') \<and> 77824 \<in> \<Union> (dumped ` set out)"
proof -
  have "(0 :: int) < 65536" by simp
  then obtain out b' where "slub_main 65536 (\<lambda>_. 0) = Inr (65536 + 4096, out, b')"
    "\<Union> (dumped ` set out) = {65536 + 64..<65536 + 461} \<union> {65536 + 4096..<65536 + MEMSIZE}
      \<union> {65536 + MEMSIZE..<65536 + MEMSIZE + 4096}"
    using slub_main_reads_behind [of 65536 "\<lambda>_. 0"] by blast
  moreover from this(2) have "77824 \<in> \<Union> (dumped ` set out)" by (simp only: MEMSIZE_def) simp
  ultimately show ?thesis by auto
qed

end
