(* ===== verification/PoolMain.thy ===== *)
theory PoolMain
  imports Resource Numbers
begin

text \<open>
  The table of pool operations at the end of \<open>include/resource.h\<close> and \<open>src/resource.c\<close>, the program
  that calls it (\<open>RUN\<close> 3 of \<open>src/hixo.c\<close>) and the program \<open>tests/hixo_resource_test.c\<close>.

  An object holds, at some offset, the address of a table of interfaces; an interface is a struct of
  operations, \<open>hixo_pool\<close>.  The operations only print, so what they change is the list of what has been
  printed.
\<close>

section \<open>Pool operations behind a table\<close>

datatype printed = Text string | Number int

record hixo_pool =
  new_op :: "addr \<Rightarrow> int \<Rightarrow> int \<Rightarrow> printed list \<Rightarrow> addr \<times> printed list"
  del_op :: "addr \<Rightarrow> printed list \<Rightarrow> printed list"

definition REF_VFTS :: "addr \<Rightarrow> int \<Rightarrow> addr" where
  "REF_VFTS obj vfts_offset = obj + vfts_offset"

definition SET_VFTS_VALUE :: "mem \<Rightarrow> addr \<Rightarrow> int \<Rightarrow> addr \<Rightarrow> mem" where
  "SET_VFTS_VALUE m obj vfts_offset value = m(REF_VFTS obj vfts_offset := value)"

text \<open>\<open>itfs\<close> tells which interface lies at an address.\<close>

definition GET_INTERFACE :: "mem \<Rightarrow> (addr \<Rightarrow> hixo_pool option) \<Rightarrow> addr \<Rightarrow> int \<Rightarrow> int \<Rightarrow> hixo_pool option" where
  "GET_INTERFACE m itfs obj vfts_offset index = itfs (m (m (REF_VFTS obj vfts_offset) + 8 * index))"

definition hixo_call_pool_new ::
    "mem \<Rightarrow> (addr \<Rightarrow> hixo_pool option) \<Rightarrow> addr \<Rightarrow> int \<Rightarrow> int \<Rightarrow> int \<Rightarrow> int \<Rightarrow> printed list \<Rightarrow> (addr \<times> printed list) run" where
  "hixo_call_pool_new m itfs obj offset index element_size count out =
     (case GET_INTERFACE m itfs obj offset index of
        None \<Rightarrow> Inl Bad_access
      | Some ops \<Rightarrow> Inr (new_op ops obj element_size count out))"

definition hixo_call_pool_del ::
    "mem \<Rightarrow> (addr \<Rightarrow> hixo_pool option) \<Rightarrow> addr \<Rightarrow> int \<Rightarrow> int \<Rightarrow> printed list \<Rightarrow> printed list run" where
  "hixo_call_pool_del m itfs obj offset index out =
     (case GET_INTERFACE m itfs obj offset index of
        None \<Rightarrow> Inl Bad_access
      | Some ops \<Rightarrow> Inr (del_op ops obj out))"

definition ITFC_INDEX_MEMPOOL_POOL :: int where "ITFC_INDEX_MEMPOOL_POOL = 0"

text \<open>\<open>VFTS_OFFSET(hixo_mempool_t)\<close>: the pointer \<open>__data__\<close> comes first.\<close>

definition mempool_vfts_offset :: int where "mempool_vfts_offset = 8"

definition mempool_new :: "addr \<Rightarrow> int \<Rightarrow> int \<Rightarrow> printed list \<Rightarrow> addr \<times> printed list" where
  "mempool_new pool element_size count out = (0, out @ [Text ''__mempool_new__''])"

definition mempool_del :: "addr \<Rightarrow> printed list \<Rightarrow> printed list" where
  "mempool_del pool out = out @ [Text ''__mempool_del__'']"

definition i_pool_mempool :: hixo_pool where
  "i_pool_mempool = \<lparr>new_op = mempool_new, del_op = mempool_del\<rparr>"

text \<open>The static variables: the interface \<open>__i_pool_mempool__\<close> lies at \<open>itf\<close>, and \<open>__mempool_vfts__\<close>, whose
  only entry points to it, at \<open>vfts\<close>.\<close>

definition mempool_statics :: "addr \<Rightarrow> addr \<Rightarrow> mem \<Rightarrow> mem" where
  "mempool_statics itf vfts m = m(vfts := itf)"

definition mempool_interfaces :: "addr \<Rightarrow> addr \<Rightarrow> hixo_pool option" where
  "mempool_interfaces itf = [itf \<mapsto> i_pool_mempool]"

definition mempool_init :: "addr \<Rightarrow> mem \<Rightarrow> addr \<Rightarrow> int \<times> mem" where
  "mempool_init vfts m mempool = (0, SET_VFTS_VALUE m mempool mempool_vfts_offset vfts)"

definition mempool_exit :: "mem \<Rightarrow> addr \<Rightarrow> mem" where
  "mempool_exit m mempool = m"

definition test_pool_interface ::
    "mem \<Rightarrow> (addr \<Rightarrow> hixo_pool option) \<Rightarrow> addr \<Rightarrow> int \<Rightarrow> printed list \<Rightarrow> printed list run" where
  "test_pool_interface m itfs obj offset out =
     bind_run (hixo_call_pool_new m itfs obj offset ITFC_INDEX_MEMPOOL_POOL 0 0 out) (\<lambda>(p, out1).
       hixo_call_pool_del m itfs obj offset ITFC_INDEX_MEMPOOL_POOL out1)"

text \<open>\<open>printf("%s\n", s)\<close>: it reads up to the terminator.\<close>

definition print_string :: "char list option run \<Rightarrow> (char list \<times> printed) run" where
  "print_string r =
     bind_run r (\<lambda>s. case s of
        None \<Rightarrow> Inl Bad_access
      | Some buf \<Rightarrow> if CHR 0x00 \<in> set buf then Inr (buf, Text (takeWhile (\<lambda>c. c \<noteq> CHR 0x00) buf)) else Inl Bad_access)"

text \<open>The calls of \<open>printf\<close> on \<open>wtoa\<close>: what is printed until the program ends or crashes.\<close>

fun print_numbers :: "int list \<Rightarrow> int \<Rightarrow> char list \<Rightarrow> printed list \<times> unit run" where
  "print_numbers [] places buf = ([], Inr ())"
| "print_numbers (x # xs) places buf =
     (case print_string (wtoa x places buf (places + 1)) of
        Inl e \<Rightarrow> ([], Inl e)
      | Inr (buf1, line) \<Rightarrow> (let r = print_numbers xs places buf1 in (line # fst r, snd r)))"

text \<open>The program: \<open>mempool\<close> is the address of the variable, \<open>malloc\<close> gives the array of \<open>wtoa\<close>.\<close>

definition run3_main :: "addr \<Rightarrow> addr \<Rightarrow> mem \<Rightarrow> addr \<Rightarrow> (int \<Rightarrow> char list) \<Rightarrow> printed list \<times> unit run" where
  "run3_main itf vfts m mempool malloc =
     (let m1 = snd (mempool_init vfts (mempool_statics itf vfts m) mempool)
      in case test_pool_interface m1 (mempool_interfaces itf) mempool mempool_vfts_offset [] of
           Inl e \<Rightarrow> ([], Inl e)
         | Inr out \<Rightarrow>
             let counts = map (\<lambda>x. Number (count_places x))
                   [1, 12, 123, 1234, 12345, -1234567890, 9223372036854775807, -9223372036854775807];
                 xs = INTEGER_MAX; ys = INTEGER_MIN; zs = 0;
                 len = count_places xs;
                 r = print_numbers [xs, ys, zs] len (malloc (len + 1))
             in (out @ counts @ [Text ''================================='' ] @ fst r, snd r))"

section \<open>What it prints\<close>

lemma test_pool_interface_prints:
  assumes "vfts \<noteq> mempool + 8"
  shows "test_pool_interface (snd (mempool_init vfts (mempool_statics itf vfts m) mempool)) (mempool_interfaces itf)
    mempool mempool_vfts_offset out = Inr (out @ [Text ''__mempool_new__'', Text ''__mempool_del__''])"
  using assms by (simp add: test_pool_interface_def hixo_call_pool_new_def hixo_call_pool_del_def GET_INTERFACE_def
      REF_VFTS_def SET_VFTS_VALUE_def mempool_init_def mempool_statics_def mempool_interfaces_def i_pool_mempool_def
      mempool_new_def mempool_del_def mempool_vfts_offset_def ITFC_INDEX_MEMPOOL_POOL_def)

lemma decimal_max: "decimal INTEGER_MAX = ''9223372036854775807''"
  by (simp add: INTEGER_MAX_def decimal_def digits_le_pos digit_def) (simp add: char_of_def bit_simps)

lemma places_max_value: "count_places INTEGER_MAX = 19"
proof -
  have "is_intptr INTEGER_MAX" by (simp add: is_intptr_def INTEGER_MAX_def INTEGER_MIN_def)
  then show ?thesis by (simp add: count_places_length decimal_max)
qed

lemma print_max:
  assumes "length buf = 20"
  shows "\<exists>buf1. print_string (wtoa INTEGER_MAX 19 buf 20) = Inr (buf1, Text ''9223372036854775807'') \<and> length buf1 = 20"
proof -
  have ok: "is_intptr INTEGER_MAX" "INTEGER_MAX \<noteq> INTEGER_MIN"
    by (simp_all add: is_intptr_def INTEGER_MAX_def INTEGER_MIN_def)
  have "wtoa INTEGER_MAX 19 buf 20 = Inr (Some (''9223372036854775807'' @ [CHR 0x00]))"
    using wtoa_decimal [of INTEGER_MAX 20 buf] ok assms by (simp add: decimal_max places_max_value)
  then show ?thesis by (simp add: print_string_def)
qed

lemma print_min:
  assumes "length buf = 20"
  shows "print_string (wtoa INTEGER_MIN 19 buf 20) = Inl Bad_access"
proof -
  have "wtoa INTEGER_MIN 19 buf 20 = Inr (Some STR_INTEGER_MIN)"
    using assms by (simp add: wtoa_def Let_def copy_chars_def STR_INTEGER_MIN_def)
  then show ?thesis by (simp add: print_string_def STR_INTEGER_MIN_def)
qed

text \<open>The program calls the operations through the table, counts the places of eight numbers and writes the
  largest \<open>intptr_t\<close>; for the smallest one \<open>wtoa\<close> fills the whole array and \<open>printf\<close> runs over its end.\<close>

theorem run3_main_crashes:
  assumes "vfts \<noteq> mempool + 8" and "length (malloc 20) = 20"
  shows "run3_main itf vfts m mempool malloc =
    ([Text ''__mempool_new__'', Text ''__mempool_del__'', Number 1, Number 2, Number 3, Number 4, Number 5, Number 11,
      Number 19, Number 20, Text ''================================='', Text ''9223372036854775807''], Inl Bad_access)"
proof -
  have small: "map (\<lambda>x. Number (count_places x)) [1, 12, 123, 1234, 12345, -1234567890]
      = [Number 1, Number 2, Number 3, Number 4, Number 5, Number 11]"
    by (simp add: count_places_length is_intptr_def INTEGER_MIN_def INTEGER_MAX_def length_decimal digits_le_pos)
  have "nat \<bar>-9223372036854775807\<bar> = 2 ^ 63 - 1" by simp
  then have large: "count_places 9223372036854775807 = 19" "count_places (-9223372036854775807) = 20"
    using places_max_value length_digits_le_max(2) count_places_length [of "-9223372036854775807"]
    by (simp_all add: INTEGER_MAX_def INTEGER_MIN_def is_intptr_def length_decimal)
  obtain buf1 where buf1: "print_string (wtoa INTEGER_MAX 19 (malloc 20) 20) = Inr (buf1, Text ''9223372036854775807'')"
    "length buf1 = 20" using print_max [OF assms(2)] by blast
  have "print_numbers [INTEGER_MAX, INTEGER_MIN, 0] 19 (malloc 20) = ([Text ''9223372036854775807''], Inl Bad_access)"
    using buf1 print_min [OF buf1(2)] by simp
  then show ?thesis using small large
    by (simp add: run3_main_def Let_def test_pool_interface_prints [OF assms(1)] places_max_value del: print_numbers.simps)
qed

theorem run3_main_crashes_witness:
  "snd (run3_main 64 80 (\<lambda>_. 0) 128 (\<lambda>n. replicate (nat n) (CHR ''x''))) = Inl Bad_access"
  using run3_main_crashes [of 80 128 "\<lambda>n. replicate (nat n) (CHR ''x'')" 64 "\<lambda>_. 0"] by simp

section \<open>A program that drains a pool\<close>

text \<open>\<open>integer_t\<close> has \<open>x\<close> at its start and \<open>m_node\<close> behind it.  A store to \<open>x\<close> changes the lower half of the
  word that starts there.\<close>

definition sizeof_integer_t :: nat where "sizeof_integer_t = 16"
definition integer_m_node :: nat where "integer_m_node = 8"
definition DATA_COUNT :: nat where "DATA_COUNT = 4"

definition store_int :: "mem \<Rightarrow> addr \<Rightarrow> int \<Rightarrow> mem" where
  "store_int m p x = m(p := (m p AND NOT (mask 32)) OR (x AND mask 32))"

definition load_int :: "mem \<Rightarrow> addr \<Rightarrow> int" where
  "load_int m p = c_int (m p)"

fun fill_ints :: "addr \<Rightarrow> addr \<Rightarrow> nat list \<Rightarrow> mem \<times> hixo_resource \<Rightarrow> (mem \<times> hixo_resource) run" where
  "fill_ints int_rsc p_ints [] s = Inr s"
| "fill_ints int_rsc p_ints (i # is) s =
     bind_run (alloc_resource int_rsc s) (\<lambda>((m, r), p_integer).
       if p_integer = 0 then Inl Bad_access
       else fill_ints int_rsc p_ints is
              (add_node (store_int m p_integer (int i)) p_ints (p_integer + int integer_m_node), r))"

partial_function (option) print_ints :: "addr \<Rightarrow> mem \<Rightarrow> (int list \<times> mem) option" where
  "print_ints p_ints m =
     (if m p_ints \<noteq> 0 then
        (let p_data = m p_ints - int integer_m_node
         in Option.bind (print_ints p_ints (m(p_ints := m (m p_ints)))) (\<lambda>(out, m1).
              Some (load_int m p_data # out, m1)))
      else Some ([], m))"

text \<open>The exit status, what is printed, and the block given back; \<open>int_rsc\<close> and \<open>p_ints\<close> are the addresses
  of the variables, \<open>blk\<close> is what \<open>calloc\<close> returns.\<close>

definition resource_main :: "addr \<Rightarrow> addr \<Rightarrow> addr \<Rightarrow> mem \<Rightarrow> (int \<times> int list \<times> addr option) run option" where
  "resource_main int_rsc p_ints blk m =
     (let r = \<lparr>mp_start = 0, mp_end = 0, m_offset = 0, m_used = 0, m_capacity = 0\<rparr>;
          (rslt, m1, r1) = create_resource (m(p_ints := 0, free_list_cell int_rsc := 0)) int_rsc r
            DATA_COUNT sizeof_integer_t integer_m_node blk
      in if rslt = HIXO_ERROR then Some (Inr (1, [], None))
         else
           (case fill_ints int_rsc p_ints [0..<DATA_COUNT] (m1, r1) of
              Inl e \<Rightarrow> Some (Inl e)
            | Inr (m2, r2) \<Rightarrow>
                if m2 (free_list_cell int_rsc) \<noteq> 0 then Some (Inl Assert_failed)
                else
                  (case print_ints p_ints m2 of
                     None \<Rightarrow> None
                   | Some (out, m3) \<Rightarrow>
                       (case destroy_resource m3 int_rsc r2 of
                          (m4, r3, freed) \<Rightarrow> Some (Inr (0, out, freed))))))"

lemma c_int_low_half: "c_int ((w AND NOT (mask 32)) OR (x AND mask 32)) = c_int x"
  by (auto simp: c_int_def intro!: bit_eqI simp: bit_simps)

lemma alloc_head:
  fixes m p r
  defines "n \<equiv> m (free_list_cell p)"
  defines "e \<equiv> n - m_offset r"
  assumes "n \<noteq> 0" "n \<noteq> free_list_cell p" "m e = p" "e \<noteq> free_list_cell p" "e \<noteq> n"
  shows "alloc_resource p (m, r)
    = Inr ((m(free_list_cell p := m n, n := 0, e := p OR 1), r\<lparr>m_used := m_used r + 1\<rparr>), e)"
  using assms(3-) unfolding n_def e_def
  by (simp add: alloc_resource_def rm_node_def rm_node_loop.simps assert_run_def of_option_def Let_def)

lemma resource_main_run:
  assumes "0 < blk" and "int_rsc + 40 \<le> blk \<or> blk + 64 \<le> int_rsc"
    and "p_ints \<noteq> 0" "p_ints + 8 \<le> blk \<or> blk + 64 \<le> p_ints" "p_ints \<noteq> int_rsc + 24"
  shows "resource_main int_rsc p_ints blk m = Some (Inr (0, [3, 2, 1, 0], Some blk))"
proof -
  have "int_rsc + 24 \<noteq> blk + k" "blk + k \<noteq> int_rsc + 24" "p_ints \<noteq> blk + k" "blk + k \<noteq> p_ints" if "0 \<le> k" "k < 64" for k
    using assms that by auto
  note apart = this [of 0, simplified] this [of 8, simplified] this [of 16, simplified] this [of 24, simplified]
    this [of 32, simplified] this [of 40, simplified] this [of 48, simplified] this [of 56, simplified]
  define r0 :: hixo_resource where "r0 = \<lparr>mp_start = 0, mp_end = 0, m_offset = 0, m_used = 0, m_capacity = 0\<rparr>"
  obtain m1 r1 where create: "create_resource (m(p_ints := 0, int_rsc + 24 := 0)) int_rsc r0 4 16 8 blk = (HIXO_OK, m1, r1)"
    and m1: "m1 p_ints = 0" "m1 (int_rsc + 24) = blk + 56" "m1 (blk + 56) = blk + 40" "m1 (blk + 40) = blk + 24"
      "m1 (blk + 24) = blk + 8" "m1 (blk + 8) = 0" "m1 (blk + 48) = int_rsc" "m1 (blk + 32) = int_rsc"
      "m1 (blk + 16) = int_rsc" "m1 blk = int_rsc"
    and r1: "m_offset r1 = 8" "mp_start r1 = blk"
    using assms(1,5) apart
    by (simp add: create_resource_def r0_def Let_def free_list_cell_def upt_rec link_element_def mark_owner_def
        add_node_def mem_zero_def add.commute [of blk] add.commute [of int_rsc])
  have eight: "a + blk - 8 = (a - 8) + blk" for a by simp
  define own where "own i = ((int_rsc OR 1) AND NOT (mask 32)) OR (i AND mask 32)" for i
  define m2 where "m2 = m1(48 + blk := own 0, 56 + blk := 0, 32 + blk := own 1, 40 + blk := 56 + blk,
    16 + blk := own 2, 24 + blk := 40 + blk, 24 + int_rsc := 0, blk := own 3, 8 + blk := 24 + blk, p_ints := 8 + blk)"
  have fill: "fill_ints int_rsc p_ints [0..<4] (m1, r1) = Inr (m2, r1\<lparr>m_used := 4 + m_used r1\<rparr>)"
    using assms(1,5) apart
    by (simp add: eight upt_rec alloc_head free_list_cell_def m1 [simplified add.commute [of blk] add.commute [of int_rsc]]
        r1 integer_m_node_def add_node_def store_int_def add.commute [of blk] add.commute [of int_rsc] m2_def own_def)
  have own: "c_int (own i) = i" if "0 \<le> i" "i < 4" for i using that by (simp add: own_def c_int_low_half)
  have "\<exists>m3. print_ints p_ints m2 = Some ([3, 2, 1, 0], m3)" "m2 (24 + int_rsc) = 0"
    using assms(1,5) apart
    by (simp_all add: m2_def print_ints.simps load_int_def integer_m_node_def eight own add.commute [of blk]
        add.commute [of int_rsc] Let_def)
  then show ?thesis using assms(1) create fill r1 r0_def
    by (auto simp: resource_main_def DATA_COUNT_def sizeof_integer_t_def integer_m_node_def Let_def free_list_cell_def
        destroy_resource_def HIXO_OK_def HIXO_ERROR_def add.commute [of int_rsc])
qed

text \<open>The program takes every element of the pool, finds the pool empty, prints the numbers in the reverse
  order of allocation and gives the block back; without memory it ends with \<open>EXIT_FAILURE\<close>.\<close>

theorem resource_main_prints:
  assumes "0 \<le> blk" and "blk \<noteq> 0 \<Longrightarrow> int_rsc + 40 \<le> blk \<or> blk + 64 \<le> int_rsc"
    and "p_ints \<noteq> 0" "p_ints + 8 \<le> blk \<or> blk + 64 \<le> p_ints" "p_ints \<noteq> int_rsc + 24"
  shows "resource_main int_rsc p_ints blk m
    = Some (Inr (if blk = 0 then (1, [], None) else (0, [3, 2, 1, 0], Some blk)))"
proof (cases "blk = 0")
  case True
  then show ?thesis
    by (simp add: resource_main_def create_resource_def DATA_COUNT_def sizeof_integer_t_def HIXO_ERROR_def Let_def)
qed (use assms resource_main_run [of blk int_rsc p_ints m] in auto)

theorem resource_main_prints_witness:
  "resource_main 4096 4160 8192 (\<lambda>_. 7) = Some (Inr (0, [3, 2, 1, 0], Some 8192))"
  using resource_main_prints [of 8192 4096 4160 "\<lambda>_. 7"] by simp

end
