(* ===== verification/Mains.thy ===== *)
theory Mains
  imports Processes
begin

text \<open>
  The \<open>main\<close> of the server (\<open>RUN\<close> 1 of \<open>src/hixo.c\<close>), which reads the limits of the system and calls
  \<open>hixo_main\<close>, and what \<open>fall_into_daemon\<close> does to the descriptors of the process that goes on.
\<close>

section \<open>The program\<close>

definition EXIT_SUCCESS :: int where "EXIT_SUCCESS = 0"
definition EXIT_FAILURE :: int where "EXIT_FAILURE = 1"

text \<open>The end of the process, beside its limits: \<open>Exited\<close> with a status, or a process that goes on.\<close>

definition server_main ::
    "main_calls \<Rightarrow> hixo_module list \<Rightarrow> int option \<Rightarrow> int \<Rightarrow> hixo_sysconf \<Rightarrow> hixo \<Rightarrow> (fate \<times> hixo_sysconf) run option" where
  "server_main sys mods rlimit nprocs c s =
     (let (rslt, c1) = hixo_get_sysconf rlimit nprocs c
      in if rslt = HIXO_ERROR then Some (Inr (Exited HIXO_ERROR s, c1))
         else case hixo_main sys mods s of
                None \<Rightarrow> None
              | Some r \<Rightarrow> Some (bind_run r (\<lambda>f. Inr (case f of
                    Returned rslt s' \<Rightarrow> Exited (if HIXO_OK = rslt then EXIT_SUCCESS else EXIT_FAILURE) s'
                  | Exited status s' \<Rightarrow> Exited status s'
                  | going_on \<Rightarrow> going_on, c1))))"

text \<open>The status of the first process: 255 (that is -1) when the limits cannot be read, a failure when the
  event core cannot be initialised, and success when \<open>fork\<close> has failed: then there is no worker, but the
  caller is not told.\<close>

theorem server_main_status:
  fixes nprocs c
  assumes app: "no_core app_mods" and boot: "boot M s" and sys: "sigaction_ok sys = (True, True)" "turns sys = 0"
    and fork: "fork_result sys 0 = -1"
  defines "main \<equiv> \<lambda>rlimit. server_main sys (gap_modules M app_mods) rlimit nprocs c s"
  shows "main None = Some (Inr (Exited HIXO_ERROR s, c))"
    and "(\<exists>s' c1. main (Some lim) = Some (Inr (Exited EXIT_FAILURE s', c1)) \<and> segments (g_core s') = segments (g_core s))
      \<or> (\<exists>core s' c1. event_core_init_master (startup M) (snd (create_conf (s_conf s)))
            (map (\<lambda>a. mpa_servers (app_of s a)) (app_nodes s)) (g_core s) = Inr (HIXO_OK, core)
          \<and> main (Some lim) = Some (Inr (Exited EXIT_SUCCESS s', c1)) \<and> segments (g_core s') = segments (g_core s))"
proof -
  show "main None = Some (Inr (Exited HIXO_ERROR s, c))"
    by (simp add: main_def server_main_def hixo_get_sysconf_def)
  have "-1 \<le> fork_result sys 0" "\<not> 0 < fork_result sys 0" using fork by simp_all
  note fates = hixo_main_fates [OF app boot this(1) sys] this(2)
  have returned: "\<exists>c1. main (Some lim) = Some (Inr (Exited (if HIXO_OK = rslt then EXIT_SUCCESS else EXIT_FAILURE) s', c1))"
    if "hixo_main sys (gap_modules M app_mods) s = Some (Inr (Returned rslt s'))" for rslt s'
    using that by (simp add: main_def server_main_def hixo_get_sysconf_def HIXO_OK_def HIXO_ERROR_def)
  from fates(1) show "(\<exists>s' c1. main (Some lim) = Some (Inr (Exited EXIT_FAILURE s', c1)) \<and> segments (g_core s') = segments (g_core s))
      \<or> (\<exists>core s' c1. event_core_init_master (startup M) (snd (create_conf (s_conf s)))
            (map (\<lambda>a. mpa_servers (app_of s a)) (app_nodes s)) (g_core s) = Inr (HIXO_OK, core)
          \<and> main (Some lim) = Some (Inr (Exited EXIT_SUCCESS s', c1)) \<and> segments (g_core s') = segments (g_core s))"
  proof (elim disjE exE conjE)
    fix s' assume "hixo_main sys (gap_modules M app_mods) s = Some (Inr (Returned HIXO_ERROR s'))"
      "segments (g_core s') = segments (g_core s)"
    with returned [of HIXO_ERROR s'] show ?thesis by (intro disjI1) (auto simp: HIXO_OK_def HIXO_ERROR_def)
  qed (use fates(2) returned [of HIXO_OK] in \<open>auto intro!: disjI2\<close>)
qed

section \<open>The descriptors of a daemon\<close>

text \<open>A table of open descriptors says what each refers to.  \<open>open_null\<close> is the descriptor that
  \<open>open("/dev/null", O_RDWR)\<close> gives, which is free, or -1.\<close>

type_synonym fd_table = "int \<Rightarrow> string option"

definition dup2 :: "fd_table \<Rightarrow> int \<Rightarrow> int \<Rightarrow> fd_table" where
  "dup2 t old new = (if t old = None then t else t(new := t old))"

definition daemon_descriptors :: "int \<Rightarrow> fd_table \<Rightarrow> fd_table" where
  "daemon_descriptors open_null t =
     (let fd = open_null
      in if fd \<noteq> -1 then
           (let t1 = dup2 (dup2 (dup2 (t(fd \<mapsto> ''/dev/null'')) fd 0) fd 1) fd 2
            in if fd > 2 then t1(fd := None) else t1)
         else t)"

theorem daemon_descriptors_null:
  assumes "0 \<le> fd" and "t fd = None"
  shows "daemon_descriptors fd t n = (if n \<in> {0, 1, 2} then Some ''/dev/null'' else t n)"
  using assms by (auto simp: daemon_descriptors_def dup2_def Let_def)

end
