(* ===== verification/Life.thy ===== *)
theory Life
  imports Mains
begin

text \<open>
  The server from its start to its end: the first process, with the modules of the source, from
  zeroed memory through the initialisation of the event core, the fork and the turns of the worker.
\<close>

section \<open>From the start to the worker\<close>



section \<open>The server\<close>













end
