(* ===== verification/Spec2Isabelle.thy ===== *)
theory Spec2Isabelle
  imports Slub Resource DList Buffer Spinlock Server Processes Numbers AdvString Bitmap RbSet EchoRead SlubMain PoolMain Life
begin

text \<open>
  A model of hixo, an event-driven network server in C, and of the containers, allocators and
  conversions it brings along.

  \<^bold>\<open>The program.\<close>  \<open>src/hixo.c\<close> starts the modules of a table (configuration, event core, epoll, the
  application modules), forks the workers and runs them.  A worker
  (\<open>modules/event_core_module.c\<close>) keeps its sockets in a pool (\<open>src/resource.c\<close>) and threads
  them on three intrusive lists (\<open>include/list.h\<close>): free, connected, posted.  In each round of
  its loop it serves the posted sockets, tries the lock that the workers share
  (\<open>include/spinlock.h\<close>), registers the listeners if it got it, waits with \<open>epoll\<close>
  (\<open>modules/epoll_module.c\<close>) and posts what was reported.  Serving a listener accepts
  connections and hands them to the application module that owns the port
  (\<open>modules/simple_http.c\<close>, \<open>modules/echo.c\<close>); serving a connection calls that module's
  handlers.  The slub allocator (\<open>src/slub.c\<close>), the red-black tree (\<open>src/rbtree.c\<close>), the bitmap and
  the number conversions stand beside the server.

  \<^bold>\<open>Conventions\<close> (\<open>Prelude\<close>).  Addresses are integers and \<open>NULL\<close> is 0.  Memory that the code
  reaches through raw pointers is a function: \<open>mem\<close> for pointer cells, \<open>bmem\<close> for bytes,
  \<open>dheap\<close> and \<open>rb_heap\<close> for the nodes of the double lists and of the trees.  A C function that may
  not return normally gives a \<open>run\<close>: \<open>Inl\<close> with the reason (a failed \<open>assert\<close>, a loop that does
  not end, signed overflow, a bad access, or readable memory that is taken for an object it is not, \<open>Wrong_object\<close>,
  behind which nothing is modelled) or \<open>Inr\<close> with the result.  A loop whose end is not
  obvious is a \<open>partial_function\<close> or \<open>while_option\<close> giving \<open>None\<close> when it does not end; the
  theorems then say that it gives \<open>Some\<close>.  No fuel is used.  A loop without an end of its own, the event
  loop, gets its answers of the kernel as a list; when they are used up it waits for the next one,
  which is a result of its own (\<open>Waiting\<close>, \<open>Serving\<close>) and not the \<open>None\<close> of a loop that hangs.  What holds for
  every such list holds as long as the loop runs.  The machine is LP64,
  little-endian, and the build sets \<open>DEBUG_FLAG\<close>.  \<open>calloc\<close>, the system calls and \<open>epoll\<close> are
  parameters: what they answer is in the record \<open>kernel\<close>, or an argument.

  \<^bold>\<open>Containers.\<close>  \<open>IntrusiveList\<close> models \<open>list_t\<close>, \<open>add_node\<close>, \<open>rm_node\<close>, \<open>push_node\<close> and
  \<open>pop_node\<close>; \<open>DList\<close> models \<open>dlist_t\<close> with its loop macros, and shows that it is a queue, that
  \<open>dlist_merge\<close> appends, and exactly when the loops end.  \<open>Buffer\<close> models the byte arrays and buffers of \<open>buffer.h\<close> and
  \<open>buffer.c\<close>.  \<open>Bitmap\<close> models \<open>bitmap.h\<close> on 32-bit words and shows it to be a set of offsets up
  to its bounds; it meets the contract \<open>bit_store\<close> of \<open>Prelude\<close>, as the raw memory of \<open>slub.c\<close> does.  \<open>Resource\<close> models the element pool with its ownership words and refines it to
  a stack of free elements.  \<open>PoolMain\<close> has the pool operations that are called through a table of
  interfaces, and two programs: the one of \<open>hixo.c\<close> that calls them and writes numbers, and
  \<open>tests/hixo_resource_test.c\<close>, which drains a pool.

  \<^bold>\<open>The red-black tree.\<close>  \<open>Rbtree\<close> holds the nodes, the setters on the word that combines parent
  and colour, and the rotations; \<open>whole h t\<close> says that the heap \<open>h\<close> holds the tree \<open>t\<close>, \<open>plug K t\<close>
  is a tree with a place in it.  \<open>RbInsert\<close> holds \<open>rb_insert_color\<close>, \<open>RbErase\<close> holds \<open>rb_erase\<close>,
  \<open>__rb_erase_color\<close> and \<open>rb_replace_node\<close>, \<open>RbWalk\<close> the walks.  Each function and turn of a loop
  is shown on one side; the other side follows by exchanging left and right (\<open>swap\<close>,
  \<open>mirror\<close>).  The theorems show that the colours, the black heights and the order are kept and
  that the loops end.  \<open>RbSet\<close> models \<open>tests/rbtree_test.c\<close>, a set of integers in a tree with the
  program that fills and prints it: the locale \<open>int_set\<close> states what such a set promises, and the tree
  is its interpretation.

  \<^bold>\<open>The slub allocator.\<close>  \<open>MemBits\<close> models the bit operations on raw memory at the head of
  \<open>slub.c\<close>, \<open>Slub\<close> the header page, formatting, allocation and freeing.  The theorems show that
  objects handed out are disjoint and inside their blocks, in which order they are handed out,
  and where the code fails.  \<open>SlubMain\<close> has \<open>dump_mem\<close> and \<open>dump_slub\<close>, what they print as a list of
  values, and the program \<open>hixo.c\<close> is built into.

  \<^bold>\<open>Conversions.\<close>  \<open>Numbers\<close> models \<open>count_places\<close> and \<open>wtoa\<close> of \<open>common.h\<close>, \<open>AdvString\<close> the
  functions of \<open>adv_string.c\<close>; \<open>decimal\<close> is the notation they are compared with.

  \<^bold>\<open>The worker.\<close>  \<open>Socket\<close> has the state of a worker process, the record \<open>world\<close>: the cells of the
  pool, a record per socket, the double lists, the listeners, the shared lock word, the buffers
  and heap blocks, and the operating system's view of the descriptors.  \<open>Worker\<close> has the
  invariant \<open>core_inv\<close> of the three lists: every slot of the pool is on exactly one of the free
  list and the list of connections, and posted sockets are connected.  \<open>Spinlock\<close> models the
  lock and the two places of \<open>epoll_process_events\<close> that use it, \<open>enter_round\<close> and \<open>leave_round\<close>; its step
  relation interleaves them for any number of workers, which may also die inside.  \<open>Epoll\<close> and \<open>EventCore\<close> have the code of the
  event module and the event core.  \<open>Engine\<close> states the contract of the application modules, the
  locale \<open>app_modules\<close>: an invariant \<open>J\<close> that holds between two calls, and the weaker \<open>M s\<close> that holds
  from the read handler of the socket \<open>s\<close> until it is disconnected; \<open>ready\<close> is what the read handlers
  ask of the kernel.  Inside the locale \<open>Engine\<close> proves that accepting and closing keep \<open>worker_inv\<close>,
  \<open>Loop\<close> proves it for the dispatcher, the listeners, a whole round and the event loop.  \<open>Http\<close> models
  \<open>simple_http.c\<close> and interprets the locale on it, \<open>Server\<close> draws the conclusions.  \<open>Echo\<close> models
  \<open>modules/echo.c\<close> with its queues of buffers, \<open>EchoRead\<close> shows what a readable echo connection
  is answered, that its queue stays a ring of buffers which own their arrays, that disconnecting
  releases them all, and that the links of others are left alone.  \<open>EchoServer\<close> interprets the locale on
  both modules together: the queues are empty between two calls and every block is given back by the end
  of a round, provided that a connection of \<open>echo\<close> that is reported readable has something to read.
  It also runs several workers on one lock page (\<open>rounds_of\<close>).
  \<open>Demo\<close> is a concrete worker for the witnesses.

  \<^bold>\<open>The processes.\<close>  \<open>Startup\<close> models the initialisation and the exit of the event core in master
  and worker; shared memory belongs to the system, so that other processes may have removed it (\<open>removed\<close>)
  before a worker attaches it, as the master of this program does at once.  \<open>Signals\<close> the signal mask and the handlers of a process, \<open>Master\<close> the module table, the order
  of initialisation, the chain of forks, the loops of master and worker and \<open>hixo_main\<close>.  \<open>Modules\<close> gives
  the table its instances, \<open>Processes\<close> shows what becomes of the processes.  \<open>Mains\<close> has the \<open>main\<close> of
  the server and the descriptors of a daemon.  \<open>Life\<close> follows the server with the modules of the source
  from zeroed memory through the fork into the loop of the worker, and into the turns without an end of a worker
  that comes too late for the shared memory.

  \<^bold>\<open>What is asked of the kernel.\<close>  The properties of rounds assume \<open>kernel_ok\<close>: a new descriptor is new,
  \<open>epoll_ctl\<close> can unregister what is open, an accepted connection has a local address, with a port that
  a module was configured for (\<open>getsockname\<close> is inside an assertion, and so is the search for the module), and a
  connection of \<open>echo\<close> that is reported has data to read; and \<open>reported\<close>: an event carries the data of a
  registered descriptor, at most one for each.  What happens without them is shown by \<open>accept_finds_module\<close>
  and \<open>echo_empty_wakeup\<close>.

  \<^bold>\<open>Not modelled.\<close>  Logging, \<open>prt_stack\<close> in \<open>resource.c\<close>, which prints a backtrace, \<open>setsid\<close>, \<open>umask\<close> and
  \<open>chdir\<close> of a daemon, signals that arrive while the master does not sleep, and two programs of \<open>hixo.c\<close>
  that are not built: \<open>RUN\<close> 2, whose loops are empty, and \<open>RUN\<close> 4, which prints the results of
  \<open>mem_shift_left\<close>.
\<close>

end
